(* ===== verification/GoPrelude.thy ===== *)
theory GoPrelude
  imports Main "HOL-Library.Word"
begin

unbundle bit_operations_syntax

text \<open>
  Shared vocabulary of the development. A Go function that can return an error or panic is a
  function into \<open>outcome\<close>: \<open>Ok\<close> is a normal return, \<open>Err\<close> a returned error, \<open>Panic\<close> a
  run-time panic (index or slice bounds out of range) and \<open>Diverge\<close> a call that never returns.
  Slices are lists, positions and lengths are \<open>nat\<close> (a Go slice is shorter than \<open>2 ^ 63\<close>, so the
  64-bit \<open>int\<close> arithmetic on positions in the modelled code never wraps), and fixed-width
  unsigned integers are machine words, on which arithmetic wraps as in Go.
  The collections \<open>nopanic\<close> and \<open>window\<close> gather, for the whole development, the facts that an
  operation does not panic and that a reader only looks at the bytes it consumes.
\<close>

section \<open>Machine types\<close>

type_synonym u8 = "8 word"
type_synonym u32 = "32 word"
type_synonym u64 = "64 word"
type_synonym bytes = "8 word list"

lemma unat_u8_less: "unat (b :: u8) < 2 ^ 8"
  and unat_u32_less: "unat (w :: u32) < 2 ^ 32"
  and unat_u64_less: "unat (d :: u64) < 2 ^ 64"
  using unsigned_less [of b] unsigned_less [of w] unsigned_less [of d] by simp_all

lemma unat_u32_bound [simp]: "unat (w :: u32) < 4294967296"
  using unat_u32_less [of w] by simp

section \<open>Outcomes of Go calls\<close>

datatype ('e, 'a) outcome = Ok 'a | Err 'e | Panic | Diverge

text \<open>The result of a Go function that returns no error.\<close>

type_synonym 'a may_panic = "(unit, 'a) outcome"

fun obind :: "('e, 'a) outcome \<Rightarrow> ('a \<Rightarrow> ('e, 'b) outcome) \<Rightarrow> ('e, 'b) outcome" where
  "obind (Ok x) f = f x"
| "obind (Err e) f = Err e"
| "obind Panic f = Panic"
| "obind Diverge f = Diverge"

text \<open>\<open>fmt.Errorf("...: %w", err)\<close>: rewrap the error of a call, leave every other outcome.\<close>

fun map_err :: "('e \<Rightarrow> 'f) \<Rightarrow> ('e, 'a) outcome \<Rightarrow> ('f, 'a) outcome" where
  "map_err g (Ok x) = Ok x"
| "map_err g (Err e) = Err (g e)"
| "map_err g Panic = Panic"
| "map_err g Diverge = Diverge"

lemma obind_cong [fundef_cong]:
  "m = m' \<Longrightarrow> (\<And>x. m' = Ok x \<Longrightarrow> f x = g x) \<Longrightarrow> obind m f = obind m' g"
  by (cases m') auto

lemma obind_eq_Ok: "obind m f = Ok y \<longleftrightarrow> (\<exists>x. m = Ok x \<and> f x = Ok y)"
  by (cases m) auto

lemma obind_OkE [elim!]:
  assumes "obind m f = Ok y"
  obtains x where "m = Ok x" and "f x = Ok y"
  using assms by (cases m) auto

lemma map_err_eq_Ok [simp]: "map_err g m = Ok y \<longleftrightarrow> m = Ok y"
  by (cases m) auto

lemma obind_assoc: "obind (obind m f) g = obind m (\<lambda>x. obind (f x) g)"
  by (cases m) auto

lemma obind_Ok_right [simp]: "obind m Ok = m"
  by (cases m) auto

section \<open>No panic, no divergence\<close>

named_theorems nopanic

definition returns :: "('e, 'a) outcome \<Rightarrow> bool" where
  "returns m \<longleftrightarrow> m \<noteq> Panic \<and> m \<noteq> Diverge"

lemma returns_Ok [simp, nopanic]: "returns (Ok x)"
  and returns_Err [simp, nopanic]: "returns (Err e)"
  and not_returns_Panic [simp]: "\<not> returns Panic"
  and not_returns_Diverge [simp]: "\<not> returns Diverge"
  by (simp_all add: returns_def)

lemma returns_obind [nopanic]:
  "returns m \<Longrightarrow> (\<And>x. m = Ok x \<Longrightarrow> returns (f x)) \<Longrightarrow> returns (obind m f)"
  by (cases m) auto

lemma returns_map_err [simp, nopanic]: "returns (map_err g m) \<longleftrightarrow> returns m"
  by (cases m) (auto simp: returns_def)

lemma returns_if [nopanic]:
  "(b \<Longrightarrow> returns x) \<Longrightarrow> (\<not> b \<Longrightarrow> returns y) \<Longrightarrow> returns (if b then x else y)"
  by simp

lemma returns_option [nopanic]:
  "(r = None \<Longrightarrow> returns x) \<Longrightarrow> (\<And>y. r = Some y \<Longrightarrow> returns (f y)) \<Longrightarrow>
   returns (case r of None \<Rightarrow> x | Some y \<Rightarrow> f y)"
  by (cases r) simp_all

lemma returns_prod [nopanic]:
  "(\<And>a b. r = (a, b) \<Longrightarrow> returns (f a b)) \<Longrightarrow> returns (case r of (a, b) \<Rightarrow> f a b)"
  by (cases r) simp

lemma returns_sum [nopanic]:
  "(\<And>a. r = Inl a \<Longrightarrow> returns (f a)) \<Longrightarrow> (\<And>b. r = Inr b \<Longrightarrow> returns (g b)) \<Longrightarrow>
   returns (case r of Inl a \<Rightarrow> f a | Inr b \<Rightarrow> g b)"
  by (cases r) simp_all

lemma returns_Let [nopanic]: "(\<And>x. x = t \<Longrightarrow> returns (f x)) \<Longrightarrow> returns (Let t f)"
  by simp

lemma returns_cases:
  assumes "returns m"
  obtains (Ok) x where "m = Ok x" | (Err) e where "m = Err e"
  using assms by (cases m) auto

section \<open>Slices\<close>

text \<open>\<open>xs[i]\<close>, and \<open>xs[i:j]\<close> with the bound taken at the length of the slice.\<close>

definition at_idx :: "'a list \<Rightarrow> nat \<Rightarrow> ('e, 'a) outcome" where
  "at_idx xs i = (if i < length xs then Ok (xs ! i) else Panic)"

definition gslice :: "'a list \<Rightarrow> nat \<Rightarrow> nat \<Rightarrow> ('e, 'a list) outcome" where
  "gslice xs i j = (if i \<le> j \<and> j \<le> length xs then Ok (take (j - i) (drop i xs)) else Panic)"

text \<open>The same with an index that may be negative.\<close>

definition at_int :: "'a list \<Rightarrow> int \<Rightarrow> ('e, 'a) outcome" where
  "at_int xs i = (if i < 0 then Panic else at_idx xs (nat i))"

lemma at_idx_Ok [simp]: "at_idx xs i = Ok x \<longleftrightarrow> i < length xs \<and> x = xs ! i"
  by (auto simp: at_idx_def)

lemma at_idx_in [simp]: "i < length xs \<Longrightarrow> at_idx xs i = Ok (xs ! i)"
  by (simp add: at_idx_def)

lemma gslice_Ok [simp]:
  "gslice xs i j = Ok ys \<longleftrightarrow> i \<le> j \<and> j \<le> length xs \<and> ys = take (j - i) (drop i xs)"
  by (auto simp: gslice_def)

lemma gslice_in: "i \<le> j \<Longrightarrow> j \<le> length xs \<Longrightarrow> gslice xs i j = Ok (take (j - i) (drop i xs))"
  by (simp add: gslice_def)

lemma drop_appendD: "drop p xs = ys @ zs \<Longrightarrow> drop (p + length ys) xs = zs"
  by (metis add.commute append_eq_conv_conj drop_drop)

lemma drop_append_bound: "drop p xs = ys @ zs \<Longrightarrow> ys \<noteq> [] \<Longrightarrow> p + length ys \<le> length xs"
proof -
  assume d: "drop p xs = ys @ zs" and "ys \<noteq> []"
  then have "length ys > 0" and "length xs - p = length ys + length zs"
    by simp (metis d length_append length_drop)
  then show ?thesis by arith
qed

lemma returns_at_idx [nopanic]: "i < length xs \<Longrightarrow> returns (at_idx xs i)"
  by simp

lemma returns_gslice [nopanic]: "i \<le> j \<Longrightarrow> j \<le> length xs \<Longrightarrow> returns (gslice xs i j)"
  by (simp add: gslice_def)

section \<open>Mapping over a slice\<close>

text \<open>A loop that computes one value per element and stops at the first error.\<close>

primrec omap :: "('a \<Rightarrow> ('e, 'b) outcome) \<Rightarrow> 'a list \<Rightarrow> ('e, 'b list) outcome" where
  "omap f [] = Ok []"
| "omap f (x # xs) = obind (f x) (\<lambda>y. obind (omap f xs) (\<lambda>ys. Ok (y # ys)))"

lemma omap_Ok: "omap f xs = Ok ys \<longleftrightarrow> list_all2 (\<lambda>x y. f x = Ok y) xs ys"
  by (induction xs arbitrary: ys) (auto simp: obind_eq_Ok list_all2_Cons1)

lemma returns_omap [nopanic]: "(\<And>x. x \<in> set xs \<Longrightarrow> returns (f x)) \<Longrightarrow> returns (omap f xs)"
  by (induction xs) (auto intro!: nopanic)

lemma omap_total: "(\<And>x. x \<in> set xs \<Longrightarrow> f x = Ok (g x)) \<Longrightarrow> omap f xs = Ok (map g xs)"
  by (induction xs) auto

lemma omap_append: "omap f (xs @ ys) = obind (omap f xs) (\<lambda>us. obind (omap f ys) (\<lambda>vs. Ok (us @ vs)))"
  by (induction xs) (auto simp: obind_assoc)

section \<open>Decimal formatting\<close>

text \<open>\<open>%d\<close> of \<open>fmt\<close>, and the conversion of a byte slice to a string.\<close>

fun fmt_nat :: "nat \<Rightarrow> string" where
  "fmt_nat n = (if n < 10 then [char_of (48 + n)] else fmt_nat (n div 10) @ [char_of (48 + n mod 10)])"

declare fmt_nat.simps [simp del]

definition fmt_int :: "int \<Rightarrow> string" where
  "fmt_int z = (if z < 0 then CHR ''-'' # fmt_nat (nat (- z)) else fmt_nat (nat z))"

definition fmt_u32 :: "u32 \<Rightarrow> string" where
  "fmt_u32 w = fmt_nat (unat w)"

definition str_of_bytes :: "bytes \<Rightarrow> string" where
  "str_of_bytes bs = map (\<lambda>b. char_of (unat b)) bs"

section \<open>Windows: equal stretches of two byte strings\<close>

text \<open>
  \<open>same_at e p e' p' n\<close>: the \<open>n\<close> bytes of \<open>e\<close> from \<open>p\<close> are the \<open>n\<close> bytes of \<open>e'\<close> from \<open>p'\<close>.
  A reader that succeeds on one of them, having consumed those bytes, succeeds on the other.
\<close>

named_theorems window

definition same_at :: "'a list \<Rightarrow> nat \<Rightarrow> 'a list \<Rightarrow> nat \<Rightarrow> nat \<Rightarrow> bool" where
  "same_at e p e' p' n \<longleftrightarrow>
     p + n \<le> length e \<and> p' + n \<le> length e' \<and> take n (drop p e) = take n (drop p' e')"

lemma same_at_sub:
  assumes "same_at e p e' p' m" and "k + n \<le> m"
  shows "same_at e (p + k) e' (p' + k) n"
proof -
  have win: "take n (drop k (take m xs)) = take n (drop k xs)" for xs :: "'a list"
    using assms(2) by (simp add: drop_take min_def)
  have "take n (drop k (drop p e)) = take n (drop k (drop p' e'))"
    using assms(1) win unfolding same_at_def by metis
  with assms show ?thesis by (auto simp: same_at_def add.commute)
qed

lemma same_at_take: "same_at e p e' p' m \<Longrightarrow> n \<le> m \<Longrightarrow> same_at e p e' p' n"
  using same_at_sub [of e p e' p' m 0 n] by simp

lemma same_at_nth: "same_at e p e' p' n \<Longrightarrow> i < n \<Longrightarrow> e' ! (p' + i) = e ! (p + i)"
  unfolding same_at_def by (metis (no_types, lifting) add_leD1 nth_drop nth_take)

lemma same_at_bound: "same_at e p e' p' n \<Longrightarrow> p + n \<le> length e \<and> p' + n \<le> length e'"
  by (simp add: same_at_def)

lemma same_at_append:
  "same_at (pre @ xs @ post) (length pre) (pre' @ xs @ post') (length pre') (length xs)"
  by (simp add: same_at_def)

lemma same_at_gslice:
  "p + n \<le> length e \<Longrightarrow> same_at e p (pre @ take n (drop p e) @ post) (length pre) n"
  by (simp add: same_at_def)

section \<open>Skippers\<close>

text \<open>
  A skipper moves a position over part of a byte string. From a position inside the string it
  returns (a position or an error), it never leaves the string, and a successful skip depends on
  the bytes skipped only.
\<close>

definition skipper :: "('a list \<Rightarrow> nat \<Rightarrow> ('e, nat) outcome) \<Rightarrow> bool" where
  "skipper s \<longleftrightarrow> (\<forall>e p. p \<le> length e \<longrightarrow> returns (s e p) \<and>
     (\<forall>q. s e p = Ok q \<longrightarrow> p \<le> q \<and> q \<le> length e \<and>
       (\<forall>e' p'. same_at e p e' p' (q - p) \<longrightarrow> s e' p' = Ok (p' + (q - p)))))"

named_theorems skipper_intros

lemma skipperI:
  assumes "\<And>e p. p \<le> length e \<Longrightarrow> returns (s e p)"
    and "\<And>e p q. p \<le> length e \<Longrightarrow> s e p = Ok q \<Longrightarrow> p \<le> q \<and> q \<le> length e"
    and "\<And>e p q e' p'. p \<le> length e \<Longrightarrow> s e p = Ok q \<Longrightarrow> same_at e p e' p' (q - p) \<Longrightarrow>
      s e' p' = Ok (p' + (q - p))"
  shows "skipper s"
  using assms unfolding skipper_def by blast

lemma skipper_returns: "skipper s \<Longrightarrow> p \<le> length e \<Longrightarrow> returns (s e p)"
  and skipper_bounds: "skipper s \<Longrightarrow> p \<le> length e \<Longrightarrow> s e p = Ok q \<Longrightarrow> p \<le> q \<and> q \<le> length e"
  and skipper_window: "skipper s \<Longrightarrow> p \<le> length e \<Longrightarrow> s e p = Ok q \<Longrightarrow>
    same_at e p e' p' (q - p) \<Longrightarrow> s e' p' = Ok (p' + (q - p))"
  unfolding skipper_def by blast+

lemma skipper_stay [skipper_intros]: "skipper (\<lambda>e p. Ok p)"
  and skipper_fail [skipper_intros]: "skipper (\<lambda>e p. Err x)"
  by (rule skipperI; simp add: same_at_def)+

lemma skipper_take [skipper_intros]:
  "skipper (\<lambda>e p. if p + k > length e then Err x else Ok (p + k))"
  by (rule skipperI) (auto simp: same_at_def split: if_splits)

lemma skipper_take1 [skipper_intros]:
  "skipper (\<lambda>e p. if p \<ge> length e then Err x else Ok (p + 1))"
  by (rule skipperI) (auto simp: same_at_def split: if_splits)

lemma skipper_if [skipper_intros]:
  "skipper s \<Longrightarrow> skipper t \<Longrightarrow> skipper (\<lambda>e p. if b then s e p else t e p)"
  by (cases b) simp_all

lemma skipper_seq [skipper_intros]:
  assumes s: "skipper s" and t: "skipper t"
  shows "skipper (\<lambda>e p. obind (s e p) (t e))"
proof (rule skipperI)
  fix e :: "'a list" and p assume p: "p \<le> length e"
  then show "returns (obind (s e p) (t e))"
    by (intro nopanic skipper_returns [OF s] skipper_returns [OF t])
      (use skipper_bounds [OF s p] in blast)+
next
  fix e :: "'a list" and p q assume p: "p \<le> length e" and "obind (s e p) (t e) = Ok q"
  then obtain m where m: "s e p = Ok m" "t e m = Ok q" by blast
  then show "p \<le> q \<and> q \<le> length e"
    using skipper_bounds [OF s p m(1)] skipper_bounds [OF t _ m(2)] by auto
next
  fix e e' :: "'a list" and p q p'
  assume p: "p \<le> length e" and "obind (s e p) (t e) = Ok q" and w: "same_at e p e' p' (q - p)"
  then obtain m where m: "s e p = Ok m" "t e m = Ok q" by blast
  note b = skipper_bounds [OF s p m(1)]
  note c = skipper_bounds [OF t b [THEN conjunct2] m(2)]
  have "s e' p' = Ok (p' + (m - p))"
    using skipper_window [OF s p m(1)] same_at_take [OF w diff_le_mono [OF c [THEN conjunct1]]]
    by blast
  moreover have "same_at e m e' (p' + (m - p)) (q - m)"
    using same_at_sub [OF w, of "m - p" "q - m"] b c by simp
  then have "t e' (p' + (m - p)) = Ok (p' + (m - p) + (q - m))"
    using skipper_window [OF t b [THEN conjunct2] m(2)] by blast
  ultimately show "obind (s e' p') (t e') = Ok (p' + (q - p))"
    using b c by simp
qed

end
