(* ===== verification/Leb128.thy ===== *)
theory Leb128
  imports GoPrelude
begin

unbundle bit_operations_syntax

text \<open>
  LEB128 integers as internal/wasmopt/dce.go and internal/wasmvalidate/validate.go read and write
  them. Both packages read an unsigned 32-bit value in at most five bytes; wasmopt also reads the
  signed forms (\<open>readSLEB\<close>) and writes the unsigned one (\<open>encodeU32\<close>). The loops keep the
  source's index \<open>i\<close>, accumulator and shift. The locale \<open>u32_codec\<close> is the contract the module
  rewriters rely on: what the encoder writes, the reader reads back, wherever it stands in a byte
  string, and the reader looks at nothing but the bytes it consumes.
\<close>

section \<open>Errors of internal/wasmopt\<close>

datatype opt_error =
    UlebOutOfBounds | UlebOverflow | SlebOutOfBounds | SlebOverflow
  | NameOutOfBounds | BlockTypeTruncated | TableTypeTruncated
  | ImportTruncated | GlobalImportTruncated | TagImportTruncated | UnsupportedImportKind u8
  | TrailingBytes string | CodeBodyOutOfBounds nat | ExportEntryTruncated
  | ExportToRemovedFunction u32 | StartFunctionRemoved
  | ElementKindTruncated | ElementReftypeTruncated | UnsupportedElementFlags u32
  | UnterminatedConstExpr | LocalDeclTruncated | InvalidLocalDecls
  | FunctionRemoved u32 | SelectVectorOutOfBounds | F32ConstTruncated | F64ConstTruncated
  | RefNullTruncated | UnsupportedFcSubopcode u32 | UnsupportedSimd | UnsupportedAtomic
  | UnsupportedOpcode u8 | FunctionCodeMismatch nat nat | InvalidModule string
  | InvalidRemap | Context string opt_error | ContextAt string nat opt_error

section \<open>Unsigned LEB128: internal/wasmopt\<close>

text \<open>The loop of \<open>readU32\<close>: \<open>i\<close> bytes read so far, \<open>v\<close> the value collected from them.\<close>

function readU32_loop :: "bytes \<Rightarrow> nat \<Rightarrow> nat \<Rightarrow> u32 \<Rightarrow> (opt_error, u32 \<times> nat) outcome" where
  "readU32_loop data pos i v =
     (if i < 5 then
        if pos + i \<ge> length data then Err UlebOutOfBounds
        else obind (at_idx data (pos + i)) (\<lambda>b.
          let v' = v OR push_bit (7 * i) (ucast (b AND 0x7f)) in
          if b AND 0x80 = 0 then Ok (v', i + 1) else readU32_loop data pos (Suc i) v')
      else Err UlebOverflow)"
  by pat_completeness auto
termination by (relation "measure (\<lambda>(data, pos, i, v). 5 - i)") auto

declare readU32_loop.simps [simp del]

definition readU32 :: "bytes \<Rightarrow> nat \<Rightarrow> (opt_error, u32 \<times> nat) outcome" where
  "readU32 data pos = readU32_loop data pos 0 0"

text \<open>\<open>encodeU32\<close>: seven bits per byte, low end first, bit 7 set on all bytes but the last.\<close>

lemma drop_bit_7_less: "drop_bit 7 v \<noteq> 0 \<Longrightarrow> unat (drop_bit 7 v) < unat (v :: 'a::len word)"
proof -
  assume nz: "drop_bit 7 v \<noteq> 0"
  then have "0 < unat v" by (metis drop_bit_of_0 unat_gt_0)
  then show ?thesis by (simp only: unat_drop_bit_eq) (simp add: drop_bit_eq_div)
qed

function encodeU32 :: "u32 \<Rightarrow> bytes" where
  "encodeU32 v =
     (let b = ucast (v AND 0x7f); v' = drop_bit 7 v in
      if v' \<noteq> 0 then (b OR 0x80) # encodeU32 v' else [b])"
  by pat_completeness auto
termination by (relation "measure unat") (auto intro: drop_bit_7_less)

declare encodeU32.simps [simp del]

section \<open>Unsigned LEB128: internal/wasmvalidate\<close>

function readULEB32_loop :: "bytes \<Rightarrow> nat \<Rightarrow> nat \<Rightarrow> u32 \<Rightarrow> (u32 \<times> nat) option may_panic" where
  "readULEB32_loop data pos i v =
     (if i < 5 then
        if pos + i \<ge> length data then Ok None
        else obind (at_idx data (pos + i)) (\<lambda>b.
          let v' = v OR push_bit (7 * i) (ucast (b AND 0x7f)) in
          if b AND 0x80 = 0 then Ok (Some (v', i + 1)) else readULEB32_loop data pos (Suc i) v')
      else Ok None)"
  by pat_completeness auto
termination by (relation "measure (\<lambda>(data, pos, i, v). 5 - i)") auto

declare readULEB32_loop.simps [simp del]

definition readULEB32 :: "bytes \<Rightarrow> nat \<Rightarrow> (u32 \<times> nat) option may_panic" where
  "readULEB32 data pos = readULEB32_loop data pos 0 0"

section \<open>Signed LEB128: internal/wasmopt\<close>

text \<open>
  \<open>readSLEB\<close> collects into an \<open>int64\<close>; \<open>^0 << shift\<close> is all ones shifted left. Go shifts by 64
  and more to zero, as \<open>push_bit\<close> does.
\<close>

function readSLEB_loop ::
  "bytes \<Rightarrow> nat \<Rightarrow> nat \<Rightarrow> nat \<Rightarrow> u64 \<Rightarrow> (opt_error, u64 \<times> nat) outcome" where
  "readSLEB_loop data pos bits i r =
     (if i < 10 then
        if pos + i \<ge> length data then Err SlebOutOfBounds
        else obind (at_idx data (pos + i)) (\<lambda>b.
          let r' = r OR push_bit (7 * i) (ucast (b AND 0x7f)); shift = 7 * i + 7 in
          if b AND 0x80 = 0 then
            Ok (if shift < bits \<and> b AND 0x40 \<noteq> 0 then r' OR push_bit shift (- 1) else r', i + 1)
          else readSLEB_loop data pos bits (Suc i) r')
      else Err SlebOverflow)"
  by pat_completeness auto
termination by (relation "measure (\<lambda>(data, pos, bits, i, r). 10 - i)") auto

declare readSLEB_loop.simps [simp del]

definition readSLEB :: "bytes \<Rightarrow> nat \<Rightarrow> nat \<Rightarrow> (opt_error, u64 \<times> nat) outcome" where
  "readSLEB data pos bits = readSLEB_loop data pos bits 0 0"

definition readSLEB32 :: "bytes \<Rightarrow> nat \<Rightarrow> (opt_error, u32 \<times> nat) outcome" where
  "readSLEB32 data pos = obind (readSLEB data pos 32) (\<lambda>(v, n). Ok (ucast v, n))"

definition readSLEB64 :: "bytes \<Rightarrow> nat \<Rightarrow> (opt_error, u64 \<times> nat) outcome" where
  "readSLEB64 data pos = readSLEB data pos 64"

definition readSLEB33 :: "bytes \<Rightarrow> nat \<Rightarrow> (opt_error, u64 \<times> nat) outcome" where
  "readSLEB33 data pos = readSLEB data pos 33"

section \<open>What the readers consume\<close>

lemma readU32_loop_Ok:
  "readU32_loop data pos i v = Ok (w, n) \<Longrightarrow> i < n \<and> n \<le> 5 \<and> pos + n \<le> length data"
proof (induction data pos i v rule: readU32_loop.induct)
  case (1 data pos i v)
  from "1.prems" show ?case
    by (subst (asm) readU32_loop.simps)
      (auto simp: Let_def split: if_splits dest: "1.IH" [rotated -1])
qed

lemma readU32_Ok: "readU32 data pos = Ok (v, n) \<Longrightarrow> 0 < n \<and> n \<le> 5 \<and> pos + n \<le> length data"
  unfolding readU32_def by (rule readU32_loop_Ok)

lemma readU32_loop_window:
  "readU32_loop e p i v = Ok (w, n) \<Longrightarrow> same_at e p e' p' n \<Longrightarrow> readU32_loop e' p' i v = Ok (w, n)"
proof (induction e p i v rule: readU32_loop.induct)
  case (1 e p i v)
  have "i < n" using readU32_loop_Ok [OF "1.prems"(1)] by simp
  with "1.prems"(2) have "e' ! (p' + i) = e ! (p + i)" "p' + i < length e'" "p + i < length e"
    by (auto dest: same_at_nth same_at_bound)
  with "1.prems" show ?case
    by (subst readU32_loop.simps, subst (asm) readU32_loop.simps)
      (auto simp: Let_def split: if_splits dest: "1.IH" [rotated -1])
qed

lemma readU32_window [window]:
  "readU32 e p = Ok (v, n) \<Longrightarrow> same_at e p e' p' n \<Longrightarrow> readU32 e' p' = Ok (v, n)"
  unfolding readU32_def by (rule readU32_loop_window)

lemma returns_readU32_loop: "returns (readU32_loop data pos i v)"
proof (induction data pos i v rule: readU32_loop.induct)
  case (1 data pos i v)
  then show ?case by (subst readU32_loop.simps) (auto simp: Let_def)
qed

lemma returns_readU32 [simp, nopanic]: "returns (readU32 data pos)"
  by (simp add: readU32_def returns_readU32_loop)

lemma readSLEB_loop_Ok:
  "readSLEB_loop data pos bits i r = Ok (w, n) \<Longrightarrow> i < n \<and> n \<le> 10 \<and> pos + n \<le> length data"
proof (induction data pos bits i r rule: readSLEB_loop.induct)
  case (1 data pos bits i r)
  from "1.prems" show ?case
    by (subst (asm) readSLEB_loop.simps)
      (auto simp: Let_def split: if_splits dest: "1.IH" [rotated -1])
qed

lemma readSLEB_loop_window:
  "readSLEB_loop e p bits i r = Ok (w, n) \<Longrightarrow> same_at e p e' p' n \<Longrightarrow>
   readSLEB_loop e' p' bits i r = Ok (w, n)"
proof (induction e p bits i r rule: readSLEB_loop.induct)
  case (1 e p bits i r)
  have "i < n" using readSLEB_loop_Ok [OF "1.prems"(1)] by simp
  with "1.prems"(2) have "e' ! (p' + i) = e ! (p + i)" "p' + i < length e'" "p + i < length e"
    by (auto dest: same_at_nth same_at_bound)
  with "1.prems" show ?case
    by (subst readSLEB_loop.simps, subst (asm) readSLEB_loop.simps)
      (auto simp: Let_def split: if_splits dest: "1.IH" [rotated -1])
qed

lemma returns_readSLEB_loop: "returns (readSLEB_loop data pos bits i r)"
proof (induction data pos bits i r rule: readSLEB_loop.induct)
  case (1 data pos bits i r)
  then show ?case by (subst readSLEB_loop.simps) (auto simp: Let_def)
qed

lemma readSLEB_Ok:
  "readSLEB data pos bits = Ok (w, n) \<Longrightarrow> 0 < n \<and> n \<le> 10 \<and> pos + n \<le> length data"
  unfolding readSLEB_def by (rule readSLEB_loop_Ok)

lemma readSLEB_window:
  "readSLEB e p bits = Ok (w, n) \<Longrightarrow> same_at e p e' p' n \<Longrightarrow> readSLEB e' p' bits = Ok (w, n)"
  unfolding readSLEB_def by (rule readSLEB_loop_window)

lemma returns_readSLEB [simp, nopanic]: "returns (readSLEB data pos bits)"
  by (simp add: readSLEB_def returns_readSLEB_loop)

section \<open>Seven-bit groups\<close>

lemma low7_mask: "(0x7f :: 8 word) = mask 7" "(0x7f :: 32 word) = mask 7" "(0x7f :: 64 word) = mask 7"
  by (simp_all add: mask_eq_exp_minus_1)

lemma bit_0x80: "bit (0x80 :: u8) n \<longleftrightarrow> n = 7"
proof -
  have "(0x80 :: u8) = 2 ^ 7" by simp
  then show ?thesis by (simp only: bit_exp_iff) (auto simp: possible_bit_word)
qed

lemma bit_0x7f: "bit (0x7f :: 8 word) n \<longleftrightarrow> n < 7" "bit (0x7f :: 32 word) n \<longleftrightarrow> n < 7"
  "bit (0x7f :: 64 word) n \<longleftrightarrow> n < 7"
  by (auto simp: bit_mask_iff low7_mask)

lemma last_group_flag: "(ucast (w AND 0x7f :: u32) :: u8) AND 0x80 = 0"
  by (rule bit_word_eqI) (simp only: bit_and_iff bit_ucast_iff bit_0x80 bit_0x7f, simp)

lemma more_group_flag: "(ucast (w AND 0x7f :: u32) OR 0x80 :: u8) AND 0x80 \<noteq> 0"
proof -
  have "bit ((ucast (w AND 0x7f) OR 0x80 :: u8) AND 0x80) 7"
    by (simp only: bit_and_iff bit_or_iff bit_0x80) simp
  then show ?thesis by (metis bit_0_eq bot2E bot_fun_def bot_bool_def)
qed

lemma more_group_value: "(ucast ((ucast (w AND 0x7f) OR 0x80 :: u8) AND 0x7f) :: u32) = w AND 0x7f"
  by (rule bit_word_eqI)
    (auto simp only: bit_and_iff bit_or_iff bit_ucast_iff bit_0x80 bit_0x7f, simp_all)

lemma last_group_value: "(ucast ((ucast (w AND 0x7f) :: u8) AND 0x7f) :: u32) = w AND 0x7f"
  by (rule bit_word_eqI)
    (auto simp only: bit_and_iff bit_or_iff bit_ucast_iff bit_0x80 bit_0x7f, simp_all)

lemma push_low_high: "push_bit k (w AND 0x7f) OR push_bit (k + 7) (drop_bit 7 w) = push_bit k (w :: u32)"
  unfolding low7_mask
proof (rule bit_word_eqI)
  fix n assume "n < LENGTH(32)"
  moreover have "7 + (n - (k + 7)) = n - k" if "\<not> n - k < 7" using that by simp
  ultimately show "bit (push_bit k (w AND mask 7) OR push_bit (k + 7) (drop_bit 7 w)) n
      = bit (push_bit k w) n"
    by (cases "n - k < 7") (auto simp: bit_simps)
qed

lemma drop_bit_7_zero: "drop_bit 7 w = 0 \<longleftrightarrow> unat (w :: u32) < 128"
proof -
  have "unat (drop_bit 7 w) = unat w div 128"
    by (simp only: unat_drop_bit_eq) (simp add: drop_bit_eq_div)
  then show ?thesis by (metis div_eq_0_iff unat_eq_zero zero_neq_numeral)
qed

lemma unat_drop_bit_7: "unat (drop_bit 7 (w :: u32)) = unat w div 128"
  by (simp only: unat_drop_bit_eq) (simp add: drop_bit_eq_div)

lemma drop_ConsD: "drop k xs = y # ys \<Longrightarrow> k < length xs \<and> xs ! k = y \<and> drop (Suc k) xs = ys"
  by (metis Cons_nth_drop_Suc list.inject drop_all linorder_not_less neq_Nil_conv)

section \<open>Round trip\<close>

lemma encodeU32_last: "drop_bit 7 w = 0 \<Longrightarrow> encodeU32 w = [ucast (w AND 0x7f)]"
  and encodeU32_more: "drop_bit 7 w \<noteq> 0 \<Longrightarrow>
    encodeU32 w = (ucast (w AND 0x7f) OR 0x80) # encodeU32 (drop_bit 7 w)"
  by (subst encodeU32.simps, simp add: Let_def)+

lemma readU32_loop_encode:
  "i < 5 \<Longrightarrow> unat w < 2 ^ (32 - 7 * i) \<Longrightarrow> drop (pos + i) data = encodeU32 w @ rest \<Longrightarrow>
   readU32_loop data pos i acc = Ok (acc OR push_bit (7 * i) w, i + length (encodeU32 w))"
proof (induction w arbitrary: i acc rule: encodeU32.induct)
  case (1 w)
  show ?case
  proof (cases "drop_bit 7 w = 0")
    case True
    then have low: "w AND 0x7f = w"
      using push_low_high [of 0 w] by simp
    from 1(4) True have "pos + i < length data \<and> data ! (pos + i) = ucast (w AND 0x7f)"
      by (auto simp: encodeU32_last dest!: drop_ConsD)
    with True 1(2) show ?thesis
      by (subst readU32_loop.simps)
        (simp add: encodeU32_last Let_def low last_group_flag [of w, unfolded low]
          last_group_value [of w, unfolded low])
  next
    case False
    with 1(2,3) have i: "i < 4"
      by (cases "i = 4") (auto simp: drop_bit_7_zero)
    then have "32 - 7 * i = 7 + (32 - 7 * Suc i)" by simp
    then have "(2::nat) ^ (32 - 7 * i) = 2 ^ (32 - 7 * Suc i) * 128"
      by (simp only: power_add) simp
    with 1(3) have w': "unat (drop_bit 7 w) < 2 ^ (32 - 7 * Suc i)"
      by (simp add: unat_drop_bit_7 div_less_iff_less_mult)
    obtain b where b: "b = (ucast (w AND 0x7f) OR 0x80 :: u8)" by simp
    have flag: "b AND 0x80 \<noteq> 0" and val: "ucast (b AND 0x7f) = w AND 0x7f"
      unfolding b by (rule more_group_flag, rule more_group_value)
    have enc: "encodeU32 w = b # encodeU32 (drop_bit 7 w)"
      by (simp only: encodeU32_more [OF False] b)
    from 1(4) enc have d: "pos + i < length data" "data ! (pos + i) = b"
        "drop (pos + Suc i) data = encodeU32 (drop_bit 7 w) @ rest"
      by (auto dest!: drop_ConsD)
    have IH: "readU32_loop data pos (Suc i) a =
        Ok (a OR push_bit (7 * Suc i) (drop_bit 7 w), Suc i + length (encodeU32 (drop_bit 7 w)))" for a
      using 1(1) [OF refl refl False _ w'] d i by simp
    have "readU32_loop data pos i acc = readU32_loop data pos (Suc i) (acc OR push_bit (7 * i) (w AND 0x7f))"
      using d 1(2) flag by (subst readU32_loop.simps) (simp only: val Let_def at_idx_in obind.simps, simp)
    also have "\<dots> = Ok (acc OR (push_bit (7 * i) (w AND 0x7f) OR push_bit (7 * i + 7) (drop_bit 7 w)),
        i + length (encodeU32 w))"
      by (simp only: IH enc or.assoc) (simp add: add.commute)
    finally show ?thesis by (simp only: push_low_high)
  qed
qed

theorem readU32_encodeU32:
  "readU32 (pre @ encodeU32 v @ rest) (length pre) = Ok (v, length (encodeU32 v))"
  unfolding readU32_def
  by (subst readU32_loop_encode [where w = v and rest = rest]) (simp_all add: unsigned_less [of v, simplified])

lemma length_encodeU32: "0 < length (encodeU32 v) \<and> length (encodeU32 v) \<le> 5"
  using readU32_Ok [OF readU32_encodeU32 [of "[]" v "[]"]] by simp

section \<open>The encoding is minimal\<close>

text \<open>An encoding of \<open>w\<close> is never longer than bytes that were read as a value at least as large.\<close>

lemma length_encodeU32_le: "0 < k \<Longrightarrow> unat w < 2 ^ (7 * k) \<Longrightarrow> length (encodeU32 w) \<le> k"
proof (induction w arbitrary: k rule: encodeU32.induct)
  case (1 w)
  show ?case
  proof (cases "drop_bit 7 w = 0")
    case True
    with 1(2) show ?thesis by (simp add: encodeU32_last)
  next
    case False
    with 1(3) have k: "k \<noteq> 1" by (auto simp: drop_bit_7_zero)
    then obtain j where j: "k = Suc j" "0 < j" using 1(2) by (cases k) auto
    with 1(3) have "unat (drop_bit 7 w) < 2 ^ (7 * j)"
      by (simp add: unat_drop_bit_7 div_less_iff_less_mult power_add mult.commute)
    with 1(1) [OF refl refl False j(2)] j False show ?thesis by (simp add: encodeU32_more)
  qed
qed

lemma readU32_loop_bits:
  "readU32_loop data pos i v = Ok (w, n) \<Longrightarrow> \<forall>j \<ge> 7 * i. \<not> bit v j \<Longrightarrow> \<forall>j \<ge> 7 * n. \<not> bit w j"
proof (induction data pos i v rule: readU32_loop.induct)
  case (1 data pos i v)
  let ?b = "data ! (pos + i)"
  let ?v = "v OR push_bit (7 * i) (ucast (?b AND 0x7f)) :: u32"
  have v: "\<forall>j \<ge> 7 * Suc i. \<not> bit ?v j"
    using "1.prems"(2) unfolding low7_mask
    by (auto simp: bit_or_iff bit_push_bit_iff bit_ucast_iff bit_and_iff bit_mask_iff)
  from "1.prems"(1) have i: "i < 5" "pos + i < length data"
    by (subst (asm) readU32_loop.simps, simp split: if_splits)+
  show ?case
  proof (cases "?b AND 0x80 = 0")
    case True
    with "1.prems"(1) i v show ?thesis
      by (subst (asm) readU32_loop.simps) (auto simp: Let_def)
  next
    case False
    with "1.prems"(1) i have "readU32_loop data pos (Suc i) ?v = Ok (w, n)"
      by (subst (asm) readU32_loop.simps) (simp add: Let_def)
    from "1.IH" [OF i(1) _ _ refl False this v] i show ?thesis by simp
  qed
qed

lemma readU32_minimal:
  assumes r: "readU32 data pos = Ok (v, n)" and w: "unat w \<le> unat v"
  shows "length (encodeU32 w) \<le> n"
proof (cases "n = 5")
  case True
  then show ?thesis using length_encodeU32 by simp
next
  case False
  with readU32_Ok [OF r] have n: "0 < n" "7 * n < 32" by auto
  have "\<forall>j \<ge> 7 * n. \<not> bit v j"
    using readU32_loop_bits [OF r [unfolded readU32_def]] by simp
  then have "take_bit (7 * n) v = v" by (intro bit_word_eqI) (auto simp: bit_take_bit_iff not_le)
  then have "unat v < 2 ^ (7 * n)"
    using n by (metis unsigned_take_bit_eq take_bit_nat_less_exp)
  with w show ?thesis by (intro length_encodeU32_le n) simp
qed

section \<open>The two readers agree\<close>

lemma readULEB32_loop_readU32_loop:
  "readULEB32_loop data pos i v =
     (case readU32_loop data pos i v of Ok r \<Rightarrow> Ok (Some r) | _ \<Rightarrow> Ok None)"
proof (induction data pos i v rule: readULEB32_loop.induct)
  case (1 data pos i v)
  then show ?case
    by (subst readULEB32_loop.simps, subst readU32_loop.simps) (auto simp: Let_def)
qed

lemma readULEB32_readU32:
  "readULEB32 data pos = (case readU32 data pos of Ok r \<Rightarrow> Ok (Some r) | _ \<Rightarrow> Ok None)"
  by (simp add: readULEB32_def readU32_def readULEB32_loop_readU32_loop)

lemma returns_readULEB32 [simp, nopanic]: "returns (readULEB32 data pos)"
  by (simp add: readULEB32_readU32 split: outcome.split)

lemma readULEB32_Some:
  "readULEB32 data pos = Ok (Some (v, n)) \<longleftrightarrow> readU32 data pos = Ok (v, n)"
  by (auto simp: readULEB32_readU32 split: outcome.splits)

lemma readULEB32_Ok:
  "readULEB32 data pos = Ok (Some (v, n)) \<Longrightarrow> 0 < n \<and> n \<le> 5 \<and> pos + n \<le> length data"
  by (simp add: readULEB32_Some readU32_Ok)

section \<open>The codec contract\<close>

text \<open>
  What a module rewriter needs of an integer encoding: the reader returns the encoded value and
  its length wherever the encoding starts, so that a vector of encoded values reads back too.
\<close>

locale u32_codec =
  fixes enc :: "u32 \<Rightarrow> bytes"
    and dec :: "bytes \<Rightarrow> nat \<Rightarrow> ('e, u32 \<times> nat) outcome"
  assumes dec_enc: "drop pos data = enc v @ rest \<Longrightarrow> dec data pos = Ok (v, length (enc v))"
    and enc_length: "0 < length (enc v) \<and> length (enc v) \<le> 5"
begin

primrec dec_list :: "nat \<Rightarrow> bytes \<Rightarrow> nat \<Rightarrow> ('e, u32 list \<times> nat) outcome" where
  "dec_list 0 data pos = Ok ([], pos)"
| "dec_list (Suc k) data pos =
     obind (dec data pos) (\<lambda>(v, n). obind (dec_list k data (pos + n)) (\<lambda>(vs, q). Ok (v # vs, q)))"

lemma dec_list_enc:
  "drop pos data = concat (map enc vs) @ rest \<Longrightarrow>
   dec_list (length vs) data pos = Ok (vs, pos + length (concat (map enc vs)))"
proof (induction vs arbitrary: pos)
  case Nil
  then show ?case by simp
next
  case (Cons v vs)
  then have "drop pos data = enc v @ concat (map enc vs) @ rest" by simp
  moreover from this have "drop (pos + length (enc v)) data = concat (map enc vs) @ rest"
    by (metis add.commute append_eq_conv_conj drop_drop)
  ultimately show ?case
    using Cons.IH by (simp add: dec_enc add.assoc)
qed

lemma enc_inj: "enc v = enc w \<Longrightarrow> v = w"
proof -
  assume "enc v = enc w"
  then have "drop 0 (enc v) = enc w @ []" by simp
  from dec_enc [OF this] dec_enc [of 0 "enc v" v "[]"] show "v = w" by simp
qed

lemma length_concat_enc: "length (concat (map enc vs)) \<le> 5 * length vs"
proof (induction vs)
  case Nil
  then show ?case by simp
next
  case (Cons v vs)
  then show ?case using enc_length [of v] by simp
qed

end

lemma drop_readU32_encodeU32:
  assumes "drop pos data = encodeU32 v @ rest"
  shows "readU32 data pos = Ok (v, length (encodeU32 v))"
proof -
  have "encodeU32 v \<noteq> []" using length_encodeU32 [of v] by auto
  with assms have "pos < length data" by (metis append_is_Nil_conv drop_eq_Nil not_le)
  with assms have "data = take pos data @ encodeU32 v @ rest" and "length (take pos data) = pos"
    by (metis append_take_drop_id, simp)
  then show ?thesis using readU32_encodeU32 by metis
qed

interpretation opt_codec: u32_codec encodeU32 readU32
  by unfold_locales (rule drop_readU32_encodeU32, assumption, rule length_encodeU32)

end
