(* ===== verification/WasmValidate.thy ===== *)
theory WasmValidate
  imports Leb128 "HOL-Library.Sublist"
begin

unbundle bit_operations_syntax

text \<open>
  internal/wasmvalidate/validate.go: the bounded validation pass over a WASM module. The
  \<open>issue\<close> closure of the source appends to a slice it captures; here every check takes the
  issues found so far and returns them extended. The wall clock is the parameter \<open>expired\<close>:
  \<open>expired i\<close> tells whether \<open>time.Now()\<close> is past the deadline when function body \<open>i\<close> is reached.
\<close>

section \<open>Data\<close>

datatype failure_class = ClassStructural | ClassPolicy

record issue =
  Field :: string
  Class :: failure_class
  Description :: string
  Hint :: string

record wsection =
  ID :: u8
  Offset :: nat
  PayloadOffset :: nat
  Size :: nat

record report =
  OK :: bool
  Issues :: "issue list"
  ModuleSize :: nat
  SectionCount :: nat
  Sections_of :: "wsection list"

record limits =
  MaxModuleSize :: int
  MaxSectionCount :: int
  MaxDebugSectionSize :: int
  MaxFunctionCount :: int
  MaxLocalsPerFunction :: int
  MaxDataSegments :: int
  MaxValidationTimeMS :: int

definition DefaultLimits :: limits where
  "DefaultLimits = \<lparr>
     MaxModuleSize = 64 * 1024 * 1024,
     MaxSectionCount = 128,
     MaxDebugSectionSize = 32 * 1024 * 1024,
     MaxFunctionCount = 1000000,
     MaxLocalsPerFunction = 50000,
     MaxDataSegments = 1000,
     MaxValidationTimeMS = 0\<rparr>"

definition mk_issue :: "string \<Rightarrow> failure_class \<Rightarrow> string \<Rightarrow> string \<Rightarrow> issue" where
  "mk_issue field cls desc hint = \<lparr>Field = field, Class = cls, Description = desc, Hint = hint\<rparr>"

text \<open>\<open>Report.Error\<close>: the issues joined by "; ", \<open>None\<close> (Go \<open>nil\<close>) for a report that is OK.\<close>

definition class_string :: "failure_class \<Rightarrow> string" where
  "class_string c = (case c of ClassStructural \<Rightarrow> ''structural'' | ClassPolicy \<Rightarrow> ''policy'')"

fun join_issues :: "issue list \<Rightarrow> string" where
  "join_issues [] = []"
| "join_issues (i # is) =
     ''['' @ class_string (Class i) @ ''] '' @ Field i @ '': '' @ Description i @
     (if is = [] then [] else ''; '' @ join_issues is)"

definition report_Error :: "report option \<Rightarrow> string option" where
  "report_Error r = (case r of None \<Rightarrow> None
     | Some r \<Rightarrow> if OK r then None else Some (join_issues (Issues r)))"

section \<open>Header and section table\<close>

definition hint_compiled :: string where
  "hint_compiled = ''provide a valid compiled WASM module''"

definition magic_desc :: string where
  "magic_desc = ''missing WASM magic bytes ('' @ [CHR 0x22, CHR 0x5C] @ ''0asm'' @ [CHR 0x22] @ '')''"

text \<open>\<open>binary.LittleEndian.Uint32\<close>, which indexes the fourth byte first.\<close>

definition le_uint32 :: "bytes \<Rightarrow> ('e, u32) outcome" where
  "le_uint32 b = obind (at_idx b 3) (\<lambda>_. Ok (ucast (b ! 0) OR push_bit 8 (ucast (b ! 1))
     OR push_bit 16 (ucast (b ! 2)) OR push_bit 24 (ucast (b ! 3))))"

definition checkHeader :: "bytes \<Rightarrow> issue list \<Rightarrow> (bool \<times> issue list) may_panic" where
  "checkHeader data iss =
     (if length data < 8 then
        Ok (False, iss @ [mk_issue ''header'' ClassStructural
          ''module shorter than the 8-byte WASM header'' hint_compiled])
      else
        obind (at_idx data 0) (\<lambda>b0. obind (at_idx data 1) (\<lambda>b1.
        obind (at_idx data 2) (\<lambda>b2. obind (at_idx data 3) (\<lambda>b3.
        if b0 \<noteq> 0x00 \<or> b1 \<noteq> 0x61 \<or> b2 \<noteq> 0x73 \<or> b3 \<noteq> 0x6d then
          Ok (False, iss @ [mk_issue ''magic'' ClassStructural magic_desc hint_compiled])
        else
          obind (gslice data 4 8) (\<lambda>vb. obind (le_uint32 vb) (\<lambda>version.
          if version \<noteq> 1 then
            Ok (False, iss @ [mk_issue ''version'' ClassStructural
              (''unsupported WASM version '' @ fmt_u32 version)
              ''recompile with a standard wasm32 toolchain''])
          else Ok (True, iss))))))))"

text \<open>
  One turn of the loop of \<open>walkSections\<close>, at \<open>pos < len(data)\<close> with \<open>k\<close> sections found: the issue that
  breaks the loop, or the section that starts at \<open>pos\<close>.
\<close>

definition section_issue :: "nat \<Rightarrow> string \<Rightarrow> issue" where
  "section_issue k desc =
     mk_issue (''section['' @ fmt_nat k @ ''].size'') ClassStructural desc hint_compiled"

definition nextSection :: "bytes \<Rightarrow> limits \<Rightarrow> nat \<Rightarrow> nat \<Rightarrow> (issue + wsection) may_panic" where
  "nextSection data lim k pos =
     (if MaxSectionCount lim > 0 \<and> int k \<ge> MaxSectionCount lim then
        Ok (Inl (mk_issue ''section_count'' ClassPolicy
          (''module has more than '' @ fmt_int (MaxSectionCount lim) @ '' sections'')
          ''reduce module complexity or raise the configured section-count limit''))
      else
        obind (at_idx data pos) (\<lambda>id.
        obind (readULEB32 data (pos + 1)) (\<lambda>r. case r of
          None \<Rightarrow> Ok (Inl (section_issue k ''malformed or truncated section-size varint''))
        | Some (sz, n) \<Rightarrow>
            if sz > of_nat (length data) \<or> pos + 1 + n + unat sz > length data then
              Ok (Inl (section_issue k
                (''section size '' @ fmt_u32 sz @ '' exceeds remaining module bytes'')))
            else
              Ok (Inr \<lparr>ID = id, Offset = pos, PayloadOffset = pos + 1 + n, Size = unat sz\<rparr>))))"

text \<open>\<open>section_at data s\<close>: the bytes of \<open>data\<close> at \<open>Offset s\<close> are the header of section \<open>s\<close>.\<close>

definition section_at :: "bytes \<Rightarrow> wsection \<Rightarrow> bool" where
  "section_at data s \<longleftrightarrow> Offset s < length data \<and> data ! Offset s = ID s \<and>
     Size s < 2 ^ 32 \<and> PayloadOffset s + Size s \<le> length data \<and> Offset s + 1 < PayloadOffset s \<and>
     readU32 data (Offset s + 1) = Ok (of_nat (Size s), PayloadOffset s - (Offset s + 1))"

lemma nextSection_Inr:
  "nextSection data lim k pos = Ok (Inr s) \<Longrightarrow> Offset s = pos \<and> section_at data s"
  using readU32_Ok [of data "Suc pos"]
  by (fastforce simp: nextSection_def section_at_def readULEB32_Some split: if_splits option.splits)

function walkSections_loop ::
  "bytes \<Rightarrow> limits \<Rightarrow> nat \<Rightarrow> wsection list \<Rightarrow> issue list \<Rightarrow> (wsection list \<times> issue list) may_panic"
where
  "walkSections_loop data lim pos secs iss =
     (if pos < length data then
        obind (nextSection data lim (length secs) pos) (\<lambda>r. case r of
          Inl e \<Rightarrow> Ok (secs, iss @ [e])
        | Inr s \<Rightarrow> walkSections_loop data lim (PayloadOffset s + Size s) (secs @ [s]) iss)
      else Ok (secs, iss))"
  by pat_completeness auto
termination
  by (relation "measure (\<lambda>(data, lim, pos, secs, iss). length data - pos)")
    (auto dest!: nextSection_Inr simp: section_at_def)

declare walkSections_loop.simps [simp del]

definition walkSections :: "bytes \<Rightarrow> limits \<Rightarrow> issue list \<Rightarrow> (wsection list \<times> issue list) may_panic" where
  "walkSections data lim iss = walkSections_loop data lim 8 [] iss"

definition Sections :: "bytes \<Rightarrow> limits \<Rightarrow> (wsection list \<times> issue list) may_panic" where
  "Sections data lim =
     obind (checkHeader data []) (\<lambda>(ok, iss).
       if \<not> ok then Ok ([], iss) else walkSections data lim iss)"

definition val_findSection :: "wsection list \<Rightarrow> u8 \<Rightarrow> wsection option" where
  "val_findSection secs sid = List.find (\<lambda>s. ID s = sid) secs"

definition payload_of :: "bytes \<Rightarrow> wsection \<Rightarrow> bytes may_panic" where
  "payload_of data s = gslice data (PayloadOffset s) (PayloadOffset s + Size s)"

section \<open>Import and code entries\<close>

definition val_skipString :: "bytes \<Rightarrow> nat \<Rightarrow> nat option may_panic" where
  "val_skipString data pos =
     obind (readULEB32 data pos) (\<lambda>r. case r of None \<Rightarrow> Ok None
       | Some (l, n) \<Rightarrow> if pos + n + unat l > length data then Ok None
           else Ok (Some (pos + n + unat l)))"

definition val_skipLimits :: "bytes \<Rightarrow> nat \<Rightarrow> nat option may_panic" where
  "val_skipLimits data pos =
     (if pos \<ge> length data then Ok None
      else obind (at_idx data pos) (\<lambda>flags.
        obind (readULEB32 data (pos + 1)) (\<lambda>r. case r of None \<Rightarrow> Ok None
        | Some (_, n) \<Rightarrow>
            if flags AND 0x1 \<noteq> 0 then
              obind (readULEB32 data (pos + 1 + n)) (\<lambda>r. case r of None \<Rightarrow> Ok None
              | Some (_, m) \<Rightarrow> Ok (Some (pos + 1 + n + m)))
            else Ok (Some (pos + 1 + n)))))"

text \<open>One import: the position after it, and whether it is a function import.\<close>

definition val_importEntry :: "bytes \<Rightarrow> nat \<Rightarrow> (nat \<times> bool) option may_panic" where
  "val_importEntry payload pos =
     obind (val_skipString payload pos) (\<lambda>r. case r of None \<Rightarrow> Ok None | Some pos \<Rightarrow>
     obind (val_skipString payload pos) (\<lambda>r. case r of None \<Rightarrow> Ok None | Some pos \<Rightarrow>
     if pos \<ge> length payload then Ok None
     else obind (at_idx payload pos) (\<lambda>kind. let pos = pos + 1 in
       if kind = 0 then
         obind (readULEB32 payload pos) (\<lambda>r. case r of None \<Rightarrow> Ok None
           | Some (_, n) \<Rightarrow> Ok (Some (pos + n, True)))
       else if kind = 1 then
         (if pos \<ge> length payload then Ok None
          else obind (val_skipLimits payload (pos + 1)) (\<lambda>r. case r of None \<Rightarrow> Ok None
            | Some q \<Rightarrow> Ok (Some (q, False))))
       else if kind = 2 then
         obind (val_skipLimits payload pos) (\<lambda>r. case r of None \<Rightarrow> Ok None
           | Some q \<Rightarrow> Ok (Some (q, False)))
       else if kind = 3 then
         (if pos + 2 > length payload then Ok None else Ok (Some (pos + 2, False)))
       else Ok None)))"

primrec countFunctionImports_loop :: "nat \<Rightarrow> bytes \<Rightarrow> nat \<Rightarrow> u32 \<Rightarrow> u32 option may_panic" where
  "countFunctionImports_loop 0 payload pos fi = Ok (Some fi)"
| "countFunctionImports_loop (Suc k) payload pos fi =
     obind (val_importEntry payload pos) (\<lambda>r. case r of None \<Rightarrow> Ok None
     | Some (q, isf) \<Rightarrow> countFunctionImports_loop k payload q (if isf then fi + 1 else fi))"

definition countFunctionImports :: "bytes \<Rightarrow> u32 option may_panic" where
  "countFunctionImports payload =
     obind (readULEB32 payload 0) (\<lambda>r. case r of None \<Rightarrow> Ok None
     | Some (count, n) \<Rightarrow> countFunctionImports_loop (unat count) payload n 0)"

primrec countCodeEntries_loop :: "nat \<Rightarrow> bytes \<Rightarrow> nat \<Rightarrow> bool may_panic" where
  "countCodeEntries_loop 0 payload pos = Ok True"
| "countCodeEntries_loop (Suc k) payload pos =
     obind (readULEB32 payload pos) (\<lambda>r. case r of None \<Rightarrow> Ok False
     | Some (bodySize, n) \<Rightarrow>
         if pos + n + unat bodySize > length payload then Ok False
         else countCodeEntries_loop k payload (pos + n + unat bodySize))"

definition countCodeEntries :: "bytes \<Rightarrow> u32 option may_panic" where
  "countCodeEntries payload =
     obind (readULEB32 payload 0) (\<lambda>r. case r of None \<Rightarrow> Ok None
     | Some (count, n) \<Rightarrow>
         obind (countCodeEntries_loop (unat count) payload n) (\<lambda>ok.
           Ok (if ok then Some count else None)))"

section \<open>The checks of \<open>Validate\<close>\<close>

definition raise_limit :: "string \<Rightarrow> string \<Rightarrow> string" where
  "raise_limit what limit = what @ '' or raise the configured '' @ limit @ '' limit''"

text \<open>
  \<open>validateFunctionIndices\<close>, in its three parts: the import section, the function section and the
  code section are counted first (\<open>Inl\<close> of the issue stops the check), then the counts are compared.
\<close>

definition import_count :: "bytes \<Rightarrow> wsection list \<Rightarrow> (issue + u32) may_panic" where
  "import_count data secs =
     (case val_findSection secs 2 of None \<Rightarrow> Ok (Inr 0)
      | Some s \<Rightarrow> obind (payload_of data s) (\<lambda>payload. obind (countFunctionImports payload) (\<lambda>r.
          case r of Some n \<Rightarrow> Ok (Inr n)
          | None \<Rightarrow> Ok (Inl (mk_issue ''import_section'' ClassStructural
              ''malformed import section'' hint_compiled)))))"

definition function_count :: "bytes \<Rightarrow> wsection list \<Rightarrow> (issue + u32 option) may_panic" where
  "function_count data secs =
     (case val_findSection secs 3 of None \<Rightarrow> Ok (Inr None)
      | Some s \<Rightarrow> obind (payload_of data s) (\<lambda>payload. obind (readULEB32 payload 0) (\<lambda>r.
          case r of Some (n, _) \<Rightarrow> Ok (Inr (Some n))
          | None \<Rightarrow> Ok (Inl (mk_issue ''function_section'' ClassStructural
              ''malformed function section'' hint_compiled)))))"

definition code_count :: "bytes \<Rightarrow> wsection list \<Rightarrow> (issue + u32 option) may_panic" where
  "code_count data secs =
     (case val_findSection secs 10 of None \<Rightarrow> Ok (Inr None)
      | Some s \<Rightarrow> obind (payload_of data s) (\<lambda>payload. obind (countCodeEntries payload) (\<lambda>r.
          case r of Some n \<Rightarrow> Ok (Inr (Some n))
          | None \<Rightarrow> Ok (Inl (mk_issue ''code_section'' ClassStructural
              ''malformed code section: a function body size is out of bounds'' hint_compiled)))))"

definition validateFunctionIndices ::
  "bytes \<Rightarrow> wsection list \<Rightarrow> limits \<Rightarrow> issue list \<Rightarrow> issue list may_panic" where
  "validateFunctionIndices data secs lim iss =
     obind (import_count data secs) (\<lambda>i. case i of Inl e \<Rightarrow> Ok (iss @ [e]) | Inr funcImports \<Rightarrow>
     obind (function_count data secs) (\<lambda>f. case f of Inl e \<Rightarrow> Ok (iss @ [e]) | Inr func \<Rightarrow>
     obind (code_count data secs) (\<lambda>c. case c of Inl e \<Rightarrow> Ok (iss @ [e]) | Inr code \<Rightarrow>
       let declared = (case func of None \<Rightarrow> 0 | Some n \<Rightarrow> n);
           entries = (case code of None \<Rightarrow> 0 | Some n \<Rightarrow> n);
           tot = funcImports + declared in
       if func \<noteq> None \<and> code \<noteq> None \<and> declared \<noteq> entries then
         Ok (iss @ [mk_issue ''function_index'' ClassStructural
           (''function section declares '' @ fmt_u32 declared @
            '' functions but code section has '' @ fmt_u32 entries @ '' bodies'') hint_compiled])
       else if MaxFunctionCount lim > 0 \<and> tot > word_of_int (MaxFunctionCount lim) then
         Ok (iss @ [mk_issue ''function_count'' ClassPolicy
           (''module declares '' @ fmt_u32 tot @ '' functions, exceeds configured limit '' @
            fmt_int (MaxFunctionCount lim))
           (raise_limit ''reduce function count'' ''function-count'')])
       else Ok iss)))"

text \<open>\<open>validateDebugSections\<close>: the loop over the section table, \<open>i\<close> the index of the next section.\<close>

definition debug_issue ::
  "bytes \<Rightarrow> limits \<Rightarrow> nat \<Rightarrow> wsection \<Rightarrow> issue list \<Rightarrow> issue list may_panic" where
  "debug_issue data lim i s iss =
     (if ID s \<noteq> 0 then Ok iss
      else obind (payload_of data s) (\<lambda>content.
        obind (readULEB32 content 0) (\<lambda>r. case r of None \<Rightarrow> Ok iss | Some (nameLen, n) \<Rightarrow>
          if n + unat nameLen > length content then Ok iss
          else obind (gslice content n (n + unat nameLen)) (\<lambda>nm.
            let name = str_of_bytes nm;
                payloadSize = length content - n - unat nameLen in
            if \<not> prefix ''.debug'' name then Ok iss
            else if MaxDebugSectionSize lim > 0 \<and> int payloadSize > MaxDebugSectionSize lim then
              Ok (iss @ [mk_issue (''section['' @ fmt_nat i @ ''].debug('' @ name @ '')'') ClassPolicy
                (name @ '' is '' @ fmt_nat payloadSize @
                 '' bytes, exceeds configured debug-section limit '' @
                 fmt_int (MaxDebugSectionSize lim) @ '' bytes'')
                (raise_limit ''strip debug info'' ''debug-section size'')])
            else Ok iss))))"

fun validateDebugSections ::
  "bytes \<Rightarrow> limits \<Rightarrow> nat \<Rightarrow> wsection list \<Rightarrow> issue list \<Rightarrow> issue list may_panic" where
  "validateDebugSections data lim i [] iss = Ok iss"
| "validateDebugSections data lim i (s # secs) iss =
     obind (debug_issue data lim i s iss) (validateDebugSections data lim (Suc i) secs)"

text \<open>
  The local declarations of one body: \<open>k\<close> entries left, \<open>localPos\<close> the next one, \<open>total\<close> the
  32-bit sum so far. \<open>True\<close> when the limit was found exceeded, with the sum at that point.
\<close>

primrec locals_loop ::
  "nat \<Rightarrow> bytes \<Rightarrow> limits \<Rightarrow> nat \<Rightarrow> nat \<Rightarrow> u32 \<Rightarrow> (bool \<times> u32) may_panic" where
  "locals_loop 0 payload lim localPos bodyEnd tot = Ok (False, tot)"
| "locals_loop (Suc k) payload lim localPos bodyEnd tot =
     (if localPos \<ge> bodyEnd then Ok (False, tot)
      else obind (readULEB32 payload localPos) (\<lambda>r. case r of None \<Rightarrow> Ok (False, tot)
      | Some (count, n3) \<Rightarrow>
          if localPos + n3 \<ge> bodyEnd then Ok (False, tot)
          else let tot' = tot + count in
            if MaxLocalsPerFunction lim > 0 \<and> uint tot' > MaxLocalsPerFunction lim then
              Ok (True, tot')
            else locals_loop k payload lim (localPos + n3 + 1) bodyEnd tot'))"

definition body_locals ::
  "bytes \<Rightarrow> limits \<Rightarrow> nat \<Rightarrow> nat \<Rightarrow> nat \<Rightarrow> issue list \<Rightarrow> issue list may_panic" where
  "body_locals payload lim i bodyStart bodyEnd iss =
     obind (readULEB32 payload bodyStart) (\<lambda>r. case r of None \<Rightarrow> Ok iss
     | Some (localVecCount, n2) \<Rightarrow>
         obind (locals_loop (unat localVecCount) payload lim (bodyStart + n2) bodyEnd 0)
           (\<lambda>(over, tot).
             if over then
               Ok (iss @ [mk_issue (''function['' @ fmt_nat i @ ''].locals'') ClassPolicy
                 (''function body '' @ fmt_nat i @ '' declares '' @ fmt_u32 tot @
                  '' or more locals, exceeds configured limit '' @ fmt_int (MaxLocalsPerFunction lim))
                 (raise_limit ''reduce local variable count'' ''local-count'')])
             else Ok iss))"

text \<open>The loop over the function bodies: body \<open>i\<close> of \<open>funcCount\<close> is next, \<open>k\<close> bodies are left.\<close>

primrec bodies_loop ::
  "nat \<Rightarrow> bytes \<Rightarrow> limits \<Rightarrow> (nat \<Rightarrow> bool) \<Rightarrow> u32 \<Rightarrow> nat \<Rightarrow> nat \<Rightarrow> issue list \<Rightarrow> issue list may_panic"
where
  "bodies_loop 0 payload lim expired funcCount i pos iss = Ok iss"
| "bodies_loop (Suc k) payload lim expired funcCount i pos iss =
     (if MaxValidationTimeMS lim > 0 \<and> expired i then
        Ok (iss @ [mk_issue ''validation_time'' ClassPolicy
          (''validation exceeded configured time limit; stopped after checking '' @ fmt_nat i @
           ''/'' @ fmt_u32 funcCount @ '' function bodies for locals'')
          ''raise the configured validation time limit or reduce module complexity''])
      else obind (readULEB32 payload pos) (\<lambda>r. case r of None \<Rightarrow> Ok iss
      | Some (bodySize, n) \<Rightarrow>
          if pos + n + unat bodySize > length payload then Ok iss
          else let bodyStart = pos + n; bodyEnd = bodyStart + unat bodySize in
            obind (body_locals payload lim i bodyStart bodyEnd iss)
              (bodies_loop k payload lim expired funcCount (Suc i) bodyEnd)))"

definition validateLocalsPerFunction ::
  "bytes \<Rightarrow> wsection list \<Rightarrow> limits \<Rightarrow> (nat \<Rightarrow> bool) \<Rightarrow> issue list \<Rightarrow> issue list may_panic" where
  "validateLocalsPerFunction data secs lim expired iss =
     (if MaxLocalsPerFunction lim \<le> 0 then Ok iss
      else case val_findSection secs 10 of None \<Rightarrow> Ok iss
      | Some s \<Rightarrow> obind (payload_of data s) (\<lambda>payload.
          obind (readULEB32 payload 0) (\<lambda>r. case r of None \<Rightarrow> Ok iss
          | Some (funcCount, n) \<Rightarrow>
              bodies_loop (unat funcCount) payload lim expired funcCount 0 n iss)))"

definition validateDataSegments ::
  "bytes \<Rightarrow> wsection list \<Rightarrow> limits \<Rightarrow> issue list \<Rightarrow> issue list may_panic" where
  "validateDataSegments data secs lim iss =
     (if MaxDataSegments lim \<le> 0 then Ok iss
      else case val_findSection secs 11 of None \<Rightarrow> Ok iss
      | Some s \<Rightarrow> obind (payload_of data s) (\<lambda>payload.
          obind (readULEB32 payload 0) (\<lambda>r. case r of
            None \<Rightarrow> Ok (iss @ [mk_issue ''data_section'' ClassStructural
              ''malformed data section: cannot read segment count'' hint_compiled])
          | Some (segCount, _) \<Rightarrow>
              if uint segCount > MaxDataSegments lim then
                Ok (iss @ [mk_issue ''data_segment_count'' ClassPolicy
                  (''module declares '' @ fmt_u32 segCount @
                   '' data segments, exceeds configured limit '' @ fmt_int (MaxDataSegments lim))
                  (raise_limit ''reduce the number of data segments'' ''data-segment'')])
              else Ok iss)))"

definition finish :: "bytes \<Rightarrow> wsection list \<Rightarrow> issue list \<Rightarrow> report" where
  "finish data secs iss = \<lparr>OK = (iss = []), Issues = iss, ModuleSize = length data,
     SectionCount = length secs, Sections_of = secs\<rparr>"

definition Validate :: "bytes \<Rightarrow> limits \<Rightarrow> (nat \<Rightarrow> bool) \<Rightarrow> report may_panic" where
  "Validate data lim expired =
     (if MaxModuleSize lim > 0 \<and> int (length data) > MaxModuleSize lim then
        Ok (finish data [] [mk_issue ''module_size'' ClassPolicy
          (''module size '' @ fmt_nat (length data) @ '' bytes exceeds configured limit '' @
           fmt_int (MaxModuleSize lim) @ '' bytes'')
          (raise_limit ''reduce module size'' ''WASM size'')])
      else obind (Sections data lim) (\<lambda>(secs, iss).
        if \<exists>i \<in> set iss. Class i = ClassStructural then Ok (finish data secs iss)
        else obind (validateFunctionIndices data secs lim iss) (\<lambda>iss.
             obind (validateDebugSections data lim 0 secs iss) (\<lambda>iss.
             obind (validateLocalsPerFunction data secs lim expired iss) (\<lambda>iss.
             obind (validateDataSegments data secs lim iss) (\<lambda>iss.
               Ok (finish data secs iss)))))))"

section \<open>The section table\<close>

definition header_ok :: "bytes \<Rightarrow> bool" where
  "header_ok data \<longleftrightarrow> 8 \<le> length data \<and> data ! 0 = 0x00 \<and> data ! 1 = 0x61 \<and> data ! 2 = 0x73 \<and>
     data ! 3 = 0x6d \<and> (le_uint32 (take 4 (drop 4 data)) :: u32 may_panic) = Ok 1"

fun tiles :: "nat \<Rightarrow> wsection list \<Rightarrow> nat \<Rightarrow> bool" where
  "tiles p [] q = (p = q)"
| "tiles p (s # ss) q = (Offset s = p \<and> tiles (PayloadOffset s + Size s) ss q)"

lemma tiles_append: "tiles p (xs @ ys) q \<longleftrightarrow> (\<exists>m. tiles p xs m \<and> tiles m ys q)"
  by (induction xs arbitrary: p) auto

lemma returns_le_uint32 [nopanic]: "length b = 4 \<Longrightarrow> returns (le_uint32 b)"
  by (simp add: le_uint32_def)

lemma returns_checkHeader [simp, nopanic]: "returns (checkHeader data iss)"
  unfolding checkHeader_def by (auto intro!: nopanic)

lemma returns_nextSection [nopanic]: "pos < length data \<Longrightarrow> returns (nextSection data lim k pos)"
  unfolding nextSection_def by (auto intro!: nopanic)

lemma returns_walkSections_loop: "returns (walkSections_loop data lim pos secs iss)"
proof (induction data lim pos secs iss rule: walkSections_loop.induct)
  case (1 data lim pos secs iss)
  then show ?case
    by (subst walkSections_loop.simps) (auto intro!: nopanic)
qed

lemma returns_Sections [simp, nopanic]: "returns (Sections data lim)"
  unfolding Sections_def walkSections_def by (auto intro!: nopanic returns_walkSections_loop)

lemma walkSections_loop_tiles:
  assumes "walkSections_loop data lim pos secs iss = Ok (secs', iss')"
    and "tiles p0 secs pos" and "\<forall>s \<in> set secs. section_at data s" and "pos \<le> length data"
  shows "\<exists>q more. tiles p0 secs' q \<and> q \<le> length data \<and> (\<forall>s \<in> set secs'. section_at data s) \<and>
    iss' = iss @ more \<and> (more = [] \<longrightarrow> q = length data)"
  using assms
proof (induction data lim pos secs iss rule: walkSections_loop.induct)
  case (1 data lim pos secs iss)
  show ?case
  proof (cases "pos < length data")
    case False
    with 1(2-5) show ?thesis by (subst (asm) walkSections_loop.simps) auto
  next
    case True
    with 1(2) obtain r where r: "nextSection data lim (length secs) pos = Ok r"
      by (subst (asm) walkSections_loop.simps) auto
    show ?thesis
    proof (cases r)
      case (Inl e)
      with r True 1(2-5) show ?thesis by (subst (asm) walkSections_loop.simps) auto
    next
      case (Inr s)
      with r have s: "Offset s = pos" "section_at data s" by (auto dest: nextSection_Inr)
      have "walkSections_loop data lim (PayloadOffset s + Size s) (secs @ [s]) iss = Ok (secs', iss')"
        using 1(2) True r Inr by (subst (asm) walkSections_loop.simps) auto
      from 1(1) [OF True r Inr this] s 1(3-5) show ?thesis
        by (auto simp: tiles_append section_at_def)
    qed
  qed
qed

lemma le_uint32_bytes:
  "le_uint32 [b0, b1, b2, b3] = Ok (ucast b0 OR push_bit 8 (ucast b1)
     OR push_bit 16 (ucast b2) OR push_bit 24 (ucast b3))"
  by (simp add: le_uint32_def)

lemma checkHeader_Ok:
  "checkHeader data iss = Ok (ok, iss') \<Longrightarrow>
    (ok \<longleftrightarrow> header_ok data) \<and> (\<exists>more. iss' = iss @ more \<and> (ok \<longleftrightarrow> more = []))"
  unfolding checkHeader_def header_ok_def
  by (auto simp: at_idx_def le_uint32_def gslice_def split: if_splits)

lemma header_okI: "header_ok ([0x00, 0x61, 0x73, 0x6d, 0x01, 0x00, 0x00, 0x00] @ rest)"
  by (simp add: header_ok_def le_uint32_bytes)

lemma header_ok_length: "header_ok data \<Longrightarrow> 8 \<le> length data"
  by (simp add: header_ok_def)

lemma Sections_Ok:
  assumes "Sections data lim = Ok (secs, iss)"
  shows "\<forall>s \<in> set secs. section_at data s"
    and "iss = [] \<Longrightarrow> header_ok data \<and> tiles 8 secs (length data)"
    and "header_ok data \<Longrightarrow> \<exists>q \<le> length data. tiles 8 secs q"
proof -
  from assms obtain ok iss0 where c: "checkHeader data [] = Ok (ok, iss0)"
    and w: "(if \<not> ok then Ok ([], iss0) else walkSections data lim iss0) = Ok (secs, iss)"
    by (auto simp: Sections_def)
  have iss0: "ok \<longleftrightarrow> header_ok data" "ok \<longleftrightarrow> iss0 = []"
    using checkHeader_Ok [OF c] by auto
  have walk: "\<exists>q more. tiles 8 secs q \<and> q \<le> length data \<and> (\<forall>s \<in> set secs. section_at data s) \<and>
      iss = iss0 @ more \<and> (more = [] \<longrightarrow> q = length data)" if ok
    using w that iss0 header_ok_length walkSections_loop_tiles [of data lim 8 "[]" iss0 secs iss 8]
    by (simp add: walkSections_def)
  show "\<forall>s \<in> set secs. section_at data s"
    using w walk by (cases ok) auto
  show "header_ok data \<and> tiles 8 secs (length data)" if "iss = []"
    using that w walk iss0 by (cases ok) auto
  show "\<exists>q \<le> length data. tiles 8 secs q" if "header_ok data"
    using that walk iss0 by auto
qed

lemma returns_payload_of [nopanic]: "section_at data s \<Longrightarrow> returns (payload_of data s)"
  by (simp add: payload_of_def section_at_def gslice_def)

lemma findSection_in: "val_findSection secs i = Some s \<Longrightarrow> s \<in> set secs \<and> ID s = i"
  unfolding val_findSection_def by (auto simp: find_Some_iff)

section \<open>The checks never panic\<close>

lemma returns_val_skipString [simp, nopanic]: "returns (val_skipString data pos)"
  unfolding val_skipString_def by (auto intro!: nopanic)

lemma returns_val_skipLimits [simp, nopanic]: "returns (val_skipLimits data pos)"
  unfolding val_skipLimits_def by (auto intro!: nopanic)

lemma returns_val_importEntry [simp, nopanic]: "returns (val_importEntry payload pos)"
  unfolding val_importEntry_def Let_def by (auto intro!: nopanic)

lemma returns_countFunctionImports [simp, nopanic]: "returns (countFunctionImports payload)"
proof -
  have "returns (countFunctionImports_loop k payload pos fi)" for k pos fi
    by (induction k arbitrary: pos fi) (auto intro!: nopanic)
  then show ?thesis unfolding countFunctionImports_def by (auto intro!: nopanic)
qed

lemma returns_countCodeEntries [simp, nopanic]: "returns (countCodeEntries payload)"
proof -
  have "returns (countCodeEntries_loop k payload pos)" for k pos
    by (induction k arbitrary: pos) (auto intro!: nopanic)
  then show ?thesis unfolding countCodeEntries_def by (auto intro!: nopanic)
qed

lemma returns_validateFunctionIndices:
  assumes "\<forall>s \<in> set secs. section_at data s"
  shows "returns (validateFunctionIndices data secs lim iss)"
proof -
  have p: "returns (payload_of data s)" if "val_findSection secs i = Some s" for i s
    using assms findSection_in [OF that] by (auto intro: nopanic)
  show ?thesis
    unfolding validateFunctionIndices_def import_count_def function_count_def code_count_def Let_def
    by (auto intro!: nopanic p)
qed

lemma returns_validateDebugSections:
  "\<forall>s \<in> set secs. section_at data s \<Longrightarrow> returns (validateDebugSections data lim i secs iss)"
  by (induction data lim i secs iss rule: validateDebugSections.induct)
    (auto intro!: nopanic simp: debug_issue_def Let_def)

lemma returns_locals_loop [nopanic]: "returns (locals_loop k payload lim lp be tot)"
  by (induction k arbitrary: lp tot) (auto intro!: nopanic simp: Let_def)

lemma returns_bodies_loop [nopanic]: "returns (bodies_loop k payload lim expired fc i pos iss)"
  by (induction k arbitrary: i pos iss) (auto intro!: nopanic simp: body_locals_def Let_def)

lemma returns_validateLocalsPerFunction:
  assumes "\<forall>s \<in> set secs. section_at data s"
  shows "returns (validateLocalsPerFunction data secs lim expired iss)"
  unfolding validateLocalsPerFunction_def
  using assms by (auto intro!: nopanic dest: findSection_in)

lemma returns_validateDataSegments:
  assumes "\<forall>s \<in> set secs. section_at data s"
  shows "returns (validateDataSegments data secs lim iss)"
  unfolding validateDataSegments_def
  using assms by (auto intro!: nopanic dest: findSection_in)

text \<open>C8. Validate returns a report on every byte string, under every limits and at every time: it
  never indexes or slices out of range.\<close>

theorem Validate_returns: "returns (Validate data lim expired)"
  unfolding Validate_def
  by (auto intro!: nopanic returns_validateFunctionIndices returns_validateDebugSections
      returns_validateLocalsPerFunction returns_validateDataSegments dest: Sections_Ok)

section \<open>The local-variable limit\<close>

text \<open>The number of locals the entries of a body declare, summed without wrap-around.\<close>

primrec declared_locals :: "nat \<Rightarrow> bytes \<Rightarrow> nat \<Rightarrow> nat \<Rightarrow> nat" where
  "declared_locals 0 payload lp be = 0"
| "declared_locals (Suc k) payload lp be =
     (if lp \<ge> be then 0
      else case readU32 payload lp of
        Ok (c, n) \<Rightarrow> if lp + n \<ge> be then 0 else unat c + declared_locals k payload (lp + n + 1) be
      | _ \<Rightarrow> 0)"

lemma locals_loop_exact:
  assumes "MaxLocalsPerFunction lim > 0" and "int (unat tot) \<le> MaxLocalsPerFunction lim"
    and "unat tot + declared_locals k payload lp be < 2 ^ 32"
  shows "\<exists>t. locals_loop k payload lim lp be tot =
    Ok (MaxLocalsPerFunction lim < int (unat tot + declared_locals k payload lp be), t)"
  using assms(2,3)
proof (induction k arbitrary: lp tot)
  case 0
  then show ?case by simp
next
  case (Suc k)
  show ?case
  proof (cases "readU32 payload lp")
    case (Ok r)
    obtain c n where r: "r = (c, n)" by (cases r)
    show ?thesis
    proof (cases "lp \<ge> be \<or> lp + n \<ge> be")
      case True
      with Ok r Suc.prems show ?thesis by (auto simp: readULEB32_readU32)
    next
      case False
      let ?rest = "declared_locals k payload (lp + n + 1) be"
      have sum: "unat tot + (unat c + ?rest) < 2 ^ 32"
        using Suc.prems(2) False Ok r by simp
      then have add: "unat (tot + c) = unat tot + unat c"
        by (simp add: unat_word_ariths)
      then have "int (unat (tot + c)) = int (unat tot) + int (unat c)" by simp
      then have addi: "uint (tot + c) = uint tot + uint c" by simp
      show ?thesis
      proof (cases "uint (tot + c) > MaxLocalsPerFunction lim")
        case True
        with False Ok r addi assms(1) show ?thesis by (auto simp: readULEB32_readU32 Let_def)
      next
        case small: False
        have "\<exists>t. locals_loop k payload lim (lp + n + 1) be (tot + c) =
            Ok (MaxLocalsPerFunction lim < int (unat (tot + c) + ?rest), t)"
          using Suc.IH [of "tot + c" "lp + n + 1"] small sum add addi by simp
        then show ?thesis using False Ok r addi small
          by (auto simp: readULEB32_readU32 Let_def add.assoc)
      qed
    qed
  qed (use Suc.prems in \<open>auto simp: readULEB32_readU32\<close>)
qed

text \<open>The check of the locals of a function body reports an issue exactly when the body
  declares more locals than the limit, as long as the declared numbers add up to less than 2^32.\<close>

theorem body_locals_exact:
  assumes "MaxLocalsPerFunction lim > 0"
    and "readU32 payload bodyStart = Ok (cnt, n)"
    and "declared_locals (unat cnt) payload (bodyStart + n) bodyEnd < 2 ^ 32"
  shows "\<exists>x. body_locals payload lim i bodyStart bodyEnd iss =
    Ok (if MaxLocalsPerFunction lim < int (declared_locals (unat cnt) payload (bodyStart + n) bodyEnd)
        then iss @ [x] else iss)"
proof -
  obtain t where "locals_loop (unat cnt) payload lim (bodyStart + n) bodyEnd 0 =
      Ok (MaxLocalsPerFunction lim < int (declared_locals (unat cnt) payload (bodyStart + n) bodyEnd), t)"
    using locals_loop_exact [of lim 0 "unat cnt" payload "bodyStart + n" bodyEnd] assms(1,3) by auto
  with assms(2) show ?thesis by (auto simp: body_locals_def readULEB32_readU32)
qed

lemma body_locals_exact_witness:
  "\<exists>x. body_locals [1, 3, 0x7f, 0x0b] DefaultLimits 0 0 4 [] =
    Ok (if MaxLocalsPerFunction DefaultLimits <
        int (declared_locals (unat (1 :: u32)) [1, 3, 0x7f, 0x0b] (0 + 1) 4) then [] @ [x] else [])"
proof (rule body_locals_exact)
  show "MaxLocalsPerFunction DefaultLimits > 0" by (simp add: DefaultLimits_def)
  show "readU32 [1, 3, 0x7f, 0x0b] 0 = Ok (1, 1)" by code_simp
  have "readU32 [1, 3, 0x7f, 0x0b] 1 = Ok (3, 1)" by code_simp
  then show "declared_locals (unat (1 :: u32)) [1, 3, 0x7f, 0x0b] (0 + 1) 4 < 2 ^ 32"
    by simp
qed

text \<open>C9. When Sections reports no issue, the header is the one of WASM version 1 and the sections
  found lie one after the other from byte 8 to the end of the module, each with the id and the
  size its header states.\<close>

theorem Sections_tile:
  assumes "Sections data lim = Ok (secs, [])"
  shows "header_ok data \<and> tiles 8 secs (length data) \<and> list_all (section_at data) secs"
  using Sections_Ok [OF assms] by (simp add: list_all_iff)

lemma Sections_tile_witness:
  "header_ok [0x00, 0x61, 0x73, 0x6d, 0x01, 0x00, 0x00, 0x00, 0, 1, 42] \<and>
    tiles 8 [\<lparr>ID = 0, Offset = 8, PayloadOffset = 10, Size = 1\<rparr>]
      (length [0x00, 0x61, 0x73, 0x6d, 0x01, 0x00, 0x00, 0x00, 0, 1, 42 :: u8]) \<and>
    list_all (section_at [0x00, 0x61, 0x73, 0x6d, 0x01, 0x00, 0x00, 0x00, 0, 1, 42])
      [\<lparr>ID = 0, Offset = 8, PayloadOffset = 10, Size = 1\<rparr>]"
  by (rule Sections_tile [of _ DefaultLimits]) code_simp

section \<open>The limits wrap around\<close>

text \<open>
  A module with one function whose body declares \<open>1\<close> local and then \<open>2 ^ 32 - 1\<close> more: the sum of
  the source is 32 bits wide and wraps to 0.
\<close>

definition wrapping_locals_module :: bytes where
  "wrapping_locals_module =
     [0x00, 0x61, 0x73, 0x6d, 0x01, 0x00, 0x00, 0x00,
      3, 2, 1, 0,
      10, 12, 1, 10, 2, 1, 0x7f, 0xff, 0xff, 0xff, 0xff, 0x0f, 0x7f, 0x0b]"

lemma wrapping_locals_steps:
  defines "s3 \<equiv> \<lparr>ID = 3, Offset = 8, PayloadOffset = 10, Size = 2\<rparr>"
    and "s10 \<equiv> \<lparr>ID = 10, Offset = 12, PayloadOffset = 14, Size = 12\<rparr>"
  shows "Sections wrapping_locals_module DefaultLimits = Ok ([s3, s10], [])"
    and "validateFunctionIndices wrapping_locals_module [s3, s10] DefaultLimits [] = Ok []"
    and "validateDebugSections wrapping_locals_module DefaultLimits 0 [s3, s10] [] = Ok []"
    and "validateLocalsPerFunction wrapping_locals_module [s3, s10] DefaultLimits (\<lambda>_. False) [] = Ok []"
    and "validateDataSegments wrapping_locals_module [s3, s10] DefaultLimits [] = Ok []"
    and "\<not> int (length wrapping_locals_module) > MaxModuleSize DefaultLimits"
  unfolding s3_def s10_def
  by code_simp+

text \<open>A module that declares 2^32 locals in a function passes the default limit of 50000: the
  32-bit sum of the declared numbers wraps around.\<close>

theorem locals_limit_wraps:
  "\<exists>r. Validate wrapping_locals_module DefaultLimits (\<lambda>_. False) = Ok r \<and> OK r \<and>
     declared_locals 2 (drop 14 wrapping_locals_module) 3 12 = 2 ^ 32"
proof -
  have "declared_locals 2 (drop 14 wrapping_locals_module) 3 12 = 2 ^ 32"
  proof -
    have "readU32 (drop 14 wrapping_locals_module) 3 = Ok (1, 1)"
      and "readU32 (drop 14 wrapping_locals_module) 5 = Ok (0xffffffff, 5)" by code_simp+
    then have "declared_locals (Suc (Suc 0)) (drop 14 wrapping_locals_module) 3 12 = 4294967296"
      by simp
    then show ?thesis by (simp flip: numeral_2_eq_2)
  qed
  then show ?thesis
    by (simp add: Validate_def wrapping_locals_steps finish_def
        del: validateDebugSections.simps)
qed

end
