(* ===== verification/OptRewrite.thy ===== *)
theory OptRewrite
  imports Leb128
begin

unbundle bit_operations_syntax

text \<open>
  internal/wasmopt/dce.go, the instruction level: skipping the immediates of an opcode and
  rewriting the function indices of an instruction sequence (\<open>rewriteExpr\<close>) and of a function
  body (\<open>rewriteCodeBody\<close>). A remap, \<open>func(uint32) (uint32, bool)\<close> in Go, is a partial map.
  The lemmas show that rewriting copies every instruction but for the function indices it
  replaces, that the result reads back with exactly the mapped indices, and that rewriting twice
  is rewriting with the composed map.
\<close>

type_synonym remap = "u32 \<Rightarrow> u32 option"

section \<open>Skipping\<close>

text \<open>\<open>_, n, err = readU32(data, pos); pos += n\<close>, as it recurs in the source.\<close>

definition skipU32 :: "bytes \<Rightarrow> nat \<Rightarrow> (opt_error, nat) outcome" where
  "skipU32 data pos = obind (readU32 data pos) (\<lambda>(_, n). Ok (pos + n))"

primrec skipU32s :: "nat \<Rightarrow> bytes \<Rightarrow> nat \<Rightarrow> (opt_error, nat) outcome" where
  "skipU32s 0 data pos = Ok pos"
| "skipU32s (Suc k) data pos = obind (skipU32 data pos) (skipU32s k data)"

definition opt_skipName :: "bytes \<Rightarrow> nat \<Rightarrow> (opt_error, nat) outcome" where
  "opt_skipName data pos = obind (readU32 data pos) (\<lambda>(l, n).
     if pos + n + unat l > length data then Err NameOutOfBounds else Ok (pos + n + unat l))"

definition skipBlockType :: "bytes \<Rightarrow> nat \<Rightarrow> (opt_error, nat) outcome" where
  "skipBlockType data pos =
     (if pos \<ge> length data then Err BlockTypeTruncated
      else obind (at_idx data pos) (\<lambda>b.
        if b \<in> set [0x40, 0x7f, 0x7e, 0x7d, 0x7c, 0x7b, 0x70, 0x6f] then Ok (pos + 1)
        else obind (readSLEB33 data pos) (\<lambda>(_, n). Ok (pos + n))))"

definition isNoImmediateOpcode :: "u8 \<Rightarrow> bool" where
  "isNoImmediateOpcode op \<longleftrightarrow>
     op \<in> set [0x00, 0x01, 0x05, 0x0b, 0x0f, 0x1a, 0x1b, 0x1d, 0x1e, 0x1f, 0xd1] \<or>
     (op \<ge> 0x45 \<and> op \<le> 0xc4)"

text \<open>The sub-opcodes of the prefix \<open>0xfc\<close>.\<close>

definition skipFc :: "u32 \<Rightarrow> bytes \<Rightarrow> nat \<Rightarrow> (opt_error, nat) outcome" where
  "skipFc sub expr pos =
     (if sub \<in> set [0, 1, 2, 3, 4, 5, 6, 7] then Ok pos
      else if sub \<in> set [8, 10, 12, 14] then obind (skipU32 expr pos) (skipU32 expr)
      else if sub \<in> set [9, 11, 13, 15, 16, 17] then skipU32 expr pos
      else Err (UnsupportedFcSubopcode sub))"

text \<open>
  The cases of the opcode switch of \<open>rewriteExpr\<close> that copy their immediates: the position after
  the immediates of \<open>op\<close>, which start at \<open>pos\<close>. In the case \<open>br_table\<close> the source counts up to
  \<open>count + 1\<close> in 32 bits, so that the largest count reads no label at all.
\<close>

definition skipImmediate :: "u8 \<Rightarrow> bytes \<Rightarrow> nat \<Rightarrow> (opt_error, nat) outcome" where
  "skipImmediate op expr pos =
     (if op \<in> set [0x02, 0x03, 0x04] then skipBlockType expr pos
      else if op \<in> set [0x0c, 0x0d, 0x20, 0x21, 0x22, 0x23, 0x24, 0x25, 0x26] then skipU32 expr pos
      else if op = 0x0e then
        obind (readU32 expr pos) (\<lambda>(count, n). skipU32s (unat (count + 1)) expr (pos + n))
      else if op \<in> set [0x11, 0x13] then obind (skipU32 expr pos) (skipU32 expr)
      else if op = 0x1c then
        obind (readU32 expr pos) (\<lambda>(c, n).
          if pos + n + unat c > length expr then Err SelectVectorOutOfBounds
          else Ok (pos + n + unat c))
      else if op \<ge> 0x28 \<and> op \<le> 0x3e then obind (skipU32 expr pos) (skipU32 expr)
      else if op \<in> set [0x3f, 0x40] then skipU32 expr pos
      else if op = 0x41 then obind (readSLEB32 expr pos) (\<lambda>(_, n). Ok (pos + n))
      else if op = 0x42 then obind (readSLEB64 expr pos) (\<lambda>(_, n). Ok (pos + n))
      else if op = 0x43 then (if pos + 4 > length expr then Err F32ConstTruncated else Ok (pos + 4))
      else if op = 0x44 then (if pos + 8 > length expr then Err F64ConstTruncated else Ok (pos + 8))
      else if op = 0xd0 then (if pos \<ge> length expr then Err RefNullTruncated else Ok (pos + 1))
      else if op = 0xfc then obind (readU32 expr pos) (\<lambda>(sub, n). skipFc sub expr (pos + n))
      else if op = 0xfd then Err UnsupportedSimd
      else if op = 0xfe then Err UnsupportedAtomic
      else if isNoImmediateOpcode op then Ok pos
      else Err (UnsupportedOpcode op))"

section \<open>Every immediate is skipped by a skipper\<close>

text \<open>Reading a value and going on in a way that depends on it.\<close>

lemma skipper_read:
  assumes rd_ret: "\<And>e p. returns (rd e p)"
    and rd_ok: "\<And>e p v n. rd e p = Ok (v, n) \<Longrightarrow> p + n \<le> length e"
    and rd_win: "\<And>e p v n e' p'. rd e p = Ok (v, n) \<Longrightarrow> same_at e p e' p' n \<Longrightarrow> rd e' p' = Ok (v, n)"
    and t: "\<And>v. skipper (t v)"
  shows "skipper (\<lambda>e p. obind (rd e p) (\<lambda>(v, n). t v e (p + n)))"
proof (rule skipperI)
  fix e :: "'a list" and p assume "p \<le> length e"
  show "returns (obind (rd e p) (\<lambda>(v, n). t v e (p + n)))"
    by (auto intro!: nopanic rd_ret skipper_returns [OF t] dest: rd_ok)
next
  fix e :: "'a list" and p q
  assume "obind (rd e p) (\<lambda>(v, n). t v e (p + n)) = Ok q"
  then obtain v n where r: "rd e p = Ok (v, n)" "t v e (p + n) = Ok q" by auto
  then show "p \<le> q \<and> q \<le> length e"
    using skipper_bounds [OF t rd_ok [OF r(1)] r(2)] by simp
next
  fix e e' :: "'a list" and p q p'
  assume "obind (rd e p) (\<lambda>(v, n). t v e (p + n)) = Ok q" and w: "same_at e p e' p' (q - p)"
  then obtain v n where r: "rd e p = Ok (v, n)" "t v e (p + n) = Ok q" by auto
  note b = skipper_bounds [OF t rd_ok [OF r(1)] r(2)]
  have "rd e' p' = Ok (v, n)"
    using b by (intro rd_win [OF r(1)] same_at_take [OF w]) arith
  moreover have "same_at e (p + n) e' (p' + n) (q - (p + n))"
    using b by (intro same_at_sub [OF w]) arith
  then have "t v e' (p' + n) = Ok (p' + n + (q - (p + n)))"
    by (rule skipper_window [OF t rd_ok [OF r(1)] r(2)])
  ultimately show "obind (rd e' p') (\<lambda>(v, n). t v e' (p' + n)) = Ok (p' + (q - p))"
    using b by simp
qed

lemma skipper_readU32:
  "(\<And>v. skipper (t v)) \<Longrightarrow> skipper (\<lambda>e p. obind (readU32 e p) (\<lambda>(v, n). t v e (p + n)))"
  by (rule skipper_read) (rule returns_readU32, blast dest: readU32_Ok, blast intro: readU32_window)

lemma skipper_readSLEB: "skipper (\<lambda>e p. obind (readSLEB e p bits) (\<lambda>(_, n). Ok (p + n)))"
  by (rule skipper_read [of "\<lambda>e p. readSLEB e p bits" "\<lambda>_ e p. Ok p"])
    (rule returns_readSLEB, blast dest: readSLEB_Ok, blast intro: readSLEB_window, rule skipper_stay)

lemma skipper_skipU32 [skipper_intros]: "skipper skipU32"
  unfolding skipU32_def [abs_def] by (rule skipper_readU32) (rule skipper_stay)

lemma skipper_skipU32s [skipper_intros]: "skipper (skipU32s k)"
proof (induction k)
  case 0
  then show ?case using skipper_stay by (simp add: fun_eq_iff [symmetric])
next
  case (Suc k)
  then show ?case using skipper_seq [OF skipper_skipU32 Suc] by (simp add: skipU32s_def)
qed

lemma skipper_skipFc [skipper_intros]: "skipper (skipFc sub)"
  unfolding skipFc_def [abs_def] by (intro skipper_intros)

lemma readSLEB32_skip: "obind (readSLEB32 e p) (\<lambda>(_, n). Ok (p + n)) =
    obind (readSLEB e p 32) (\<lambda>(_, n). Ok (p + n))"
  by (simp add: readSLEB32_def obind_assoc split_def)

lemma skipper_skipBlockType [skipper_intros]: "skipper skipBlockType"
proof (rule skipperI)
  note sleb = skipper_readSLEB [of 33, folded readSLEB33_def]
  fix e :: bytes and p assume p: "p \<le> length e"
  show "returns (skipBlockType e p)"
    unfolding skipBlockType_def readSLEB33_def by (auto intro!: nopanic)
  fix q assume q: "skipBlockType e p = Ok q"
  then have in_e: "p < length e" by (auto simp: skipBlockType_def split: if_splits)
  show b: "p \<le> q \<and> q \<le> length e"
    using q in_e skipper_bounds [OF sleb p]
    by (auto simp: skipBlockType_def split: if_splits)
  fix e' :: bytes and p' assume w: "same_at e p e' p' (q - p)"
  have "p < q"
    using q in_e readSLEB_Ok [of e p 33]
    by (auto simp: skipBlockType_def readSLEB33_def split: if_splits)
  then have "e' ! p' = e ! p" "p' < length e'"
    using same_at_nth [OF w, of 0] same_at_bound [OF w] by auto
  then show "skipBlockType e' p' = Ok (p' + (q - p))"
    using q in_e skipper_window [OF sleb p _ w] by (auto simp: skipBlockType_def split: if_splits)
qed

lemma skipper_skipImmediate [skipper_intros]: "skipper (skipImmediate op)"
  unfolding skipImmediate_def [abs_def] readSLEB32_skip readSLEB64_def
  by (intro skipper_intros skipper_readSLEB
      skipper_readU32 [of "\<lambda>count e p. skipU32s (unat (count + 1)) e p"]
      skipper_readU32 [of "\<lambda>c e p. if p + unat c > length e then Err SelectVectorOutOfBounds
        else Ok (p + unat c)"]
      skipper_readU32 [of skipFc])

section \<open>Rewriting one instruction\<close>

text \<open>
  One turn of the loop of \<open>rewriteExpr\<close>, for the instruction at \<open>pos\<close>: the position after it, the
  bytes written for it and the function indices it refers to (\<open>call\<close>, \<open>return_call\<close>, \<open>ref.func\<close>).
\<close>

definition is_call :: "u8 \<Rightarrow> bool" where
  "is_call op \<longleftrightarrow> op \<in> set [0x10, 0x12, 0xd2]"

definition rewriteOp :: "bytes \<Rightarrow> remap \<Rightarrow> nat \<Rightarrow> (opt_error, nat \<times> bytes \<times> u32 list) outcome" where
  "rewriteOp expr remap pos =
     obind (at_idx expr pos) (\<lambda>op.
       if is_call op then
         obind (readU32 expr (pos + 1)) (\<lambda>(idx, n). case remap idx of
           None \<Rightarrow> Err (FunctionRemoved idx)
         | Some newIdx \<Rightarrow> Ok (pos + 1 + n, op # encodeU32 newIdx, [idx]))
       else
         obind (skipImmediate op expr (pos + 1)) (\<lambda>q.
         obind (gslice expr (pos + 1) q) (\<lambda>imm. Ok (q, op # imm, []))))"

text \<open>The two kinds of instruction \<open>rewriteOp\<close> accepts, without the remap.\<close>

definition copied_at :: "bytes \<Rightarrow> nat \<Rightarrow> nat \<Rightarrow> bool" where
  "copied_at e p q \<longleftrightarrow> p < length e \<and> \<not> is_call (e ! p) \<and> skipImmediate (e ! p) e (p + 1) = Ok q"

definition call_at :: "bytes \<Rightarrow> nat \<Rightarrow> nat \<Rightarrow> u32 \<Rightarrow> bool" where
  "call_at e p q idx \<longleftrightarrow>
     p < length e \<and> is_call (e ! p) \<and> (\<exists>n. readU32 e (p + 1) = Ok (idx, n) \<and> q = p + 1 + n)"

lemma copied_at_bounds: "copied_at e p q \<Longrightarrow> p < q \<and> q \<le> length e"
  using skipper_bounds [OF skipper_skipImmediate, of "p + 1" e "e ! p" q]
  by (auto simp: copied_at_def)

lemma call_at_bounds: "call_at e p q idx \<Longrightarrow> p < q \<and> q \<le> length e"
  by (auto simp: call_at_def dest: readU32_Ok)

lemma rewriteOp_copied:
  assumes "copied_at e p q"
  shows "rewriteOp e f p = Ok (q, take (q - p) (drop p e), [])"
proof -
  have b: "p < q" "q \<le> length e" using copied_at_bounds [OF assms] by auto
  then have "take (q - p) (drop p e) = e ! p # take (q - (p + 1)) (drop (p + 1) e)"
    by (subst Cons_nth_drop_Suc [symmetric]) (simp_all add: take_Cons')
  with assms b show ?thesis
    by (simp add: rewriteOp_def copied_at_def gslice_in)
qed

lemma rewriteOp_call:
  assumes "call_at e p q idx"
  shows "rewriteOp e f p = (case f idx of None \<Rightarrow> Err (FunctionRemoved idx)
    | Some new \<Rightarrow> Ok (q, e ! p # encodeU32 new, [idx]))"
  using assms by (auto simp: rewriteOp_def call_at_def split: option.split)

lemma rewriteOp_OkE:
  assumes "rewriteOp e f p = Ok r"
  obtains q where "copied_at e p q" and "r = (q, take (q - p) (drop p e), [])"
  | q idx new where "call_at e p q idx" and "f idx = Some new" and "r = (q, e ! p # encodeU32 new, [idx])"
proof -
  from assms have p: "p < length e" by (auto simp: rewriteOp_def)
  show thesis
  proof (cases "is_call (e ! p)")
    case True
    with assms p obtain idx n where "call_at e p (p + 1 + n) idx"
      by (auto simp: rewriteOp_def call_at_def)
    with assms show thesis
      by (auto simp: rewriteOp_call split: option.splits intro: that(2))
  next
    case False
    with assms p obtain q where "copied_at e p q"
      by (auto simp: rewriteOp_def copied_at_def)
    with assms show thesis by (auto simp: rewriteOp_copied intro: that(1))
  qed
qed

lemma rewriteOp_bounds: "rewriteOp e f p = Ok (q, ch, cs) \<Longrightarrow> p < q \<and> q \<le> length e"
  by (erule rewriteOp_OkE) (auto dest: copied_at_bounds call_at_bounds)

lemma returns_rewriteOp [nopanic]: "p < length e \<Longrightarrow> returns (rewriteOp e f p)"
  unfolding rewriteOp_def
  using skipper_bounds [OF skipper_skipImmediate, of "p + 1" e]
  by (auto intro!: nopanic skipper_returns [OF skipper_skipImmediate])

lemma copied_at_window:
  assumes c: "copied_at e p q" and w: "same_at e p e' p' (q - p)"
  shows "copied_at e' p' (p' + (q - p))"
proof -
  have b: "p < q" using copied_at_bounds [OF c] by simp
  then have "e' ! p' = e ! p" "p' < length e'"
    using same_at_nth [OF w, of 0] same_at_bound [OF w] by auto
  moreover have "same_at e (p + 1) e' (p' + 1) (q - (p + 1))"
    using b by (intro same_at_sub [OF w]) arith
  ultimately show ?thesis
    using skipper_window [OF skipper_skipImmediate, of "p + 1" e "e ! p" q e' "p' + 1"] c b
    by (simp add: copied_at_def)
qed

lemma call_at_encoded:
  assumes "is_call op" and "drop p e = op # encodeU32 idx @ rest"
  shows "call_at e p (p + 1 + length (encodeU32 idx)) idx"
proof -
  from assms(2) have "p < length e" "e ! p = op" "drop (p + 1) e = encodeU32 idx @ rest"
    by (auto dest: drop_ConsD)
  with assms(1) show ?thesis by (auto simp: call_at_def drop_readU32_encodeU32)
qed

section \<open>\<open>rewriteExpr\<close> and \<open>rewriteCodeBody\<close>\<close>

function rewriteExpr_loop ::
  "bytes \<Rightarrow> remap \<Rightarrow> nat \<Rightarrow> bytes \<Rightarrow> u32 list \<Rightarrow> (opt_error, bytes \<times> u32 list) outcome"
where
  "rewriteExpr_loop expr remap pos out calls =
     (if pos < length expr then
        obind (rewriteOp expr remap pos) (\<lambda>(q, chunk, cs).
          rewriteExpr_loop expr remap q (out @ chunk) (calls @ cs))
      else Ok (out, calls))"
  by pat_completeness auto
termination
  by (relation "measure (\<lambda>(expr, remap, pos, out, calls). length expr - pos)")
    (auto dest!: rewriteOp_bounds)

declare rewriteExpr_loop.simps [simp del]

definition rewriteExpr :: "bytes \<Rightarrow> remap \<Rightarrow> (opt_error, bytes \<times> u32 list) outcome" where
  "rewriteExpr expr remap = rewriteExpr_loop expr remap 0 [] []"

text \<open>The local declarations of a body: \<open>k\<close> of them left, the next at \<open>pos\<close>.\<close>

primrec skipLocalDecls :: "nat \<Rightarrow> bytes \<Rightarrow> nat \<Rightarrow> (opt_error, nat) outcome" where
  "skipLocalDecls 0 body pos = Ok pos"
| "skipLocalDecls (Suc k) body pos =
     obind (skipU32 body pos) (\<lambda>pos.
       if pos \<ge> length body then Err LocalDeclTruncated else skipLocalDecls k body (pos + 1))"

definition rewriteCodeBody :: "bytes \<Rightarrow> remap \<Rightarrow> (opt_error, bytes \<times> u32 list) outcome" where
  "rewriteCodeBody body remap =
     obind (readU32 body 0) (\<lambda>(localDeclCount, n).
     obind (skipLocalDecls (unat localDeclCount) body n) (\<lambda>pos.
       if pos > length body then Err InvalidLocalDecls
       else obind (gslice body 0 pos) (\<lambda>localsPrefix.
         obind (gslice body pos (length body)) (\<lambda>expr.
         obind (rewriteExpr expr remap) (\<lambda>(rewritten, calls).
           Ok (localsPrefix @ rewritten, calls))))))"

definition identityMap :: remap where
  "identityMap v = Some v"

section \<open>Rewriting never panics\<close>

lemma returns_rewriteExpr_loop: "returns (rewriteExpr_loop e f p out calls)"
proof (induction e f p out calls rule: rewriteExpr_loop.induct)
  case (1 e f p out calls)
  then show ?case by (subst rewriteExpr_loop.simps) (auto intro!: nopanic)
qed

lemma returns_rewriteExpr [simp, nopanic]: "returns (rewriteExpr e f)"
  by (simp add: rewriteExpr_def returns_rewriteExpr_loop)

lemma skipper_skipLocalDecls [skipper_intros]: "skipper (skipLocalDecls k)"
proof (induction k)
  case 0
  then show ?case using skipper_stay by (simp add: fun_eq_iff [symmetric])
next
  case (Suc k)
  have step: "skipLocalDecls (Suc k) = (\<lambda>e p. obind (skipU32 e p) (\<lambda>p.
      obind (if p \<ge> length e then Err LocalDeclTruncated else Ok (p + 1)) (skipLocalDecls k e)))"
    by (intro ext, simp, rule arg_cong [where f = "obind _"], rule ext) simp
  show ?case unfolding step
    by (rule skipper_seq [OF skipper_skipU32 skipper_seq [OF skipper_take1 Suc]])
qed

lemma returns_rewriteCodeBody [simp, nopanic]: "returns (rewriteCodeBody body f)"
  unfolding rewriteCodeBody_def
  by (auto intro!: nopanic skipper_returns [OF skipper_skipLocalDecls] dest: readU32_Ok)

section \<open>What rewriting computes\<close>

text \<open>
  The bytes written for one instruction read back as that instruction, with the mapped index; so
  the whole result reads back as the same instructions.
\<close>

lemma rewriteOp_again:
  assumes op: "rewriteOp e f p = Ok (q, ch, ds)" and d: "drop p2 e2 = ch @ X"
    and g: "\<forall>c \<in> set ds. g (the (f c)) \<noteq> None"
  shows "\<exists>ch'. rewriteOp e2 g p2 = Ok (p2 + length ch, ch', map (\<lambda>c. the (f c)) ds) \<and>
    (\<forall>h. (\<forall>c \<in> set ds. h c = g (the (f c))) \<longrightarrow> rewriteOp e h p = Ok (q, ch', ds))"
  using op
proof (cases rule: rewriteOp_OkE)
  case (1 q')
  then have b: "p < q" "q \<le> length e" and ch: "ch = take (q - p) (drop p e)"
    using copied_at_bounds [of e p q] by auto
  have len: "length ch = q - p" using b ch by simp
  have "same_at e p e2 p2 (q - p)"
  proof -
    have "ch \<noteq> []" using b len by auto
    then have "p2 < length e2" using d by (metis append_is_Nil_conv drop_eq_Nil not_le)
    moreover have "length e2 - p2 = length ch + length X" using d by (metis length_append length_drop)
    ultimately show ?thesis using b ch len d by (simp add: same_at_def)
  qed
  with 1 have "copied_at e2 p2 (p2 + (q - p))" by (auto intro: copied_at_window)
  moreover have "take (q - p) (drop p2 e2) = ch" using d len by simp
  ultimately show ?thesis using 1 len by (auto simp: rewriteOp_copied)
next
  case (2 q' idx new)
  then have "is_call (e ! p)" by (simp add: call_at_def)
  with 2 d have c2: "call_at e2 p2 (p2 + length ch) new"
    using call_at_encoded [of "e ! p" p2 e2 new X] by simp
  have "e2 ! p2 = e ! p" using d 2 by (auto dest: drop_ConsD)
  with 2 c2 g show ?thesis by (auto simp: rewriteOp_call)
qed

text \<open>
  \<open>rereads e p f X cs\<close>: \<open>X\<close> is \<open>e\<close> from \<open>p\<close> with the function indices \<open>cs\<close> mapped by \<open>f\<close>. Wherever
  \<open>X\<close> stands at the end of a byte string it is rewritten by \<open>g\<close> as \<open>e\<close> is by \<open>g \<circ> f\<close>.
\<close>

definition rereads :: "bytes \<Rightarrow> nat \<Rightarrow> remap \<Rightarrow> bytes \<Rightarrow> u32 list \<Rightarrow> bool" where
  "rereads e p f X cs \<longleftrightarrow>
     (\<forall>c \<in> set cs. f c \<noteq> None) \<and>
     (\<forall>g e2 p2 o2 c2. drop p2 e2 = X \<longrightarrow> p2 \<le> length e2 \<longrightarrow> (\<forall>c \<in> set cs. g (the (f c)) \<noteq> None) \<longrightarrow>
       (\<exists>Y. rewriteExpr_loop e2 g p2 o2 c2 = Ok (o2 @ Y, c2 @ map (\<lambda>c. the (f c)) cs) \<and>
         (\<forall>h o3 c3. (\<forall>c \<in> set cs. h c = g (the (f c))) \<longrightarrow>
           rewriteExpr_loop e h p o3 c3 = Ok (o3 @ Y, c3 @ cs))))"

lemma rereads_step:
  assumes p: "p < length e" and op: "rewriteOp e f p = Ok (q, ch, ds)" and r: "rereads e q f X cs"
  shows "rereads e p f (ch @ X) (ds @ cs)"
  unfolding rereads_def
proof (intro conjI allI impI)
  show "\<forall>c \<in> set (ds @ cs). f c \<noteq> None"
    using r op by (auto simp: rereads_def elim!: rewriteOp_OkE)
next
  fix g :: remap and e2 p2 and o2 :: bytes and c2 :: "u32 list"
  assume d: "drop p2 e2 = ch @ X" and p2: "p2 \<le> length e2"
    and g: "\<forall>c \<in> set (ds @ cs). g (the (f c)) \<noteq> None"
  let ?m = "\<lambda>c. the (f c)"
  let ?q2 = "p2 + length ch"
  have "drop (length ch) (drop p2 e2) = X" and "length (drop p2 e2) = length ch + length X"
    by (simp_all add: d)
  then have d2: "drop ?q2 e2 = X" "?q2 \<le> length e2"
    using p2 by (simp_all add: add.commute)
  obtain ch' where one: "rewriteOp e2 g p2 = Ok (?q2, ch', map ?m ds)"
    and two: "\<And>h. \<forall>c \<in> set ds. h c = g (?m c) \<Longrightarrow> rewriteOp e h p = Ok (q, ch', ds)"
    using rewriteOp_again [OF op d, of g] g by auto
  have "ch \<noteq> []" using op by (auto elim!: rewriteOp_OkE dest: copied_at_bounds)
  then have lt: "p2 < length e2" using d2 by (cases ch) auto
  have "\<forall>c \<in> set cs. g (?m c) \<noteq> None" using g by simp
  then obtain Y where
    Y1: "rewriteExpr_loop e2 g ?q2 (o2 @ ch') (c2 @ map ?m ds)
      = Ok ((o2 @ ch') @ Y, (c2 @ map ?m ds) @ map ?m cs)"
    and Y2: "\<And>h o3 c3. \<forall>c \<in> set cs. h c = g (?m c) \<Longrightarrow>
      rewriteExpr_loop e h q o3 c3 = Ok (o3 @ Y, c3 @ cs)"
    using r d2 unfolding rereads_def by blast
  show "\<exists>Y. rewriteExpr_loop e2 g p2 o2 c2 = Ok (o2 @ Y, c2 @ map ?m (ds @ cs)) \<and>
      (\<forall>h o3 c3. (\<forall>c \<in> set (ds @ cs). h c = g (?m c)) \<longrightarrow>
        rewriteExpr_loop e h p o3 c3 = Ok (o3 @ Y, c3 @ ds @ cs))"
  proof (intro exI [of _ "ch' @ Y"] conjI allI impI)
    show "rewriteExpr_loop e2 g p2 o2 c2 = Ok (o2 @ ch' @ Y, c2 @ map ?m (ds @ cs))"
      using Y1 lt one by (subst rewriteExpr_loop.simps) simp
    fix h o3 c3 assume h: "\<forall>c \<in> set (ds @ cs). h c = g (?m c)"
    then show "rewriteExpr_loop e h p o3 c3 = Ok (o3 @ ch' @ Y, c3 @ ds @ cs)"
      using p two [of h] Y2 [of h] by (subst rewriteExpr_loop.simps) simp
  qed
qed

lemma rewriteExpr_loop_rereads:
  assumes "rewriteExpr_loop e f p o1 c1 = Ok (out, calls)" and "p \<le> length e"
  shows "\<exists>X cs. out = o1 @ X \<and> calls = c1 @ cs \<and> rereads e p f X cs"
  using assms
proof (induction e f p o1 c1 rule: rewriteExpr_loop.induct)
  case (1 e f p o1 c1)
  show ?case
  proof (cases "p < length e")
    case False
    with 1(2,3) have "out = o1" "calls = c1" "p = length e"
      by (auto simp: rewriteExpr_loop.simps [of e f p])
    then show ?thesis by (auto simp: rereads_def rewriteExpr_loop.simps)
  next
    case True
    with 1(2) obtain q ch ds where op: "rewriteOp e f p = Ok (q, ch, ds)"
      and rec: "rewriteExpr_loop e f q (o1 @ ch) (c1 @ ds) = Ok (out, calls)"
      by (subst (asm) rewriteExpr_loop.simps) auto
    have q: "q \<le> length e" using rewriteOp_bounds [OF op] by auto
    from 1(1) [OF True op refl refl rec q] obtain X cs where
      "out = (o1 @ ch) @ X" "calls = (c1 @ ds) @ cs" "rereads e q f X cs" by blast
    with rereads_step [OF True op] show ?thesis by (metis append.assoc)
  qed
qed

theorem rewriteExpr_compose:
  assumes "rewriteExpr e f = Ok (out, calls)" and "\<forall>c \<in> set calls. g (the (f c)) \<noteq> None"
  shows "\<exists>out'. rewriteExpr out g = Ok (out', map (\<lambda>c. the (f c)) calls) \<and>
    rewriteExpr e (\<lambda>c. Option.bind (f c) g) = Ok (out', calls)"
proof -
  have r: "rereads e 0 f out calls"
    using rewriteExpr_loop_rereads [of e f 0 "[]" "[]"] assms(1) by (auto simp: rewriteExpr_def)
  then obtain Y where "rewriteExpr_loop out g 0 [] [] = Ok ([] @ Y, [] @ map (\<lambda>c. the (f c)) calls)"
    and "\<And>h o3 c3. \<forall>c \<in> set calls. h c = g (the (f c)) \<Longrightarrow>
      rewriteExpr_loop e h 0 o3 c3 = Ok (o3 @ Y, c3 @ calls)"
    using assms(2) unfolding rereads_def by (metis (no_types, lifting) drop0 le0)
  moreover have "\<forall>c \<in> set calls. Option.bind (f c) g = g (the (f c))"
    using r by (auto simp: rereads_def)
  ultimately show ?thesis by (auto simp: rewriteExpr_def)
qed

text \<open>Rewriting succeeds as soon as the instructions can be read and the remap covers their indices.\<close>

lemma rewriteExpr_total:
  assumes "rewriteExpr e identityMap = Ok (out, calls)" and "\<forall>c \<in> set calls. f c \<noteq> None"
  shows "\<exists>out'. rewriteExpr e f = Ok (out', calls)"
  using rewriteExpr_compose [OF assms(1), of f] assms(2)
  by (simp add: identityMap_def [abs_def]) blast

lemma rewriteExpr_defined: "rewriteExpr e f = Ok (out, calls) \<Longrightarrow> \<forall>c \<in> set calls. f c \<noteq> None"
  using rewriteExpr_loop_rereads [of e f 0 "[]" "[]" out calls]
  by (auto simp: rewriteExpr_def rereads_def)

section \<open>Function bodies\<close>

definition locals_end :: "bytes \<Rightarrow> nat \<Rightarrow> (opt_error, nat) outcome" where
  "locals_end body p = obind (readU32 body p) (\<lambda>(cnt, n). skipLocalDecls (unat cnt) body (p + n))"

lemma skipper_locals_end: "skipper locals_end"
  unfolding locals_end_def [abs_def] by (intro skipper_readU32 skipper_intros)

lemma rewriteCodeBody_Ok:
  "rewriteCodeBody body f = Ok (out, calls) \<longleftrightarrow>
     (\<exists>pos rewritten. locals_end body 0 = Ok pos \<and>
        rewriteExpr (drop pos body) f = Ok (rewritten, calls) \<and> out = take pos body @ rewritten)"
proof -
  have slices: "obind (gslice body 0 pos) (\<lambda>pre. obind (gslice body pos (length body)) (\<lambda>expr.
      obind (rewriteExpr expr f) (\<lambda>(r, calls). Ok (pre @ r, calls)))) =
      obind (rewriteExpr (drop pos body) f) (\<lambda>(r, calls). Ok (take pos body @ r, calls))"
    if "pos \<le> length body" for pos
    using that by (simp add: gslice_in)
  have "rewriteCodeBody body f = obind (locals_end body 0) (\<lambda>pos. if pos > length body
      then Err InvalidLocalDecls
      else obind (gslice body 0 pos) (\<lambda>pre. obind (gslice body pos (length body)) (\<lambda>expr.
        obind (rewriteExpr expr f) (\<lambda>(r, calls). Ok (pre @ r, calls)))))"
    by (simp add: rewriteCodeBody_def locals_end_def obind_assoc split_def)
  also have "\<dots> = obind (locals_end body 0) (\<lambda>pos.
      obind (rewriteExpr (drop pos body) f) (\<lambda>(r, calls). Ok (take pos body @ r, calls)))"
    using skipper_bounds [OF skipper_locals_end, of 0 body] by (intro obind_cong) (auto simp: slices)
  finally have eq: "rewriteCodeBody body f = \<dots>" .
  show ?thesis unfolding eq by auto
qed

lemma rewriteCodeBody_nonempty: "rewriteCodeBody body f = Ok r \<Longrightarrow> body \<noteq> []"
  by (auto simp: rewriteCodeBody_def dest: readU32_Ok)

theorem rewriteCodeBody_compose:
  assumes "rewriteCodeBody body f = Ok (out, calls)" and "\<forall>c \<in> set calls. g (the (f c)) \<noteq> None"
  shows "\<exists>out'. rewriteCodeBody out g = Ok (out', map (\<lambda>c. the (f c)) calls) \<and>
    rewriteCodeBody body (\<lambda>c. Option.bind (f c) g) = Ok (out', calls)"
proof -
  from assms(1) obtain pos r where pos: "locals_end body 0 = Ok pos"
    and r: "rewriteExpr (drop pos body) f = Ok (r, calls)" and out: "out = take pos body @ r"
    by (auto simp: rewriteCodeBody_Ok)
  have "pos \<le> length body" using skipper_bounds [OF skipper_locals_end _ pos] by simp
  then have "same_at body 0 out 0 pos" and d: "drop pos out = r" "take pos out = take pos body"
    by (simp_all add: same_at_def out)
  then have pos': "locals_end out 0 = Ok pos"
    using skipper_window [OF skipper_locals_end _ pos, of out 0] by simp
  from rewriteExpr_compose [OF r assms(2)] pos pos' d show ?thesis
    by (fastforce simp: rewriteCodeBody_Ok)
qed

lemma rewriteCodeBody_total:
  assumes "rewriteCodeBody body identityMap = Ok (out, calls)" and "\<forall>c \<in> set calls. f c \<noteq> None"
  shows "\<exists>out'. rewriteCodeBody body f = Ok (out', calls)"
  using rewriteCodeBody_compose [OF assms(1), of f] assms(2)
  by (simp add: identityMap_def [abs_def]) blast

text \<open>The indices a body refers to do not depend on the remap.\<close>

lemma rewriteOp_same:
  assumes f: "rewriteOp e f p = Ok (q, ch, ds)" and g: "rewriteOp e g p = Ok (q', ch', ds')"
  shows "q' = q \<and> ds' = ds"
  using f
proof (cases rule: rewriteOp_OkE)
  case (1 r)
  with g show ?thesis by (simp add: rewriteOp_copied)
next
  case (2 r idx new)
  with g show ?thesis by (simp add: rewriteOp_call split: option.splits)
qed

lemma rewriteExpr_loop_same:
  "rewriteExpr_loop e f p o1 c1 = Ok (o1', c1') \<Longrightarrow> rewriteExpr_loop e g p o2 c1 = Ok (o2', c2') \<Longrightarrow>
    c2' = c1'"
proof (induction e f p o1 c1 arbitrary: o2 rule: rewriteExpr_loop.induct)
  case (1 e f p o1 c1)
  show ?case
  proof (cases "p < length e")
    case False
    with 1(2,3) show ?thesis by (simp add: rewriteExpr_loop.simps [of e _ p])
  next
    case True
    from 1(2) True obtain q ch ds where f: "rewriteOp e f p = Ok (q, ch, ds)"
      "rewriteExpr_loop e f q (o1 @ ch) (c1 @ ds) = Ok (o1', c1')"
      by (subst (asm) rewriteExpr_loop.simps) auto
    from 1(3) True obtain q' ch' ds' where g: "rewriteOp e g p = Ok (q', ch', ds')"
      "rewriteExpr_loop e g q' (o2 @ ch') (c1 @ ds') = Ok (o2', c2')"
      by (subst (asm) rewriteExpr_loop.simps) auto
    from rewriteOp_same [OF f(1) g(1)] g(2) 1(1) [OF True f(1) refl refl f(2)] show ?thesis by simp
  qed
qed

lemma rewriteCodeBody_calls:
  "rewriteCodeBody body f = Ok (o1, c1) \<Longrightarrow> rewriteCodeBody body g = Ok (o2, c2) \<Longrightarrow> c2 = c1"
  by (auto simp: rewriteCodeBody_Ok rewriteExpr_def dest: rewriteExpr_loop_same)

end
