(* ===== verification/OptModule.thy ===== *)
theory OptModule
  imports OptRewrite WasmValidate
begin

unbundle bit_operations_syntax

text \<open>
  internal/wasmopt/dce.go, the module level: cutting a module into sections and rebuilding it,
  and the parsers, encoders and rewriters of the import, function, code, export, start and element
  sections. A Go map used as a set of function indices is a set; a loop over the entries of a
  vector is a recursion over the number of entries left. The lemmas show that what is encoded is
  parsed back, and that rewriting a section never makes it longer.
\<close>

section \<open>Sections\<close>

record osection =
  sec_id :: u8
  sec_payload :: bytes

definition wasmMagic :: bytes where
  "wasmMagic = [0x00, 0x61, 0x73, 0x6d, 0x01, 0x00, 0x00, 0x00]"

definition parseSections :: "bytes \<Rightarrow> (opt_error, osection list) outcome" where
  "parseSections module =
     obind (map_err (\<lambda>_. InvalidModule []) (Sections module DefaultLimits)) (\<lambda>(secList, issues).
       if length issues > 0 then
         obind (at_idx issues 0) (\<lambda>i. Err (InvalidModule (Description i)))
       else
         omap (\<lambda>s. obind (gslice module (PayloadOffset s) (PayloadOffset s + Size s)) (\<lambda>p.
           Ok \<lparr>sec_id = ID s, sec_payload = p\<rparr>)) secList)"

text \<open>The sections with their replaced payloads; \<open>used\<close> holds the ids already seen.\<close>

fun replace_sections :: "(u8 \<Rightarrow> bytes option) \<Rightarrow> u8 set \<Rightarrow> osection list \<Rightarrow> osection list" where
  "replace_sections repl used [] = []"
| "replace_sections repl used (s # ss) =
     (if sec_id s \<noteq> 0 \<and> sec_id s \<notin> used then
        (case repl (sec_id s) of Some p \<Rightarrow> s\<lparr>sec_payload := p\<rparr> | None \<Rightarrow> s)
          # replace_sections repl (insert (sec_id s) used) ss
      else s # replace_sections repl used ss)"

definition encode_section :: "osection \<Rightarrow> bytes" where
  "encode_section s = sec_id s # encodeU32 (of_nat (length (sec_payload s))) @ sec_payload s"

definition rebuildModule :: "osection list \<Rightarrow> (u8 \<Rightarrow> bytes option) \<Rightarrow> bytes" where
  "rebuildModule sections replacements =
     wasmMagic @ concat (map encode_section (replace_sections replacements {} sections))"

definition opt_findSection :: "osection list \<Rightarrow> u8 \<Rightarrow> bytes option" where
  "opt_findSection sections i = map_option sec_payload (List.find (\<lambda>s. sec_id s = i) sections)"

section \<open>Import section\<close>

definition opt_skipLimits :: "bytes \<Rightarrow> nat \<Rightarrow> (opt_error, nat) outcome" where
  "opt_skipLimits data pos =
     obind (readU32 data pos) (\<lambda>(flags, n).
     obind (skipU32 data (pos + n)) (\<lambda>pos.
       if flags AND 0x01 \<noteq> 0 then skipU32 data pos else Ok pos))"

definition skipTableType :: "bytes \<Rightarrow> nat \<Rightarrow> (opt_error, nat) outcome" where
  "skipTableType data pos =
     (if pos \<ge> length data then Err TableTypeTruncated else opt_skipLimits data (pos + 1))"

text \<open>The descriptor of an import of kind \<open>kind\<close>, which starts at \<open>pos\<close>.\<close>

definition skipImportDesc :: "u8 \<Rightarrow> bytes \<Rightarrow> nat \<Rightarrow> (opt_error, nat) outcome" where
  "skipImportDesc kind payload pos =
     (if kind = 0x00 then skipU32 payload pos
      else if kind = 0x01 then skipTableType payload pos
      else if kind = 0x02 then opt_skipLimits payload pos
      else if kind = 0x03 then
        (if pos + 2 > length payload then Err GlobalImportTruncated else Ok (pos + 2))
      else if kind = 0x04 then
        (if pos \<ge> length payload then Err TagImportTruncated else skipU32 payload (pos + 1))
      else Err (UnsupportedImportKind kind))"

text \<open>One import: the position after it and whether it imports a function.\<close>

definition importEntry :: "bytes \<Rightarrow> nat \<Rightarrow> (opt_error, nat \<times> bool) outcome" where
  "importEntry payload pos =
     obind (opt_skipName payload pos) (\<lambda>pos.
     obind (opt_skipName payload pos) (\<lambda>pos.
       if pos \<ge> length payload then Err ImportTruncated
       else obind (at_idx payload pos) (\<lambda>kind.
         obind (skipImportDesc kind payload (pos + 1)) (\<lambda>pos. Ok (pos, kind = 0x00)))))"

primrec importEntries :: "nat \<Rightarrow> bytes \<Rightarrow> nat \<Rightarrow> u32 \<Rightarrow> (opt_error, nat \<times> u32) outcome" where
  "importEntries 0 payload pos fnCount = Ok (pos, fnCount)"
| "importEntries (Suc k) payload pos fnCount =
     obind (importEntry payload pos) (\<lambda>(pos, fn).
       importEntries k payload pos (if fn then fnCount + 1 else fnCount))"

definition parseImportedFunctionCount :: "bytes \<Rightarrow> (opt_error, u32) outcome" where
  "parseImportedFunctionCount payload =
     (if length payload = 0 then Ok 0
      else obind (readU32 payload 0) (\<lambda>(count, n).
        obind (importEntries (unat count) payload n 0) (\<lambda>(pos, fnCount).
          if pos \<noteq> length payload then Err (TrailingBytes ''import'') else Ok fnCount)))"

section \<open>Function and code sections\<close>

primrec functionEntries :: "nat \<Rightarrow> bytes \<Rightarrow> nat \<Rightarrow> (opt_error, u32 list \<times> nat) outcome" where
  "functionEntries 0 payload pos = Ok ([], pos)"
| "functionEntries (Suc k) payload pos =
     obind (readU32 payload pos) (\<lambda>(v, n).
     obind (functionEntries k payload (pos + n)) (\<lambda>(vs, pos). Ok (v # vs, pos)))"

definition parseFunctionSection :: "bytes \<Rightarrow> (opt_error, u32 list) outcome" where
  "parseFunctionSection payload =
     obind (readU32 payload 0) (\<lambda>(count, n).
     obind (functionEntries (unat count) payload n) (\<lambda>(out, pos).
       if pos \<noteq> length payload then Err (TrailingBytes ''function'') else Ok out))"

definition encodeFunctionSection :: "u32 list \<Rightarrow> bytes" where
  "encodeFunctionSection typeIdxs =
     encodeU32 (of_nat (length typeIdxs)) @ concat (map encodeU32 typeIdxs)"

text \<open>The bodies from body \<open>i\<close> on.\<close>

primrec codeEntries :: "nat \<Rightarrow> bytes \<Rightarrow> nat \<Rightarrow> nat \<Rightarrow> (opt_error, bytes list \<times> nat) outcome" where
  "codeEntries 0 payload i pos = Ok ([], pos)"
| "codeEntries (Suc k) payload i pos =
     obind (readU32 payload pos) (\<lambda>(sz, n).
       if pos + n + unat sz > length payload then Err (CodeBodyOutOfBounds i)
       else obind (gslice payload (pos + n) (pos + n + unat sz)) (\<lambda>body.
         obind (codeEntries k payload (Suc i) (pos + n + unat sz)) (\<lambda>(out, pos).
           Ok (body # out, pos))))"

definition parseCodeSection :: "bytes \<Rightarrow> (opt_error, bytes list) outcome" where
  "parseCodeSection payload =
     obind (readU32 payload 0) (\<lambda>(count, n).
     obind (codeEntries (unat count) payload 0 n) (\<lambda>(out, pos).
       if pos \<noteq> length payload then Err (TrailingBytes ''code'') else Ok out))"

definition encodeCodeSection :: "bytes list \<Rightarrow> bytes" where
  "encodeCodeSection bodies = encodeU32 (of_nat (length bodies)) @
     concat (map (\<lambda>body. encodeU32 (of_nat (length body)) @ body) bodies)"

section \<open>Export and start sections\<close>

text \<open>
  One export as both loops over the export section read it: the end of its name, its kind, its
  index and the position after it.
\<close>

definition exportEntry :: "bytes \<Rightarrow> nat \<Rightarrow> (opt_error, nat \<times> u8 \<times> u32 \<times> nat) outcome" where
  "exportEntry payload pos =
     obind (opt_skipName payload pos) (\<lambda>pos.
       if pos + 1 > length payload then Err ExportEntryTruncated
       else obind (at_idx payload pos) (\<lambda>kind.
         obind (readU32 payload (pos + 1)) (\<lambda>(idx, n). Ok (pos, kind, idx, pos + 1 + n))))"

primrec exportRoots :: "nat \<Rightarrow> bytes \<Rightarrow> nat \<Rightarrow> u32 set \<Rightarrow> (opt_error, nat \<times> u32 set) outcome" where
  "exportRoots 0 payload pos roots = Ok (pos, roots)"
| "exportRoots (Suc k) payload pos roots =
     obind (exportEntry payload pos) (\<lambda>(_, kind, idx, pos).
       exportRoots k payload pos (if kind = 0x00 then insert idx roots else roots))"

definition parseExportFunctionRoots :: "bytes \<Rightarrow> (opt_error, u32 set) outcome" where
  "parseExportFunctionRoots payload =
     obind (readU32 payload 0) (\<lambda>(count, n).
     obind (exportRoots (unat count) payload n {}) (\<lambda>(pos, roots).
       if pos \<noteq> length payload then Err (TrailingBytes ''export'') else Ok roots))"

definition rewriteExport :: "bytes \<Rightarrow> remap \<Rightarrow> nat \<Rightarrow> (opt_error, nat \<times> bytes) outcome" where
  "rewriteExport payload remap pos =
     obind (exportEntry payload pos) (\<lambda>(nameEnd, kind, idx, q).
     obind (gslice payload pos nameEnd) (\<lambda>name.
       if kind = 0x00 then (case remap idx of
         None \<Rightarrow> Err (ExportToRemovedFunction idx)
       | Some newIdx \<Rightarrow> Ok (q, name @ [kind] @ encodeU32 newIdx))
       else Ok (q, name @ [kind] @ encodeU32 idx)))"

primrec rewriteExports :: "nat \<Rightarrow> bytes \<Rightarrow> remap \<Rightarrow> nat \<Rightarrow> (opt_error, nat \<times> bytes) outcome" where
  "rewriteExports 0 payload remap pos = Ok (pos, [])"
| "rewriteExports (Suc k) payload remap pos =
     obind (rewriteExport payload remap pos) (\<lambda>(q, entry).
     obind (rewriteExports k payload remap q) (\<lambda>(pos, rest). Ok (pos, entry @ rest)))"

definition rewriteExportSection :: "bytes \<Rightarrow> remap \<Rightarrow> (opt_error, bytes) outcome" where
  "rewriteExportSection payload remap =
     obind (readU32 payload 0) (\<lambda>(count, n).
     obind (rewriteExports (unat count) payload remap n) (\<lambda>(pos, out).
       if pos \<noteq> length payload then Err (TrailingBytes ''export'') else Ok (encodeU32 count @ out)))"

definition parseStartFunction :: "bytes \<Rightarrow> (opt_error, u32) outcome" where
  "parseStartFunction payload =
     obind (readU32 payload 0) (\<lambda>(idx, n).
       if n \<noteq> length payload then Err (TrailingBytes ''start'') else Ok idx)"

definition rewriteStartSection :: "bytes \<Rightarrow> remap \<Rightarrow> (opt_error, bytes) outcome" where
  "rewriteStartSection payload remap =
     obind (parseStartFunction payload) (\<lambda>idx. case remap idx of
       None \<Rightarrow> Err StartFunctionRemoved | Some newIdx \<Rightarrow> Ok (encodeU32 newIdx))"

section \<open>Element section\<close>

function constExprEnd :: "bytes \<Rightarrow> nat \<Rightarrow> (opt_error, nat) outcome" where
  "constExprEnd data pos =
     (if pos < length data then
        obind (at_idx data pos) (\<lambda>b. if b = 0x0b then Ok (pos + 1) else constExprEnd data (pos + 1))
      else Err UnterminatedConstExpr)"
  by pat_completeness auto
termination by (relation "measure (\<lambda>(data, pos). length data - pos)") auto

declare constExprEnd.simps [simp del]

definition readConstExpr :: "bytes \<Rightarrow> nat \<Rightarrow> (opt_error, bytes \<times> nat) outcome" where
  "readConstExpr data pos =
     obind (constExprEnd data pos) (\<lambda>q. obind (gslice data pos q) (\<lambda>expr. Ok (expr, q)))"

text \<open>
  The element section is rewritten part by part. A part at a position yields the position after
  it, the bytes written for it and the function indices it refers to, which the source collects
  as roots when \<open>collectRoots\<close> is set.
\<close>

type_synonym part = "bytes \<Rightarrow> nat \<Rightarrow> (opt_error, nat \<times> bytes \<times> u32 list) outcome"

definition part_then :: "part \<Rightarrow> part \<Rightarrow> part" where
  "part_then a b data pos =
     obind (a data pos) (\<lambda>(pos, out, refs).
     obind (b data pos) (\<lambda>(pos, out', refs'). Ok (pos, out @ out', refs @ refs')))"

definition elemTable :: part where
  "elemTable data pos = obind (readU32 data pos) (\<lambda>(v, n). Ok (pos + n, encodeU32 v, []))"

definition elemByte :: "opt_error \<Rightarrow> part" where
  "elemByte err data pos =
     (if pos \<ge> length data then Err err else obind (at_idx data pos) (\<lambda>b. Ok (pos + 1, [b], [])))"

definition elemExpr :: "remap \<Rightarrow> part" where
  "elemExpr remap data pos =
     obind (readConstExpr data pos) (\<lambda>(expr, np).
     obind (rewriteExpr expr remap) (\<lambda>(rewritten, refs). Ok (np, rewritten, refs)))"

definition rewriteFuncIdxVector :: "remap \<Rightarrow> part" where
  "rewriteFuncIdxVector remap data pos =
     obind (readU32 data pos) (\<lambda>(count, n).
     obind (functionEntries (unat count) data (pos + n)) (\<lambda>(idxs, pos).
       let mapped = List.map_filter remap idxs in
       Ok (pos, encodeU32 (of_nat (length mapped)) @ concat (map encodeU32 mapped), idxs)))"

primrec exprEntries :: "nat \<Rightarrow> remap \<Rightarrow> part" where
  "exprEntries 0 remap data pos = Ok (pos, [], [])"
| "exprEntries (Suc k) remap data pos = part_then (elemExpr remap) (exprEntries k remap) data pos"

definition rewriteExprVector :: "remap \<Rightarrow> part" where
  "rewriteExprVector remap data pos =
     obind (readU32 data pos) (\<lambda>(count, n).
     obind (exprEntries (unat count) remap data (pos + n)) (\<lambda>(pos, out, refs).
       Ok (pos, encodeU32 count @ out, refs)))"

text \<open>The cases of the switch on the flags of a segment.\<close>

definition elemBody :: "u32 \<Rightarrow> remap \<Rightarrow> part" where
  "elemBody flags remap =
     (if flags = 0 then part_then (elemExpr remap) (rewriteFuncIdxVector remap)
      else if flags = 1 then
        part_then (elemByte ElementKindTruncated) (rewriteFuncIdxVector remap)
      else if flags = 2 then
        part_then elemTable (part_then (elemExpr remap)
          (part_then (elemByte ElementKindTruncated) (rewriteFuncIdxVector remap)))
      else if flags = 3 then
        part_then (elemByte ElementKindTruncated) (rewriteFuncIdxVector remap)
      else if flags = 4 then part_then (elemExpr remap) (rewriteExprVector remap)
      else if flags = 5 then
        part_then (elemByte ElementReftypeTruncated) (rewriteExprVector remap)
      else if flags = 6 then
        part_then elemTable (part_then (elemExpr remap)
          (part_then (elemByte ElementReftypeTruncated) (rewriteExprVector remap)))
      else if flags = 7 then
        part_then (elemByte ElementReftypeTruncated) (rewriteExprVector remap)
      else (\<lambda>_ _. Err (UnsupportedElementFlags flags)))"

definition elemSegment :: "remap \<Rightarrow> part" where
  "elemSegment remap data pos =
     obind (readU32 data pos) (\<lambda>(flags, n).
     obind (elemBody flags remap data (pos + n)) (\<lambda>(pos, out, refs).
       Ok (pos, encodeU32 flags @ out, refs)))"

primrec elemSegments :: "nat \<Rightarrow> remap \<Rightarrow> part" where
  "elemSegments 0 remap data pos = Ok (pos, [], [])"
| "elemSegments (Suc k) remap data pos =
     part_then (elemSegment remap) (elemSegments k remap) data pos"

definition rewriteElementSection ::
  "bytes \<Rightarrow> remap \<Rightarrow> bool \<Rightarrow> (opt_error, u32 set \<times> bytes) outcome" where
  "rewriteElementSection payload remap collectRoots =
     obind (readU32 payload 0) (\<lambda>(count, n).
     obind (elemSegments (unat count) remap payload n) (\<lambda>(pos, out, refs).
       if pos \<noteq> length payload then Err (TrailingBytes ''element'')
       else Ok (if collectRoots then set refs else {}, encodeU32 count @ out)))"

section \<open>Parsing never panics\<close>

lemma skipper_opt_skipName [skipper_intros]: "skipper opt_skipName"
  unfolding opt_skipName_def [abs_def]
  by (rule skipper_readU32 [of "\<lambda>l e p. if p + unat l > length e then Err NameOutOfBounds
    else Ok (p + unat l)"]) (rule skipper_take)

lemma opt_skipName_bound: "opt_skipName e p = Ok q \<Longrightarrow> p < q \<and> q \<le> length e"
  by (auto simp: opt_skipName_def split: if_splits dest: readU32_Ok)

lemma returns_skipU32 [simp, nopanic]: "returns (skipU32 e p)"
  unfolding skipU32_def by (auto intro!: nopanic)

lemma skipU32_bound: "skipU32 e p = Ok q \<Longrightarrow> p < q \<and> q \<le> length e"
  by (auto simp: skipU32_def dest: readU32_Ok)

lemma returns_opt_skipName [simp, nopanic]: "returns (opt_skipName e p)"
  unfolding opt_skipName_def by (auto intro!: nopanic)

lemma returns_opt_skipLimits [simp, nopanic]: "returns (opt_skipLimits e p)"
  unfolding opt_skipLimits_def by (auto intro!: nopanic)

lemma returns_skipImportDesc [simp, nopanic]: "returns (skipImportDesc kind e p)"
  unfolding skipImportDesc_def skipTableType_def by (auto intro!: nopanic)

lemma skipImportDesc_bound: "skipImportDesc kind e p = Ok q \<Longrightarrow> p < q \<and> q \<le> length e"
  by (auto simp: skipImportDesc_def skipTableType_def opt_skipLimits_def split: if_splits
      dest!: skipU32_bound readU32_Ok)

lemma returns_importEntry [simp, nopanic]: "returns (importEntry payload pos)"
  unfolding importEntry_def by (auto intro!: nopanic)

lemma returns_importEntries [simp, nopanic]: "returns (importEntries k payload pos c)"
  by (induction k arbitrary: pos c) (auto intro!: nopanic)

lemma returns_parseImportedFunctionCount [simp, nopanic]:
  "returns (parseImportedFunctionCount payload)"
  unfolding parseImportedFunctionCount_def by (auto intro!: nopanic)

lemma returns_functionEntries [simp, nopanic]: "returns (functionEntries k payload pos)"
  by (induction k arbitrary: pos) (auto intro!: nopanic)

lemma returns_parseFunctionSection [simp, nopanic]: "returns (parseFunctionSection payload)"
  unfolding parseFunctionSection_def by (auto intro!: nopanic)

lemma returns_codeEntries [simp, nopanic]: "returns (codeEntries k payload i pos)"
  by (induction k arbitrary: i pos) (auto intro!: nopanic)

lemma returns_parseCodeSection [simp, nopanic]: "returns (parseCodeSection payload)"
  unfolding parseCodeSection_def by (auto intro!: nopanic)

lemma returns_exportEntry [simp, nopanic]: "returns (exportEntry payload pos)"
  unfolding exportEntry_def by (auto intro!: nopanic)

lemma exportEntry_bound:
  "exportEntry payload pos = Ok (ne, kind, idx, q) \<Longrightarrow> pos < ne \<and> ne < q \<and> q \<le> length payload"
  by (auto simp: exportEntry_def split: if_splits dest!: opt_skipName_bound readU32_Ok)

lemma returns_exportRoots [simp, nopanic]: "returns (exportRoots k payload pos roots)"
  by (induction k arbitrary: pos roots) (auto intro!: nopanic)

lemma returns_parseExportFunctionRoots [simp, nopanic]: "returns (parseExportFunctionRoots payload)"
  unfolding parseExportFunctionRoots_def by (auto intro!: nopanic)

lemma returns_rewriteExport [simp, nopanic]: "returns (rewriteExport payload f pos)"
  unfolding rewriteExport_def by (auto intro!: nopanic dest: exportEntry_bound)

lemma returns_rewriteExports [simp, nopanic]: "returns (rewriteExports k payload f pos)"
  by (induction k arbitrary: pos) (auto intro!: nopanic)

lemma returns_rewriteExportSection [simp, nopanic]: "returns (rewriteExportSection payload f)"
  unfolding rewriteExportSection_def by (auto intro!: nopanic)

lemma returns_parseStartFunction [simp, nopanic]: "returns (parseStartFunction payload)"
  unfolding parseStartFunction_def by (auto intro!: nopanic)

lemma returns_rewriteStartSection [simp, nopanic]: "returns (rewriteStartSection payload f)"
  unfolding rewriteStartSection_def by (auto intro!: nopanic)

lemma returns_constExprEnd: "returns (constExprEnd data pos)"
proof (induction data pos rule: constExprEnd.induct)
  case (1 data pos)
  then show ?case by (subst constExprEnd.simps) (auto intro!: nopanic)
qed

lemma constExprEnd_bound: "constExprEnd data pos = Ok q \<Longrightarrow> pos < q \<and> q \<le> length data"
proof (induction data pos rule: constExprEnd.induct)
  case (1 data pos)
  then show ?case
    by (subst (asm) constExprEnd.simps) (auto split: if_splits)
qed

lemma returns_readConstExpr [simp, nopanic]: "returns (readConstExpr data pos)"
  unfolding readConstExpr_def
  by (auto intro!: nopanic returns_constExprEnd dest: constExprEnd_bound)

lemma returns_part_then [nopanic]:
  "(\<And>p. returns (a data p)) \<Longrightarrow> (\<And>p. returns (b data p)) \<Longrightarrow> returns (part_then a b data pos)"
  unfolding part_then_def by (auto intro!: nopanic)

lemma returns_elemTable [nopanic]: "returns (elemTable data pos)"
  and returns_elemByte [nopanic]: "returns (elemByte err data pos)"
  and returns_elemExpr [nopanic]: "returns (elemExpr f data pos)"
  and returns_rewriteFuncIdxVector [nopanic]: "returns (rewriteFuncIdxVector f data pos)"
  unfolding elemTable_def elemByte_def elemExpr_def rewriteFuncIdxVector_def Let_def
  by (auto intro!: nopanic)

lemma returns_exprEntries [nopanic]: "returns (exprEntries k f data pos)"
  by (induction k arbitrary: pos) (auto intro!: nopanic)

lemma returns_rewriteExprVector [nopanic]: "returns (rewriteExprVector f data pos)"
  unfolding rewriteExprVector_def by (auto intro!: nopanic)

lemma returns_elemSegment [nopanic]: "returns (elemSegment f data pos)"
  unfolding elemSegment_def elemBody_def by (auto intro!: nopanic)

lemma returns_elemSegments [nopanic]: "returns (elemSegments k f data pos)"
  by (induction k arbitrary: pos) (auto intro!: nopanic)

lemma returns_rewriteElementSection [simp, nopanic]: "returns (rewriteElementSection payload f c)"
  unfolding rewriteElementSection_def by (auto intro!: nopanic)

lemma returns_parseSections [simp, nopanic]: "returns (parseSections module)"
  unfolding parseSections_def
  by (auto intro!: nopanic dest!: Sections_Ok(1) simp: section_at_def)

section \<open>Sections are parsed back\<close>

lemma wasmMagic_length [simp]: "length wasmMagic = 8"
  by (simp add: wasmMagic_def)

lemma length_encode_section: "length (encode_section s) \<ge> 2 + length (sec_payload s)"
  using length_encodeU32 [of "of_nat (length (sec_payload s))"]
  by (cases "encodeU32 (of_nat (length (sec_payload s)))") (simp_all add: encode_section_def)

lemma unat_of_nat_u32: "n < 2 ^ 32 \<Longrightarrow> unat (of_nat n :: u32) = n"
  by (simp add: unat_of_nat take_bit_eq_mod)

lemma nextSection_encoded:
  assumes d: "drop pos data = encode_section s @ rest" and len: "length data < 2 ^ 32"
    and k: "int k < MaxSectionCount lim"
  shows "\<exists>t. nextSection data lim k pos = Ok (Inr t) \<and> ID t = sec_id s \<and> Offset t = pos \<and>
    PayloadOffset t + Size t = pos + length (encode_section s) \<and>
    drop (PayloadOffset t) data = sec_payload s @ rest \<and> Size t = length (sec_payload s)"
proof -
  let ?n = "length (sec_payload s)" and ?enc = "encodeU32 (of_nat (length (sec_payload s)))"
  from d have pos: "pos < length data" "data ! pos = sec_id s"
    and d1: "drop (pos + 1) data = ?enc @ sec_payload s @ rest"
    by (auto simp: encode_section_def dest!: drop_ConsD)
  have rd: "readU32 data (pos + 1) = Ok (of_nat ?n, length ?enc)"
    by (rule drop_readU32_encodeU32 [OF d1])
  have d2: "drop (pos + 1 + length ?enc) data = sec_payload s @ rest"
    using d1 by (metis add.commute append_eq_conv_conj drop_drop)
  have sum: "length data = pos + 1 + length ?enc + ?n + length rest"
    using arg_cong [OF d1, of length] pos(1) by simp
  then have n: "unat (of_nat ?n :: u32) = ?n" using len by (intro unat_of_nat_u32) simp
  have "\<not> (of_nat ?n :: u32) > of_nat (length data)"
    using sum unat_of_nat_u32 [OF len] n by (simp only: word_less_nat_alt not_less)
  with rd pos k n sum d2 show ?thesis
    by (simp add: nextSection_def readULEB32_Some [THEN iffD2] encode_section_def)
qed

lemma walkSections_loop_encoded:
  assumes "drop pos data = concat (map encode_section ss)" and "length data < 2 ^ 32"
    and "int (length secs + length ss) \<le> MaxSectionCount lim" and "pos \<le> length data"
  shows "\<exists>ts. walkSections_loop data lim pos secs iss = Ok (secs @ ts, iss) \<and>
    list_all2 (\<lambda>t s. ID t = sec_id s \<and>
      (\<exists>rest. drop (PayloadOffset t) data = sec_payload s @ rest) \<and>
      PayloadOffset t + Size t \<le> length data \<and> Size t = length (sec_payload s)) ts ss"
  using assms(1,3,4)
proof (induction ss arbitrary: pos secs)
  case Nil
  then show ?case by (subst walkSections_loop.simps) simp
next
  case (Cons s ss)
  then have d: "drop pos data = encode_section s @ concat (map encode_section ss)" by simp
  have "encode_section s \<noteq> []" by (simp add: encode_section_def)
  with d have pos: "pos < length data" by (metis append_is_Nil_conv drop_eq_Nil not_le)
  obtain t where t: "nextSection data lim (length secs) pos = Ok (Inr t)" "ID t = sec_id s"
      "PayloadOffset t + Size t = pos + length (encode_section s)"
      "drop (PayloadOffset t) data = sec_payload s @ concat (map encode_section ss)"
      "Size t = length (sec_payload s)"
    using nextSection_encoded [OF d assms(2), of "length secs" lim] Cons.prems(2) by auto
  let ?q = "PayloadOffset t + Size t"
  have "length data - pos \<ge> length (encode_section s)" by (metis d le_add1 length_append length_drop)
  then have q: "drop ?q data = concat (map encode_section ss)" "?q \<le> length data"
    using d t(3) pos by (metis add.commute append_eq_conv_conj drop_drop, simp)
  obtain ts where "walkSections_loop data lim ?q (secs @ [t]) iss = Ok ((secs @ [t]) @ ts, iss)"
    and "list_all2 (\<lambda>t s. ID t = sec_id s \<and>
      (\<exists>rest. drop (PayloadOffset t) data = sec_payload s @ rest) \<and>
      PayloadOffset t + Size t \<le> length data \<and> Size t = length (sec_payload s)) ts ss"
    using Cons.IH [OF q(1) _ q(2), of "secs @ [t]"] Cons.prems(2) by auto
  with pos t q show ?case
    by (intro exI [of _ "t # ts"]) (subst walkSections_loop.simps, auto)
qed

lemma Sections_encoded:
  assumes "length ss \<le> 128" and "length (wasmMagic @ concat (map encode_section ss)) < 2 ^ 32"
  shows "parseSections (wasmMagic @ concat (map encode_section ss)) = Ok ss"
proof -
  let ?data = "wasmMagic @ concat (map encode_section ss)"
  have h: "header_ok ?data" unfolding wasmMagic_def by (rule header_okI)
  have c': "checkHeader ?data [] = Ok (True, [])"
    using h by (simp add: checkHeader_def header_ok_def gslice_def)
  obtain ts where w: "walkSections_loop ?data DefaultLimits 8 [] [] = Ok (ts, [])"
    and ts: "list_all2 (\<lambda>t s. ID t = sec_id s \<and>
      (\<exists>rest. drop (PayloadOffset t) ?data = sec_payload s @ rest) \<and>
      PayloadOffset t + Size t \<le> length ?data \<and> Size t = length (sec_payload s)) ts ss"
    using walkSections_loop_encoded [of 8 ?data ss "[]" DefaultLimits "[]"] assms
    by (auto simp: DefaultLimits_def)
  have one: "obind (gslice ?data (PayloadOffset t) (PayloadOffset t + Size t))
      (\<lambda>p. Ok \<lparr>sec_id = ID t, sec_payload = p\<rparr>) = (Ok s :: (opt_error, osection) outcome)"
    if "ID t = sec_id s" "drop (PayloadOffset t) ?data = sec_payload s @ rest"
      "PayloadOffset t + Size t \<le> length ?data" "Size t = length (sec_payload s)" for t s rest
    using that by (simp add: gslice_def)
  have "omap (\<lambda>t. obind (gslice ?data (PayloadOffset t) (PayloadOffset t + Size t))
      (\<lambda>p. Ok \<lparr>sec_id = ID t, sec_payload = p\<rparr>)) ts = (Ok ss :: (opt_error, osection list) outcome)"
    unfolding omap_Ok using ts by (rule list_all2_mono) (blast intro: one)
  with c' w show ?thesis by (simp add: parseSections_def Sections_def walkSections_def)
qed

section \<open>Function and code sections are parsed back\<close>

lemma functionEntries_dec_list: "functionEntries k data pos = opt_codec.dec_list k data pos"
  by (induction k arbitrary: pos) (simp_all add: split_def)

theorem parse_encodeFunctionSection:
  assumes "length typeIdxs < 2 ^ 32"
  shows "parseFunctionSection (encodeFunctionSection typeIdxs) = Ok typeIdxs"
proof -
  let ?n = "encodeU32 (of_nat (length typeIdxs))" and ?rest = "concat (map encodeU32 typeIdxs)"
  have "functionEntries (length typeIdxs) (?n @ ?rest) (length ?n) = Ok (typeIdxs, length (?n @ ?rest))"
    using opt_codec.dec_list_enc [of "length ?n" "?n @ ?rest" typeIdxs "[]"]
    by (simp add: functionEntries_dec_list)
  moreover have "readU32 (?n @ ?rest) 0 = Ok (of_nat (length typeIdxs), length ?n)"
    by (rule drop_readU32_encodeU32) simp
  ultimately show ?thesis
    using unat_of_nat_u32 [OF assms] by (simp add: parseFunctionSection_def encodeFunctionSection_def)
qed

lemma codeEntries_encoded:
  assumes "drop pos data = concat (map (\<lambda>b. encodeU32 (of_nat (length b)) @ b) bodies) @ rest"
    and "\<forall>b \<in> set bodies. length b < 2 ^ 32"
  shows "codeEntries (length bodies) data i pos =
    Ok (bodies, pos + length (concat (map (\<lambda>b. encodeU32 (of_nat (length b)) @ b) bodies)))"
  using assms
proof (induction bodies arbitrary: i pos)
  case Nil
  then show ?case by simp
next
  case (Cons b bodies)
  let ?e = "encodeU32 (of_nat (length b))"
    and ?rest = "concat (map (\<lambda>b. encodeU32 (of_nat (length b)) @ b) bodies) @ rest"
  from Cons.prems(1) have d: "drop pos data = ?e @ b @ ?rest" by simp
  have rd: "readU32 data pos = Ok (of_nat (length b), length ?e)"
    by (rule drop_readU32_encodeU32 [OF d])
  have d1: "drop (pos + length ?e) data = b @ ?rest" by (rule drop_appendD [OF d])
  have d2: "drop (pos + length ?e + length b) data = ?rest" by (rule drop_appendD [OF d1])
  have "(?e @ b) \<noteq> []" using length_encodeU32 [of "of_nat (length b)"] by auto
  moreover have "drop pos data = (?e @ b) @ ?rest" using d by simp
  ultimately have "pos + length (?e @ b) \<le> length data" by (intro drop_append_bound)
  then have in_data: "pos + length ?e + length b \<le> length data" by simp
  have n: "unat (of_nat (length b) :: u32) = length b"
    using Cons.prems(2) by (intro unat_of_nat_u32) simp
  have IH: "codeEntries (length bodies) data (Suc i) (pos + length ?e + length b) =
      Ok (bodies, pos + length ?e + length b +
        length (concat (map (\<lambda>b. encodeU32 (of_nat (length b)) @ b) bodies)))"
    using Cons.prems(2) by (intro Cons.IH d2) simp
  show ?case
    using rd n in_data d1 IH by (simp add: gslice_in add.assoc)
qed

theorem parse_encodeCodeSection:
  assumes "length bodies < 2 ^ 32" and "\<forall>body \<in> set bodies. length body < 2 ^ 32"
  shows "parseCodeSection (encodeCodeSection bodies) = Ok bodies"
proof -
  let ?n = "encodeU32 (of_nat (length bodies))"
    and ?rest = "concat (map (\<lambda>b. encodeU32 (of_nat (length b)) @ b) bodies)"
  have "codeEntries (length bodies) (?n @ ?rest) 0 (length ?n) = Ok (bodies, length (?n @ ?rest))"
    using codeEntries_encoded [of "length ?n" "?n @ ?rest" bodies "[]" 0] assms(2) by simp
  moreover have "readU32 (?n @ ?rest) 0 = Ok (of_nat (length bodies), length ?n)"
    by (rule drop_readU32_encodeU32) simp
  ultimately show ?thesis
    using unat_of_nat_u32 [OF assms(1)] by (simp add: parseCodeSection_def encodeCodeSection_def)
qed

section \<open>The rewritten export section\<close>

lemma opt_skipName_window:
  "opt_skipName e p = Ok q \<Longrightarrow> p \<le> length e \<Longrightarrow> same_at e p e' p' (q - p) \<Longrightarrow>
    opt_skipName e' p' = Ok (p' + (q - p))"
  by (rule skipper_window [OF skipper_opt_skipName])

lemma exportEntry_encoded:
  assumes "exportEntry payload pos = Ok (ne, kind, idx, q)"
    and "drop p2 e2 = take (ne - pos) (drop pos payload) @ kind # encodeU32 idx' @ X"
  shows "exportEntry e2 p2 =
    Ok (p2 + (ne - pos), kind, idx', p2 + (ne - pos) + 1 + length (encodeU32 idx'))"
proof -
  let ?name = "take (ne - pos) (drop pos payload)"
  from assms(1) have sk: "opt_skipName payload pos = Ok ne" by (auto simp: exportEntry_def split: if_splits)
  have b: "pos < ne" "ne < length payload" using exportEntry_bound [OF assms(1)] by auto
  then have len: "length ?name = ne - pos" by simp
  have d1: "drop (p2 + (ne - pos)) e2 = kind # encodeU32 idx' @ X"
    using drop_appendD [OF assms(2)] len by simp
  then have lt: "p2 + (ne - pos) < length e2" "e2 ! (p2 + (ne - pos)) = kind"
    and d2: "drop (p2 + (ne - pos) + 1) e2 = encodeU32 idx' @ X"
    by (auto dest: drop_ConsD)
  have "take (ne - pos) (drop p2 e2) = ?name" using assms(2) len by simp
  then have "same_at payload pos e2 p2 (ne - pos)" using b lt by (simp add: same_at_def)
  then have "opt_skipName e2 p2 = Ok (p2 + (ne - pos))"
    using opt_skipName_window [OF sk] b by simp
  then show ?thesis
    using lt drop_readU32_encodeU32 [OF d2] by (simp add: exportEntry_def)
qed

lemma rewriteExports_reread:
  assumes "rewriteExports k payload f pos = Ok (q, out)"
  shows "\<exists>S. S \<subseteq> dom f \<and> (\<forall>R. exportRoots k payload pos R = Ok (q, R \<union> S)) \<and>
    (\<forall>R e2 p2 X. drop p2 e2 = out @ X \<longrightarrow>
      exportRoots k e2 p2 R = Ok (p2 + length out, R \<union> (\<lambda>c. the (f c)) ` S))"
  using assms
proof (induction k arbitrary: pos out)
  case 0
  then show ?case by (intro exI [of _ "{}"]) simp
next
  case (Suc k)
  from Suc.prems obtain q1 entry rest where e: "rewriteExport payload f pos = Ok (q1, entry)"
    and r: "rewriteExports k payload f q1 = Ok (q, rest)" and out: "out = entry @ rest"
    by auto
  from e obtain ne kind idx where x: "exportEntry payload pos = Ok (ne, kind, idx, q1)"
    and f: "kind = 0x00 \<Longrightarrow> f idx \<noteq> None"
    and entry: "entry = take (ne - pos) (drop pos payload) @
      kind # encodeU32 (if kind = 0x00 then the (f idx) else idx)"
    by (auto simp: rewriteExport_def split: if_splits option.splits)
  note b = exportEntry_bound [OF x]
  obtain S where S: "S \<subseteq> dom f" "\<And>R. exportRoots k payload q1 R = Ok (q, R \<union> S)"
    and S': "\<And>R e2 p2 X. drop p2 e2 = rest @ X \<Longrightarrow>
      exportRoots k e2 p2 R = Ok (p2 + length rest, R \<union> (\<lambda>c. the (f c)) ` S)"
    using Suc.IH [OF r] by blast
  let ?idx = "if kind = 0x00 then the (f idx) else idx"
  let ?S = "if kind = 0x00 then insert idx S else S"
  show ?case
  proof (intro exI [of _ ?S] conjI allI impI)
    show "?S \<subseteq> dom f" using S f by auto
    show "exportRoots (Suc k) payload pos R = Ok (q, R \<union> ?S)" for R
      using x S by simp
    fix R e2 p2 X assume d: "drop p2 e2 = out @ X"
    then have d1: "drop p2 e2 = take (ne - pos) (drop pos payload) @ kind # encodeU32 ?idx @ rest @ X"
      using out entry by simp
    have "drop (p2 + length entry) e2 = rest @ X"
      using d out by (intro drop_appendD) simp
    then have "exportRoots k e2 (p2 + length entry) R' =
        Ok (p2 + length entry + length rest, R' \<union> (\<lambda>c. the (f c)) ` S)" for R'
      by (rule S')
    moreover have "length (take (ne - pos) (drop pos payload)) = ne - pos"
      using b by (simp add: min_def) arith
    then have "length entry = ne - pos + 1 + length (encodeU32 ?idx)"
      by (simp only: entry length_append list.size)
    then have "exportEntry e2 p2 = Ok (p2 + (ne - pos), kind, ?idx, p2 + length entry)"
      using exportEntry_encoded [OF x d1] by (simp only: add.assoc)
    ultimately show "exportRoots (Suc k) e2 p2 R = Ok (p2 + length out, R \<union> (\<lambda>c. the (f c)) ` ?S)"
      using out by simp
  qed
qed

theorem rewriteExportSection_roots:
  assumes "rewriteExportSection payload f = Ok out"
  shows "\<exists>roots. parseExportFunctionRoots payload = Ok roots \<and> roots \<subseteq> dom f \<and>
    parseExportFunctionRoots out = Ok ((\<lambda>c. the (f c)) ` roots)"
proof -
  from assms obtain count n o' where c: "readU32 payload 0 = Ok (count, n)"
    and r: "rewriteExports (unat count) payload f n = Ok (length payload, o')"
    and out: "out = encodeU32 count @ o'"
    by (auto simp: rewriteExportSection_def split: if_splits)
  from rewriteExports_reread [OF r] obtain S where "S \<subseteq> dom f"
    and "exportRoots (unat count) payload n {} = Ok (length payload, S)"
    and "exportRoots (unat count) out (length (encodeU32 count)) {} =
      Ok (length out, (\<lambda>c. the (f c)) ` S)"
    using out by (auto simp del: exportRoots.simps)
  moreover have "readU32 out 0 = Ok (count, length (encodeU32 count))"
    using out by (intro drop_readU32_encodeU32) simp
  ultimately show ?thesis using c by (simp add: parseExportFunctionRoots_def)
qed

lemma rewriteExports_total:
  assumes "exportRoots k payload pos R = Ok (q, R')" and "\<forall>c \<in> R'. f c \<noteq> None"
  shows "\<exists>out. rewriteExports k payload f pos = Ok (q, out)"
  using assms
proof (induction k arbitrary: pos R)
  case 0
  then show ?case by simp
next
  case (Suc k)
  have mono: "exportRoots k payload p R = Ok (q, R') \<Longrightarrow> R \<subseteq> R'" for k p R
    by (induction k arbitrary: p R) (fastforce split: if_splits)+
  from Suc.prems(1) obtain ne kind idx q1 where x: "exportEntry payload pos = Ok (ne, kind, idx, q1)"
    and r: "exportRoots k payload q1 (if kind = 0x00 then insert idx R else R) = Ok (q, R')"
    by auto
  obtain rest where "rewriteExports k payload f q1 = Ok (q, rest)"
    using Suc.IH [OF r Suc.prems(2)] by blast
  moreover have "kind = 0x00 \<longrightarrow> f idx \<noteq> None" using mono [OF r] Suc.prems(2) by auto
  ultimately show ?case
    using x exportEntry_bound [OF x] by (auto simp: rewriteExport_def gslice_in)
qed

lemma rewriteExportSection_total:
  assumes "parseExportFunctionRoots payload = Ok roots" and "\<forall>c \<in> roots. f c \<noteq> None"
  shows "\<exists>out. rewriteExportSection payload f = Ok out"
  using assms rewriteExports_total
  by (auto simp: parseExportFunctionRoots_def rewriteExportSection_def split: if_splits) fastforce

section \<open>Rewriting never makes a section longer\<close>

definition shrinks :: "remap \<Rightarrow> bool" where
  "shrinks f \<longleftrightarrow> (\<forall>c d. f c = Some d \<longrightarrow> d \<le> c)"

lemma shrinks_identityMap: "shrinks identityMap"
  by (simp add: shrinks_def identityMap_def)

lemma length_encode_read: "readU32 data pos = Ok (v, n) \<Longrightarrow> w \<le> v \<Longrightarrow> length (encodeU32 w) \<le> n"
  by (auto intro: readU32_minimal simp: word_le_nat_alt)

lemma length_encode_mono: "w \<le> v \<Longrightarrow> length (encodeU32 w) \<le> length (encodeU32 v)"
  using length_encode_read [OF drop_readU32_encodeU32 [of 0 _ v "[]"]] by simp

lemma length_encode_nat_mono:
  assumes "a \<le> b" and "b < 2 ^ 32"
  shows "length (encodeU32 (of_nat a)) \<le> length (encodeU32 (of_nat b))"
  using assms by (intro length_encode_mono) (simp add: word_le_nat_alt unat_of_nat_u32)

lemma rewriteOp_size:
  assumes f: "shrinks f" and r: "rewriteOp e f p = Ok (q, ch, cs)"
  shows "p + length ch \<le> q"
  using r
proof (cases rule: rewriteOp_OkE)
  case (1 q')
  then show ?thesis using copied_at_bounds [of e p q] by (simp add: min_def) arith
next
  case (2 q' idx new)
  then obtain n where "readU32 e (p + 1) = Ok (idx, n)" "q = p + 1 + n" by (auto simp: call_at_def)
  moreover have "new \<le> idx" using 2 f by (simp add: shrinks_def)
  ultimately show ?thesis using 2 length_encode_read [of e "p + 1" idx n new] by simp
qed

lemma rewriteExpr_loop_size:
  "rewriteExpr_loop e f p out calls = Ok (out', calls') \<Longrightarrow> shrinks f \<Longrightarrow> p \<le> length e \<Longrightarrow>
    p + length out' \<le> length e + length out"
proof (induction e f p out calls rule: rewriteExpr_loop.induct)
  case (1 e f p out calls)
  show ?case
  proof (cases "p < length e")
    case False
    with 1(2,4) show ?thesis by (subst (asm) rewriteExpr_loop.simps) auto
  next
    case True
    with 1(2) obtain q ch cs where op: "rewriteOp e f p = Ok (q, ch, cs)"
      and r: "rewriteExpr_loop e f q (out @ ch) (calls @ cs) = Ok (out', calls')"
      by (subst (asm) rewriteExpr_loop.simps) auto
    have "q + length out' \<le> length e + length (out @ ch)"
      using 1(1) [OF True op refl refl r 1(3)] rewriteOp_bounds [OF op] by simp
    then show ?thesis using rewriteOp_size [OF 1(3) op] by simp
  qed
qed

lemma rewriteExpr_size: "rewriteExpr e f = Ok (out, calls) \<Longrightarrow> shrinks f \<Longrightarrow> length out \<le> length e"
  using rewriteExpr_loop_size [of e f 0 "[]" "[]" out calls] by (simp add: rewriteExpr_def)

lemma rewriteCodeBody_size:
  "rewriteCodeBody body f = Ok (out, calls) \<Longrightarrow> shrinks f \<Longrightarrow> length out \<le> length body"
  by (auto simp: rewriteCodeBody_Ok dest!: rewriteExpr_size
      dest: skipper_bounds [OF skipper_locals_end, of 0 body])

lemma rewriteExports_size:
  "rewriteExports k payload f pos = Ok (q, out) \<Longrightarrow> shrinks f \<Longrightarrow> pos + length out \<le> q"
proof (induction k arbitrary: pos out)
  case 0
  then show ?case by simp
next
  case (Suc k)
  from Suc.prems obtain q1 entry rest where e: "rewriteExport payload f pos = Ok (q1, entry)"
    and r: "rewriteExports k payload f q1 = Ok (q, rest)" and out: "out = entry @ rest" by auto
  from e obtain ne kind idx where x: "exportEntry payload pos = Ok (ne, kind, idx, q1)"
    by (auto simp: rewriteExport_def split: if_splits option.splits)
  then obtain n where n: "readU32 payload (ne + 1) = Ok (idx, n)" "q1 = ne + 1 + n"
    by (auto simp: exportEntry_def split: if_splits)
  have "\<exists>v \<le> idx. entry = take (ne - pos) (drop pos payload) @ kind # encodeU32 v"
    using e x Suc.prems(2) by (auto simp: rewriteExport_def shrinks_def split: if_splits option.splits) blast+
  then have "pos + length entry \<le> q1"
    using exportEntry_bound [OF x] n length_encode_read [OF n(1)] by auto
  then show ?case using Suc.IH [OF r Suc.prems(2)] out by simp
qed

lemma rewriteExportSection_size:
  assumes "rewriteExportSection payload f = Ok out" and "shrinks f"
  shows "length out \<le> length payload"
proof -
  from assms(1) obtain count n o' where c: "readU32 payload 0 = Ok (count, n)"
    and r: "rewriteExports (unat count) payload f n = Ok (length payload, o')"
    and out: "out = encodeU32 count @ o'"
    by (auto simp: rewriteExportSection_def split: if_splits)
  show ?thesis
    using rewriteExports_size [OF r assms(2)] length_encode_read [OF c order_refl] out by simp
qed

lemma rewriteStartSection_size:
  "rewriteStartSection payload f = Ok out \<Longrightarrow> shrinks f \<Longrightarrow> length out \<le> length payload"
  by (auto simp: rewriteStartSection_def parseStartFunction_def shrinks_def
      split: if_splits option.splits intro!: length_encode_read)

text \<open>The parts of an element section: what is written is not longer than what was read.\<close>

definition part_size :: "part \<Rightarrow> bool" where
  "part_size P \<longleftrightarrow> (\<forall>data pos q out refs. P data pos = Ok (q, out, refs) \<longrightarrow> pos + length out \<le> q)"

lemma part_size_then: "part_size a \<Longrightarrow> part_size b \<Longrightarrow> part_size (part_then a b)"
  unfolding part_size_def part_then_def by (clarsimp, fastforce)

lemma part_size_elemTable: "part_size elemTable"
  by (auto simp: part_size_def elemTable_def dest: length_encode_read [OF _ order_refl])

lemma part_size_elemByte: "part_size (elemByte err)"
  by (auto simp: part_size_def elemByte_def split: if_splits)

lemma part_size_elemExpr: "shrinks f \<Longrightarrow> part_size (elemExpr f)"
  by (fastforce simp: part_size_def elemExpr_def readConstExpr_def
      dest!: rewriteExpr_size constExprEnd_bound)

lemma functionEntries_size:
  "functionEntries k data pos = Ok (vs, q) \<Longrightarrow>
    length vs = k \<and> pos + (\<Sum>v \<leftarrow> vs. length (encodeU32 v)) \<le> q"
  by (induction k arbitrary: pos vs) (fastforce dest: length_encode_read [OF _ order_refl])+

lemma map_filter_size: "shrinks f \<Longrightarrow>
  length (concat (map encodeU32 (List.map_filter f vs))) \<le> (\<Sum>v \<leftarrow> vs. length (encodeU32 v))"
proof (induction vs)
  case Nil
  then show ?case by simp
next
  case (Cons v vs)
  show ?case
  proof (cases "f v")
    case None
    with Cons show ?thesis by simp
  next
    case (Some w)
    with Cons.prems have "length (encodeU32 w) \<le> length (encodeU32 v)"
      by (intro length_encode_mono) (simp add: shrinks_def)
    with Some Cons show ?thesis by simp
  qed
qed

lemma length_map_filter_le: "length (List.map_filter f vs) \<le> length vs"
  by (induction vs) (auto split: option.split)

lemma part_size_rewriteFuncIdxVector:
  assumes f: "shrinks f"
  shows "part_size (rewriteFuncIdxVector f)"
  unfolding part_size_def
proof (intro allI impI)
  fix data pos q out refs assume "rewriteFuncIdxVector f data pos = Ok (q, out, refs)"
  then obtain count n where c: "readU32 data pos = Ok (count, n)"
    and v: "functionEntries (unat count) data (pos + n) = Ok (refs, q)"
    and out: "out = encodeU32 (of_nat (length (List.map_filter f refs))) @
      concat (map encodeU32 (List.map_filter f refs))"
    by (auto simp: rewriteFuncIdxVector_def Let_def)
  note s = functionEntries_size [OF v]
  have le: "length (List.map_filter f refs) \<le> unat count"
    using s length_map_filter_le [of f refs] by simp
  then have lt: "length (List.map_filter f refs) < 2 ^ 32"
    using unat_u32_less [of count] by (rule order_le_less_trans)
  have "of_nat (length (List.map_filter f refs)) \<le> count"
    using le by (simp only: word_le_nat_alt unat_of_nat_u32 [OF lt])
  then have "length (encodeU32 (of_nat (length (List.map_filter f refs)))) \<le> n"
    using length_encode_read [OF c] by simp
  then show "pos + length out \<le> q"
    using out s map_filter_size [OF f, of refs] by simp
qed

lemma part_size_exprEntries: "shrinks f \<Longrightarrow> part_size (exprEntries k f)"
proof (induction k)
  case 0
  then show ?case by (simp add: part_size_def)
next
  case (Suc k)
  then have "part_size (part_then (elemExpr f) (exprEntries k f))"
    by (intro part_size_then part_size_elemExpr)
  then show ?case by (simp add: part_size_def)
qed

lemma part_size_rewriteExprVector: "shrinks f \<Longrightarrow> part_size (rewriteExprVector f)"
  using part_size_exprEntries [of f]
  by (fastforce simp: part_size_def rewriteExprVector_def dest: length_encode_read [OF _ order_refl])

lemma part_size_elemBody: "shrinks f \<Longrightarrow> part_size (elemBody flags f)"
  unfolding elemBody_def
  by (auto intro!: part_size_then part_size_elemTable part_size_elemByte part_size_elemExpr
      part_size_rewriteFuncIdxVector part_size_rewriteExprVector simp: part_size_def [of "\<lambda>_ _. Err _"])

lemma part_size_elemSegment: "shrinks f \<Longrightarrow> part_size (elemSegment f)"
  using part_size_elemBody [of f]
  by (fastforce simp: part_size_def elemSegment_def dest: length_encode_read [OF _ order_refl])

lemma part_size_elemSegments: "shrinks f \<Longrightarrow> part_size (elemSegments k f)"
proof (induction k)
  case 0
  then show ?case by (simp add: part_size_def)
next
  case (Suc k)
  then have "part_size (part_then (elemSegment f) (elemSegments k f))"
    by (intro part_size_then part_size_elemSegment)
  then show ?case by (simp add: part_size_def)
qed

lemma rewriteElementSection_size:
  assumes "rewriteElementSection payload f c = Ok (roots, out)" and "shrinks f"
  shows "length out \<le> length payload"
proof -
  from assms(1) obtain count n o' refs where c: "readU32 payload 0 = Ok (count, n)"
    and r: "elemSegments (unat count) f payload n = Ok (length payload, o', refs)"
    and out: "out = encodeU32 count @ o'"
    by (auto simp: rewriteElementSection_def split: if_splits)
  show ?thesis
    using part_size_elemSegments [OF assms(2)] r length_encode_read [OF c order_refl] out
    by (fastforce simp: part_size_def)
qed

lemma codeEntries_size:
  "codeEntries k data i pos = Ok (bs, q) \<Longrightarrow> length bs = k \<and> (\<forall>b \<in> set bs. length b < 2 ^ 32) \<and>
    pos + (\<Sum>b \<leftarrow> bs. length (encodeU32 (of_nat (length b))) + length b) \<le> q"
proof (induction k arbitrary: i pos bs)
  case 0
  then show ?case by simp
next
  case (Suc k)
  from Suc.prems obtain sz n bs' where r: "readU32 data pos = Ok (sz, n)"
    and i: "pos + n + unat sz \<le> length data"
    and c: "codeEntries k data (Suc i) (pos + n + unat sz) = Ok (bs', q)"
    and bs: "bs = take (unat sz) (drop (pos + n) data) # bs'"
    by (auto split: if_splits simp: add.assoc)
  show ?case
    using Suc.IH [OF c] length_encode_read [OF r order_refl] i bs by simp
qed

section \<open>Rewriting the element section\<close>

text \<open>A part can be rewritten by any map that covers the indices it refers to.\<close>

definition part_total :: "(remap \<Rightarrow> part) \<Rightarrow> bool" where
  "part_total P \<longleftrightarrow> (\<forall>f data pos q out refs. P identityMap data pos = Ok (q, out, refs) \<longrightarrow>
     (\<forall>c \<in> set refs. f c \<noteq> None) \<longrightarrow> (\<exists>out. P f data pos = Ok (q, out, refs)))"

lemma part_total_const: "part_total (\<lambda>_. P)"
  by (simp add: part_total_def)

lemma part_total_then:
  assumes a: "part_total a" and b: "part_total b"
  shows "part_total (\<lambda>f. part_then (a f) (b f))"
  unfolding part_total_def
proof (intro allI impI)
  fix f :: remap and data pos q out refs
  assume r: "part_then (a identityMap) (b identityMap) data pos = Ok (q, out, refs)"
    and f: "\<forall>c \<in> set refs. f c \<noteq> None"
  then obtain p1 o1 r1 o2 r2 where 1: "a identityMap data pos = Ok (p1, o1, r1)"
    and 2: "b identityMap data p1 = Ok (q, o2, r2)" and refs: "refs = r1 @ r2"
    by (auto simp: part_then_def)
  obtain o1' where "a f data pos = Ok (p1, o1', r1)"
    using a 1 f refs unfolding part_total_def by fastforce
  moreover obtain o2' where "b f data p1 = Ok (q, o2', r2)"
    using b 2 f refs unfolding part_total_def by fastforce
  ultimately show "\<exists>out. part_then (a f) (b f) data pos = Ok (q, out, refs)"
    using refs by (simp add: part_then_def)
qed

lemma part_total_if: "part_total P \<Longrightarrow> part_total Q \<Longrightarrow> part_total (\<lambda>f. if b then P f else Q f)"
  by (cases b) simp_all

lemma part_total_elemExpr: "part_total elemExpr"
  unfolding part_total_def elemExpr_def using rewriteExpr_total by fastforce

lemma part_total_rewriteFuncIdxVector: "part_total rewriteFuncIdxVector"
  by (auto simp: part_total_def rewriteFuncIdxVector_def Let_def)

lemma part_total_exprEntries: "part_total (exprEntries k)"
proof (induction k)
  case 0
  then show ?case by (simp add: part_total_def)
next
  case (Suc k)
  from part_total_then [OF part_total_elemExpr this] show ?case by (simp add: part_total_def)
qed

lemma part_total_rewriteExprVector: "part_total rewriteExprVector"
  using part_total_exprEntries by (fastforce simp: part_total_def rewriteExprVector_def)

lemma part_total_elemBody: "part_total (elemBody flags)"
  unfolding elemBody_def [abs_def]
  by (intro part_total_if part_total_then part_total_const part_total_elemExpr
      part_total_rewriteFuncIdxVector part_total_rewriteExprVector)

lemma part_total_elemSegment: "part_total elemSegment"
  using part_total_elemBody by (fastforce simp: part_total_def elemSegment_def)

lemma part_total_elemSegments: "part_total (elemSegments k)"
proof (induction k)
  case 0
  then show ?case by (simp add: part_total_def)
next
  case (Suc k)
  from part_total_then [OF part_total_elemSegment this] show ?case by (simp add: part_total_def)
qed

lemma rewriteElementSection_total:
  assumes "rewriteElementSection payload identityMap True = Ok (roots, out)"
    and "\<forall>c \<in> roots. f c \<noteq> None"
  shows "\<exists>out'. rewriteElementSection payload f False = Ok ({}, out')"
proof -
  from assms obtain count n o' refs where c: "readU32 payload 0 = Ok (count, n)"
    and r: "elemSegments (unat count) identityMap payload n = Ok (length payload, o', refs)"
    and f: "\<forall>c \<in> set refs. f c \<noteq> None"
    by (auto simp: rewriteElementSection_def split: if_splits)
  obtain o2 where "elemSegments (unat count) f payload n = Ok (length payload, o2, refs)"
    using part_total_elemSegments r f unfolding part_total_def by blast
  with c show ?thesis by (auto simp: rewriteElementSection_def)
qed

text \<open>A rewritten vector of function indices reads back as the mapped indices, the unmapped ones dropped.\<close>

text \<open>A rewritten vector of function indices of an element segment reads back as the images of
  its indices, those without image left out.\<close>

theorem rewriteFuncIdxVector_reread:
  assumes r: "rewriteFuncIdxVector f data pos = Ok (q, out, idxs)" and d: "drop p2 e2 = out @ rest"
  shows "\<exists>out'. rewriteFuncIdxVector g e2 p2 = Ok (p2 + length out, out', List.map_filter f idxs)"
proof -
  let ?m = "List.map_filter f idxs"
  let ?n = "encodeU32 (of_nat (length ?m))" and ?es = "concat (map encodeU32 ?m)"
  from r obtain count :: u32 and n where v: "functionEntries (unat count) data (pos + n) = Ok (idxs, q)"
    and out: "out = ?n @ ?es"
    by (auto simp: rewriteFuncIdxVector_def Let_def)
  have "length ?m \<le> unat count"
    using functionEntries_size [OF v] length_map_filter_le [of f idxs] by simp
  then have "length ?m < 2 ^ 32"
    using unat_u32_less [of count] by (rule order_le_less_trans)
  then have len: "unat (of_nat (length ?m) :: u32) = length ?m" by (rule unat_of_nat_u32)
  from d out have d1: "drop p2 e2 = ?n @ ?es @ rest" by simp
  have "readU32 e2 p2 = Ok (of_nat (length ?m), length ?n)"
    by (rule drop_readU32_encodeU32 [OF d1])
  moreover have "functionEntries (length ?m) e2 (p2 + length ?n) = Ok (?m, p2 + length ?n + length ?es)"
    unfolding functionEntries_dec_list
    by (rule opt_codec.dec_list_enc [OF drop_appendD [OF d1]])
  ultimately show ?thesis
    unfolding rewriteFuncIdxVector_def using len out by (simp add: Let_def)
qed

text \<open>
  \<open>readConstExpr\<close> ends a constant expression at the first byte \<open>0x0b\<close>, also when that byte is
  the immediate of an instruction: an active segment at offset 11 is rejected, one at offset 10
  is not.
\<close>

text \<open>The offset expression of an active element segment is cut at the first byte 0x0b, also
  when that byte is an immediate: the segment at offset 11 is rejected, the one at offset 10 is
  accepted.\<close>

theorem readConstExpr_offset_11:
  "rewriteElementSection [1, 0, 0x41, 11, 0x0b, 1, 0] identityMap True = Err UlebOutOfBounds \<and>
   rewriteElementSection [1, 0, 0x41, 10, 0x0b, 1, 0] identityMap True
    = Ok ({0}, [1, 0, 0x41, 10, 0x0b, 1, 0])"
  by code_simp

end
