(* ===== verification/Worklist.thy ===== *)
theory Worklist
  imports GoPrelude
begin

text \<open>
  Reachability by a work list. Both dead-code eliminators of the repository (internal/wasmopt and
  internal/dce) mark the functions reachable from a set of roots with a first-in first-out queue:
  a function is marked when it is queued, and the unmarked callees of a function taken from the
  queue are marked and queued. The locale states what one such step does to the marks, whatever
  holds them, and shows that the run marks exactly the nodes reachable from those marked first.
\<close>

definition reachable_from :: "('n \<Rightarrow> 'n set) \<Rightarrow> 'n set \<Rightarrow> 'n set" where
  "reachable_from succ R = {(a, b). b \<in> succ a}\<^sup>* `` R"

lemma reachable_fromI: "r \<in> R \<Longrightarrow> r \<in> reachable_from succ R"
  and reachable_from_step: "a \<in> reachable_from succ R \<Longrightarrow> b \<in> succ a \<Longrightarrow> b \<in> reachable_from succ R"
  unfolding reachable_from_def by (auto intro: rtrancl_into_rtrancl)

lemma reachable_from_induct [consumes 1, case_names root step]:
  assumes "w \<in> reachable_from succ R"
    and "\<And>r. r \<in> R \<Longrightarrow> P r"
    and "\<And>a b. a \<in> reachable_from succ R \<Longrightarrow> P a \<Longrightarrow> b \<in> succ a \<Longrightarrow> P b"
  shows "P w"
proof -
  from assms(1) obtain r where r: "r \<in> R" and "(r, w) \<in> {(a, b). b \<in> succ a}\<^sup>*"
    by (auto simp: reachable_from_def)
  from this(2) show ?thesis
  proof (induction rule: rtrancl_induct)
    case base
    with r assms(2) show ?case by blast
  next
    case (step y z)
    then have "y \<in> reachable_from succ R" using r by (auto simp: reachable_from_def)
    with step assms(3) show ?case by blast
  qed
qed

lemma reachable_from_closed:
  assumes "R \<subseteq> S" and "\<And>a. a \<in> S \<Longrightarrow> succ a \<subseteq> S"
  shows "reachable_from succ R \<subseteq> S"
proof
  fix w assume "w \<in> reachable_from succ R"
  then show "w \<in> S" by (induction rule: reachable_from_induct) (use assms in auto)
qed

lemma reachable_from_absorb:
  assumes "R \<subseteq> S" and "S \<subseteq> reachable_from succ R"
  shows "reachable_from succ S = reachable_from succ R"
proof
  show "reachable_from succ S \<subseteq> reachable_from succ R"
    using assms(2) by (intro reachable_from_closed) (auto intro: reachable_from_step)
  show "reachable_from succ R \<subseteq> reachable_from succ S"
    using assms(1) by (intro reachable_from_closed) (auto intro: reachable_fromI reachable_from_step)
qed

lemma reachable_from_image:
  assumes "\<And>a. a \<in> reachable_from succ R \<Longrightarrow> succ' (f a) = f ` succ a"
  shows "reachable_from succ' (f ` R) = f ` reachable_from succ R"
proof
  show "reachable_from succ' (f ` R) \<subseteq> f ` reachable_from succ R"
  proof (rule reachable_from_closed)
    show "f ` R \<subseteq> f ` reachable_from succ R" by (auto intro: reachable_fromI)
    fix b assume "b \<in> f ` reachable_from succ R"
    then obtain a where a: "b = f a" "a \<in> reachable_from succ R" by blast
    show "succ' b \<subseteq> f ` reachable_from succ R"
      unfolding a(1) assms [OF a(2)] using a(2) by (auto intro: reachable_from_step)
  qed
  show "f ` reachable_from succ R \<subseteq> reachable_from succ' (f ` R)"
  proof
    fix b assume "b \<in> f ` reachable_from succ R"
    then obtain a where "b = f a" and a: "a \<in> reachable_from succ R" by blast
    moreover from a have "f a \<in> reachable_from succ' (f ` R)"
    proof (induction rule: reachable_from_induct)
      case (root r)
      then show ?case by (auto intro: reachable_fromI)
    next
      case (step a b)
      then have "f b \<in> succ' (f a)" using assms by blast
      with step show ?case by (auto intro: reachable_from_step)
    qed
    ultimately show "b \<in> reachable_from succ' (f ` R)" by simp
  qed
qed

locale worklist =
  fixes marked :: "'m \<Rightarrow> ('n::finite) set"
    and succ :: "'g \<Rightarrow> 'n \<Rightarrow> 'n set"
    and run :: "'g \<Rightarrow> 'm \<Rightarrow> 'n list \<Rightarrow> 'm"
    and ok :: "'g \<Rightarrow> 'm \<Rightarrow> bool"
  assumes run_Nil: "ok g m \<Longrightarrow> run g m [] = m"
    and run_Cons: "ok g m \<Longrightarrow> set (v # vs) \<subseteq> marked m \<Longrightarrow> \<exists>m' new. run g m (v # vs) = run g m' (vs @ new) \<and> ok g m' \<and>
      marked m' = marked m \<union> succ g v \<and> set new = succ g v - marked m \<and> distinct new"
begin

lemma run_marks:
  assumes "ok g m" and "set queue \<subseteq> marked m"
    and "\<forall>v \<in> marked m - set queue. succ g v \<subseteq> marked m"
  shows "marked (run g m queue) = reachable_from (succ g) (marked m) \<and> ok g (run g m queue)"
  using assms
proof (induction "card (UNIV - marked m) + length queue" arbitrary: m queue rule: less_induct)
  case less
  show ?case
  proof (cases queue)
    case Nil
    have "reachable_from (succ g) (marked m) = marked m"
      using less.prems Nil by (intro equalityI reachable_from_closed) (auto intro: reachable_fromI)
    with Nil less.prems show ?thesis by (simp add: run_Nil)
  next
    case (Cons v vs)
    obtain m' new where step: "run g m queue = run g m' (vs @ new)" "ok g m'"
        "marked m' = marked m \<union> succ g v" "set new = succ g v - marked m" "distinct new"
      using run_Cons [OF less.prems(1), of v vs] less.prems(2) Cons by blast
    have "UNIV - marked m = (UNIV - marked m') \<union> set new" "(UNIV - marked m') \<inter> set new = {}"
      using step by auto
    then have "card (UNIV - marked m) = card (UNIV - marked m') + length new"
      using step(5) by (simp add: card_Un_disjoint distinct_card)
    then have m': "marked (run g m' (vs @ new)) = reachable_from (succ g) (marked m') \<and>
        ok g (run g m' (vs @ new))"
      using less.prems step Cons by (intro less.hyps) auto
    have "v \<in> marked m" using less.prems Cons by auto
    then have "marked m' \<subseteq> reachable_from (succ g) (marked m)"
      using step by (auto intro: reachable_fromI reachable_from_step)
    then have "reachable_from (succ g) (marked m') = reachable_from (succ g) (marked m)"
      using step by (intro reachable_from_absorb) auto
    with m' step show ?thesis by simp
  qed
qed

end

end
