(* ===== verification/OptDce.thy ===== *)
theory OptDce
  imports OptModule Worklist
begin

unbundle bit_operations_syntax

text \<open>
  internal/wasmopt/dce.go, the pass itself: \<open>EliminateDeadCode\<close>. It collects the roots, scans
  every body for the functions it refers to, marks what is reachable, and when something is
  unreachable rewrites the function, code, export, start and element sections with the index map
  of \<open>buildFunctionRemap\<close>. Go iterates over the map of roots in an unspecified order: \<open>iter\<close> is
  that order, and \<open>iteration iter\<close> says that it visits every key once.
\<close>

section \<open>Reachability\<close>

definition iteration :: "(u32 set \<Rightarrow> u32 list) \<Rightarrow> bool" where
  "iteration iter \<longleftrightarrow> (\<forall>S. set (iter S) = S \<and> distinct (iter S))"

text \<open>
  Marking and queueing an index, as both loops do it. \<open>reachable\<close> has length \<open>totalFuncs\<close>, so that
  \<open>unat v < length reachable\<close> is the guard \<open>v < totalFuncs\<close>.
\<close>

fun visit :: "u32 \<Rightarrow> bool list \<times> u32 list \<Rightarrow> bool list \<times> u32 list" where
  "visit v (reachable, queue) =
     (if unat v < length reachable \<and> \<not> reachable ! unat v
      then (reachable[unat v := True], queue @ [v]) else (reachable, queue))"

lemma visit_measure:
  "length (filter Not (fst (visit v s))) + length (snd (visit v s)) =
   length (filter Not (fst s)) + length (snd s)"
proof (cases s)
  case (Pair r q)
  show ?thesis
  proof (cases "unat v < length r \<and> \<not> r ! unat v")
    case True
    then obtain xs ys where r: "r = xs @ False # ys" and xs: "length xs = unat v"
      using id_take_nth_drop [of "unat v" r] by (metis (full_types) length_take min.absorb4)
    have "length (filter Not r) = Suc (length (filter Not (r[unat v := True])))"
      unfolding r xs [symmetric] by simp
    with True Pair show ?thesis by simp
  qed (use Pair in auto)
qed

lemma fold_visit_measure:
  "length (filter Not (fst (fold visit vs s))) + length (snd (fold visit vs s)) =
   length (filter Not (fst s)) + length (snd s)"
  by (induction vs arbitrary: s) (simp_all add: visit_measure)

function bfs :: "u32 \<Rightarrow> u32 list list \<Rightarrow> bool list \<Rightarrow> u32 list \<Rightarrow> bool list" where
  "bfs importedFuncCount edges reachable queue =
     (case queue of
       [] \<Rightarrow> reachable
     | cur # queue \<Rightarrow>
         if cur < importedFuncCount then bfs importedFuncCount edges reachable queue
         else if unat (cur - importedFuncCount) \<ge> length edges then
           bfs importedFuncCount edges reachable queue
         else
           let s = fold visit (edges ! unat (cur - importedFuncCount)) (reachable, queue)
           in bfs importedFuncCount edges (fst s) (snd s))"
  by pat_completeness auto
termination
  by (relation "measure (\<lambda>(imp, edges, reachable, queue). length (filter Not reachable) + length queue)")
    (auto simp: split_beta fold_visit_measure)

declare bfs.simps [simp del]

definition markFunctions ::
  "(u32 set \<Rightarrow> u32 list) \<Rightarrow> u32 \<Rightarrow> u32 \<Rightarrow> u32 list list \<Rightarrow> u32 set \<Rightarrow> bool list" where
  "markFunctions iter totalFuncs importedFuncCount edges roots =
     (let s = fold visit (iter roots) (replicate (unat totalFuncs) False, [])
      in bfs importedFuncCount edges (fst s) (snd s))"

section \<open>The index map\<close>

primrec newIndices :: "u32 \<Rightarrow> bool list \<Rightarrow> u32 list" where
  "newIndices next [] = []"
| "newIndices next (k # ks) =
     (if k then next # newIndices (next + 1) ks else 0 # newIndices next ks)"

definition buildFunctionRemap :: "u32 \<Rightarrow> bool list \<Rightarrow> remap \<times> bool" where
  "buildFunctionRemap importedFuncCount keep =
     ((\<lambda>old. if old < importedFuncCount then Some old
        else let def = unat (old - importedFuncCount) in
          if def \<ge> length keep \<or> \<not> keep ! def then None
          else Some (newIndices importedFuncCount keep ! def)), True)"

text \<open>The indices the loops over the kept functions go through.\<close>

definition kept_idxs :: "bool list \<Rightarrow> nat list" where
  "kept_idxs keep = filter (\<lambda>i. keep ! i) [0..<length keep]"

section \<open>The pass\<close>

record dce_report =
  OriginalDefinedFunctions :: nat
  KeptDefinedFunctions :: nat
  RemovedDefinedFunctions :: nat
  RemovedFunctionCount :: nat

definition no_report :: dce_report where
  "no_report = \<lparr>OriginalDefinedFunctions = 0, KeptDefinedFunctions = 0,
     RemovedDefinedFunctions = 0, RemovedFunctionCount = 0\<rparr>"

text \<open>A section the pass treats when it is there.\<close>

definition with_section ::
  "osection list \<Rightarrow> u8 \<Rightarrow> 'a \<Rightarrow> (bytes \<Rightarrow> (opt_error, 'a) outcome) \<Rightarrow> (opt_error, 'a) outcome" where
  "with_section sections i none f =
     (case opt_findSection sections i of None \<Rightarrow> Ok none | Some payload \<Rightarrow> f payload)"

definition collectRoots :: "osection list \<Rightarrow> (opt_error, u32 set) outcome" where
  "collectRoots sections =
     obind (with_section sections 7 {} (\<lambda>p.
       map_err (Context ''parse export section'') (parseExportFunctionRoots p))) (\<lambda>exportRoots.
     obind (with_section sections 8 {} (\<lambda>p.
       obind (map_err (Context ''parse start section'') (parseStartFunction p))
         (\<lambda>startIdx. Ok {startIdx}))) (\<lambda>startRoots.
     obind (with_section sections 9 {} (\<lambda>p.
       obind (map_err (Context ''parse element section'') (rewriteElementSection p identityMap True))
         (\<lambda>(elementRoots, _). Ok elementRoots))) (\<lambda>elementRoots.
       Ok (exportRoots \<union> startRoots \<union> elementRoots))))"

definition callEdges :: "bytes list \<Rightarrow> (opt_error, u32 list list) outcome" where
  "callEdges codeBodies =
     omap (\<lambda>i. obind (at_idx codeBodies i) (\<lambda>body.
         obind (map_err (ContextAt ''parse code body'' i) (rewriteCodeBody body identityMap))
           (\<lambda>(_, calls). Ok calls)))
       [0..<length codeBodies]"

text \<open>What the first half of the pass finds out about a module.\<close>

record analysis =
  a_imported :: u32
  a_types :: "u32 list"
  a_bodies :: "bytes list"
  a_roots :: "u32 set"
  a_edges :: "u32 list list"
  a_keep :: "bool list"

definition keptFunctions :: "u32 \<Rightarrow> bool list \<Rightarrow> nat \<Rightarrow> (opt_error, bool list) outcome" where
  "keptFunctions imported reachable n =
     omap (\<lambda>i. at_idx reachable (unat (imported + of_nat i))) [0..<n]"

definition analyse ::
  "(u32 set \<Rightarrow> u32 list) \<Rightarrow> osection list \<Rightarrow> bytes \<Rightarrow> bytes \<Rightarrow> (opt_error, analysis) outcome" where
  "analyse iter sections functionPayload codePayload =
     obind (map_err (Context ''parse import section'') (parseImportedFunctionCount
       (case opt_findSection sections 2 of Some p \<Rightarrow> p | None \<Rightarrow> []))) (\<lambda>imported.
     obind (map_err (Context ''parse function section'') (parseFunctionSection functionPayload))
       (\<lambda>types.
     obind (map_err (Context ''parse code section'') (parseCodeSection codePayload)) (\<lambda>bodies.
       if length types \<noteq> length bodies then
         Err (FunctionCodeMismatch (length types) (length bodies))
       else obind (collectRoots sections) (\<lambda>roots.
         obind (callEdges bodies) (\<lambda>edges.
         let totalFuncs = imported + of_nat (length bodies);
             reachable = markFunctions iter totalFuncs imported edges roots
         in obind (keptFunctions imported reachable (length bodies)) (\<lambda>keep.
           Ok \<lparr>a_imported = imported, a_types = types, a_bodies = bodies,
             a_roots = roots, a_edges = edges, a_keep = keep\<rparr>))))))"

definition report_of :: "analysis \<Rightarrow> dce_report" where
  "report_of a = (let n = length (a_bodies a); keptCount = length (filter id (a_keep a)) in
     \<lparr>OriginalDefinedFunctions = n, KeptDefinedFunctions = keptCount,
      RemovedDefinedFunctions = n - keptCount, RemovedFunctionCount = n - keptCount\<rparr>)"

text \<open>The type indices and the rewritten bodies of the functions that are kept.\<close>

definition rewriteKept :: "analysis \<Rightarrow> remap \<Rightarrow> (opt_error, (u32 \<times> bytes) list) outcome" where
  "rewriteKept a newIndex =
     omap (\<lambda>i. obind (at_idx (a_types a) i) (\<lambda>t. obind (at_idx (a_bodies a) i) (\<lambda>body.
         obind (map_err (ContextAt ''rewrite code body'' i) (rewriteCodeBody body newIndex))
           (\<lambda>(rebuiltBody, _). Ok (t, rebuiltBody)))))
       (kept_idxs (a_keep a))"

definition replace_section ::
  "osection list \<Rightarrow> u8 \<Rightarrow> (bytes \<Rightarrow> (opt_error, bytes) outcome) \<Rightarrow> (opt_error, bytes option) outcome" where
  "replace_section sections i f =
     with_section sections i None (\<lambda>p. obind (f p) (\<lambda>out. Ok (Some out)))"

definition rewriteModule :: "osection list \<Rightarrow> analysis \<Rightarrow> (opt_error, bytes) outcome" where
  "rewriteModule sections a =
     (let (newIndex, ok) = buildFunctionRemap (a_imported a) (a_keep a) in
      if \<not> ok then Err InvalidRemap
      else obind (rewriteKept a newIndex) (\<lambda>kept.
        obind (replace_section sections 7 (\<lambda>p.
          map_err (Context ''rewrite export section'') (rewriteExportSection p newIndex))) (\<lambda>rexport.
        obind (replace_section sections 8 (\<lambda>p.
          map_err (Context ''rewrite start section'') (rewriteStartSection p newIndex))) (\<lambda>rstart.
        obind (replace_section sections 9 (\<lambda>p.
          obind (map_err (Context ''rewrite element section'') (rewriteElementSection p newIndex False))
            (\<lambda>(_, out). Ok out))) (\<lambda>relement.
          Ok (rebuildModule sections (\<lambda>i.
            if i = 3 then Some (encodeFunctionSection (map fst kept))
            else if i = 10 then Some (encodeCodeSection (map snd kept))
            else if i = 7 then rexport else if i = 8 then rstart
            else if i = 9 then relement else None)))))))"

definition EliminateDeadCode ::
  "(u32 set \<Rightarrow> u32 list) \<Rightarrow> bytes \<Rightarrow> (opt_error, bytes \<times> dce_report) outcome" where
  "EliminateDeadCode iter module =
     obind (parseSections module) (\<lambda>sections.
       case (opt_findSection sections 3, opt_findSection sections 10) of
         (Some functionPayload, Some codePayload) \<Rightarrow>
           obind (analyse iter sections functionPayload codePayload) (\<lambda>a.
             if RemovedDefinedFunctions (report_of a) = 0 then Ok (module, report_of a)
             else obind (rewriteModule sections a) (\<lambda>optimized. Ok (optimized, report_of a)))
       | _ \<Rightarrow> Ok (module, no_report))"

section \<open>Marking is reachability\<close>

definition marked :: "bool list \<Rightarrow> u32 set" where
  "marked reachable = {v. unat v < length reachable \<and> reachable ! unat v}"

text \<open>The functions \<open>v\<close> calls, among the \<open>n\<close> functions of the module.\<close>

definition callees :: "u32 \<times> u32 list list \<times> nat \<Rightarrow> u32 \<Rightarrow> u32 set" where
  "callees g v = (case g of (imported, edges, n) \<Rightarrow>
     if v < imported \<or> unat (v - imported) \<ge> length edges then {}
     else {t \<in> set (edges ! unat (v - imported)). unat t < n})"

lemma marked_update:
  "unat v < length r \<Longrightarrow> marked (r[unat v := True]) = insert v (marked r)"
  by (auto simp: marked_def nth_list_update word_unat_eq_iff)

lemma fold_visit:
  "fold visit vs (r, q) = (r', q') \<Longrightarrow> length r' = length r \<and>
    marked r' = marked r \<union> {t \<in> set vs. unat t < length r} \<and>
    (\<exists>new. q' = q @ new \<and> set new = {t \<in> set vs. unat t < length r} - marked r \<and> distinct new)"
proof (induction vs arbitrary: r q)
  case Nil
  then show ?case by simp
next
  case (Cons v vs)
  show ?case
  proof (cases "unat v < length r \<and> \<not> r ! unat v")
    case True
    then have m: "marked (r[unat v := True]) = insert v (marked r)" "v \<notin> marked r"
      by (simp add: marked_update, simp add: marked_def)
    from Cons.prems True have "fold visit vs (r[unat v := True], q @ [v]) = (r', q')" by simp
    from Cons.IH [OF this] obtain new where "length r' = length r"
      "marked r' = insert v (marked r) \<union> {t \<in> set vs. unat t < length r}" "q' = (q @ [v]) @ new"
      "set new = {t \<in> set vs. unat t < length r} - insert v (marked r)" "distinct new"
      using m by auto
    with True m show ?thesis by (intro conjI exI [of _ "v # new"]) auto
  next
    case False
    then have "visit v (r, q) = (r, q)" by auto
    then have "fold visit vs (r, q) = (r', q')" using Cons.prems by (simp del: visit.simps)
    from Cons.IH [OF this] obtain new where "length r' = length r"
      "marked r' = marked r \<union> {t \<in> set vs. unat t < length r}" "q' = q @ new"
      "set new = {t \<in> set vs. unat t < length r} - marked r" "distinct new" by blast
    moreover have "unat v < length r \<Longrightarrow> v \<in> marked r" using False by (simp add: marked_def)
    ultimately show ?thesis by (intro conjI exI [of _ new]) auto
  qed
qed

interpretation opt_bfs: worklist marked callees
  "\<lambda>(imported, edges, n) reachable queue. bfs imported edges reachable queue"
  "\<lambda>(imported, edges, n) reachable. length reachable = n"
proof (unfold_locales, goal_cases)
  case (1 g m)
  then show ?case by (cases g) (simp add: bfs.simps)
next
  case (2 g m v vs)
  obtain imported es n where g: "g = (imported, es, n)" by (cases g)
  let ?ts = "if v < imported \<or> unat (v - imported) \<ge> length es then [] else es ! unat (v - imported)"
  obtain m' q' where s: "fold visit ?ts (m, vs) = (m', q')" by (cases "fold visit ?ts (m, vs)")
  from fold_visit [OF this] obtain new where f: "length m' = length m" "q' = vs @ new"
    "marked m' = marked m \<union> {t \<in> set ?ts. unat t < length m}"
    "set new = {t \<in> set ?ts. unat t < length m} - marked m" "distinct new" by blast
  have "bfs imported es m (v # vs) = bfs imported es m' q'"
    using s by (subst bfs.simps) (auto simp: Let_def split: if_splits)
  moreover have "callees g v = {t \<in> set ?ts. unat t < length m}"
    using 2 g by (auto simp: callees_def)
  ultimately show ?case using f 2 g by (intro exI [of _ m'] exI [of _ new]) simp
qed

lemma markFunctions_marked:
  assumes "iteration iter"
  shows "marked (markFunctions iter tot imported es rs) =
      reachable_from (callees (imported, es, unat tot)) {r \<in> rs. unat r < unat tot} \<and>
    length (markFunctions iter tot imported es rs) = unat tot"
proof -
  obtain m q where s: "fold visit (iter rs) (replicate (unat tot) False, []) = (m, q)"
    by (cases "fold visit (iter rs) (replicate (unat tot) False, [])")
  have none: "marked (replicate (unat tot) False) = {}" by (auto simp: marked_def)
  from fold_visit [OF s] assms have "length m = unat tot"
    and m: "marked m = {r \<in> rs. unat r < unat tot}" "set q = marked m"
    by (auto simp: iteration_def none)
  then show ?thesis
    using opt_bfs.run_marks [of "(imported, es, unat tot)" m q] s by (simp add: markFunctions_def)
qed

section \<open>The index map\<close>

definition rank :: "bool list \<Rightarrow> nat \<Rightarrow> nat" where
  "rank keep d = length (filter id (take d keep))"

lemma rank_le: "rank keep d \<le> d"
  unfolding rank_def by (metis length_filter_le length_take min.bounded_iff)

lemma rank_Suc: "d < length ks \<Longrightarrow> rank ks (Suc d) = rank ks d + (if ks ! d then 1 else 0)"
  by (simp add: rank_def take_Suc_conv_app_nth)

lemma rank_mono: "d \<le> e \<Longrightarrow> rank ks d \<le> rank ks e"
proof -
  assume "d \<le> e"
  then have "take e ks = take d ks @ take (e - d) (drop d ks)"
    by (metis le_add_diff_inverse take_add)
  then show ?thesis by (simp add: rank_def)
qed

lemma rank_strict: "d < e \<Longrightarrow> d < length ks \<Longrightarrow> ks ! d \<Longrightarrow> rank ks d < rank ks e"
  using rank_mono [of "Suc d" e ks] rank_Suc [of d ks] by simp

lemma newIndices_nth:
  "d < length ks \<Longrightarrow> ks ! d \<Longrightarrow> newIndices next ks ! d = next + of_nat (rank ks d)"
proof (induction ks arbitrary: "next" d)
  case Nil
  then show ?case by simp
next
  case (Cons k ks)
  then show ?case by (cases d) (auto simp: rank_def)
qed

lemma newIndex_Some:
  "fst (buildFunctionRemap imp ks) c = Some d \<longleftrightarrow>
    (if c < imp then d = c
     else unat (c - imp) < length ks \<and> ks ! unat (c - imp) \<and> d = imp + of_nat (rank ks (unat (c - imp))))"
  by (auto simp: buildFunctionRemap_def Let_def newIndices_nth)

lemma unat_diff_u32: "\<not> c < (imp :: u32) \<Longrightarrow> unat (c - imp) = unat c - unat imp"
  by (simp add: unat_sub not_less)

lemma newIndex_unat:
  assumes "fst (buildFunctionRemap imp ks) c = Some d" and "\<not> c < imp"
  shows "unat d = unat imp + rank ks (unat c - unat imp)"
    and "unat c - unat imp < length ks" and "ks ! (unat c - unat imp)"
proof -
  let ?i = "unat (c - imp)"
  from assms have d: "d = imp + of_nat (rank ks ?i)" "?i < length ks" "ks ! ?i"
    by (simp_all add: newIndex_Some)
  have i: "?i = unat c - unat imp" "unat imp \<le> unat c"
    using assms(2) by (simp_all add: unat_diff_u32 word_less_nat_alt)
  have "rank ks ?i \<le> unat c - unat imp" using rank_le [of ks ?i] i by simp
  then have "unat imp + rank ks ?i \<le> unat c" using i by simp
  then have "unat imp + rank ks ?i < 2 ^ 32" using unat_u32_less [of c] by (rule order_le_less_trans)
  then have "unat (imp + of_nat (rank ks ?i)) = unat imp + rank ks ?i"
    by (simp add: unat_word_ariths unat_of_nat take_bit_eq_mod)
  with d i show "unat d = unat imp + rank ks (unat c - unat imp)"
    and "unat c - unat imp < length ks" and "ks ! (unat c - unat imp)" by simp_all
qed

lemma newIndex_shrinks: "shrinks (fst (buildFunctionRemap imp ks))"
  unfolding shrinks_def
proof (intro allI impI)
  fix c d assume s: "fst (buildFunctionRemap imp ks) c = Some d"
  show "d \<le> c"
  proof (cases "c < imp")
    case True
    with s show ?thesis by (simp add: newIndex_Some)
  next
    case False
    with newIndex_unat [OF s] rank_le [of ks "unat c - unat imp"] show ?thesis
      by (simp add: word_le_nat_alt word_less_nat_alt)
  qed
qed

text \<open>The map keeps the order of the functions, so that it is injective.\<close>

lemma newIndex_strict_mono:
  assumes c: "fst (buildFunctionRemap imp ks) c = Some c'"
    and d: "fst (buildFunctionRemap imp ks) d = Some d'" and "c < d"
  shows "c' < d'"
proof (cases "d < imp")
  case True
  with assms show ?thesis by (simp add: newIndex_Some)
next
  case d_local: False
  note d = newIndex_unat [OF d d_local]
  show ?thesis
  proof (cases "c < imp")
    case True
    with c d(1) show ?thesis by (simp add: newIndex_Some word_less_nat_alt)
  next
    case False
    note c = newIndex_unat [OF c False]
    have "unat c - unat imp < unat d - unat imp"
      using \<open>c < d\<close> False by (simp add: word_less_nat_alt)
    then have "rank ks (unat c - unat imp) < rank ks (unat d - unat imp)"
      using c by (intro rank_strict)
    with c d show ?thesis by (simp add: word_less_nat_alt)
  qed
qed

lemma newIndex_inj:
  "fst (buildFunctionRemap imp ks) c = Some e \<Longrightarrow> fst (buildFunctionRemap imp ks) d = Some e \<Longrightarrow> c = d"
  using newIndex_strict_mono by (metis less_irrefl linorder_less_linear)

lemma kept_idxs_take: "d \<le> length ks \<Longrightarrow> length (filter (\<lambda>i. ks ! i) [0..<d]) = rank ks d"
  by (induction d) (auto simp: rank_Suc, simp add: rank_def)

lemma length_kept_idxs: "length (kept_idxs ks) = rank ks (length ks)"
  by (simp add: kept_idxs_def kept_idxs_take)

lemma kept_idxs_rank:
  assumes "d < length ks" and "ks ! d"
  shows "rank ks d < length (kept_idxs ks) \<and> kept_idxs ks ! rank ks d = d"
proof -
  have "[0..<length ks] = [0..<d] @ d # [Suc d..<length ks]"
    using assms(1) by (metis upt_add_eq_append upt_conv_Cons le_add_diff_inverse less_imp_le le0)
  then have "kept_idxs ks = filter (\<lambda>i. ks ! i) [0..<d] @ d # filter (\<lambda>i. ks ! i) [Suc d..<length ks]"
    using assms(2) by (simp add: kept_idxs_def)
  moreover have "length (filter (\<lambda>i. ks ! i) [0..<d]) = rank ks d"
    using assms(1) by (intro kept_idxs_take) simp
  ultimately show ?thesis by (metis length_append length_Cons less_add_Suc1 add_Suc_right nth_append_length)
qed

section \<open>The sizes a module admits\<close>

lemma walkSections_loop_count:
  assumes "walkSections_loop data lim pos secs iss = Ok (secs', iss')"
    and "MaxSectionCount lim > 0" and "int (length secs) \<le> MaxSectionCount lim"
  shows "int (length secs') \<le> MaxSectionCount lim"
  using assms
proof (induction data lim pos secs iss rule: walkSections_loop.induct)
  case (1 data lim pos secs iss)
  show ?case
  proof (cases "pos < length data")
    case False
    with 1 show ?thesis by (subst (asm) walkSections_loop.simps) auto
  next
    case True
    with 1(2) obtain r where r: "nextSection data lim (length secs) pos = Ok r"
      by (subst (asm) walkSections_loop.simps) auto
    show ?thesis
    proof (cases r)
      case (Inl e)
      with r True 1(2-4) show ?thesis by (subst (asm) walkSections_loop.simps) auto
    next
      case (Inr s)
      then have "int (length secs) < MaxSectionCount lim"
        using r 1(3) by (auto simp: nextSection_def split: if_splits)
      moreover have "walkSections_loop data lim (PayloadOffset s + Size s) (secs @ [s]) iss = Ok (secs', iss')"
        using 1(2) True r Inr by (subst (asm) walkSections_loop.simps) auto
      ultimately show ?thesis using 1(1) [OF True r Inr] 1(3) by simp
    qed
  qed
qed

lemma section_at_encoding:
  assumes "section_at data s"
  shows "Offset s + 1 + length (encodeU32 (of_nat (Size s))) \<le> PayloadOffset s"
  using assms length_encode_read [of data "Offset s + 1" "of_nat (Size s)" _ "of_nat (Size s)"]
  by (fastforce simp: section_at_def)

lemma tiles_encoding:
  assumes "tiles p secs q" and "\<forall>s \<in> set secs. section_at data s"
    and "list_all2 (\<lambda>s o'. length (sec_payload o') = Size s) secs ss"
  shows "p + length (concat (map encode_section ss)) \<le> q"
  using assms
proof (induction secs arbitrary: p ss)
  case Nil
  then show ?case by simp
next
  case (Cons s secs)
  from Cons.prems(3) obtain x ss' where ss: "ss = x # ss'" "length (sec_payload x) = Size s"
    "list_all2 (\<lambda>s o'. length (sec_payload o') = Size s) secs ss'"
    by (auto simp: list_all2_Cons1)
  have "PayloadOffset s + Size s + length (concat (map encode_section ss')) \<le> q"
    using Cons ss by simp
  moreover have "p + length (encode_section x) \<le> PayloadOffset s + Size s"
    using section_at_encoding [of data s] Cons.prems ss by (simp add: encode_section_def)
  ultimately show ?case using ss by simp
qed

lemma parseSections_Ok:
  assumes "parseSections module = Ok ss"
  shows "length (wasmMagic @ concat (map encode_section ss)) \<le> length module"
    and "length ss \<le> 128" and "\<forall>s \<in> set ss. length (sec_payload s) < 2 ^ 32"
proof -
  from assms obtain secs where S: "Sections module DefaultLimits = Ok (secs, [])"
    and m: "omap (\<lambda>s. obind (gslice module (PayloadOffset s) (PayloadOffset s + Size s)) (\<lambda>p.
      Ok \<lparr>sec_id = ID s, sec_payload = p\<rparr>)) secs = (Ok ss :: (opt_error, osection list) outcome)"
    by (auto simp: parseSections_def split: if_splits)
  have at: "\<forall>s \<in> set secs. section_at module s" and t: "tiles 8 secs (length module)"
    using Sections_Ok [OF S] by auto
  have all: "list_all2 (\<lambda>s o'. length (sec_payload o') = Size s) secs ss"
    using m unfolding omap_Ok by (rule list_all2_mono) auto
  show "length (wasmMagic @ concat (map encode_section ss)) \<le> length module"
    using tiles_encoding [OF t at all] by simp
  have "int (length secs) \<le> 128"
    using S walkSections_loop_count [of module DefaultLimits 8 "[]"]
    by (auto simp: Sections_def walkSections_def DefaultLimits_def split: if_splits)
  then show "length ss \<le> 128" using list_all2_lengthD [OF all] by simp
  show "\<forall>s \<in> set ss. length (sec_payload s) < 2 ^ 32"
    using all at nth_mem
    by (fastforce simp: list_all2_conv_all_nth section_at_def in_set_conv_nth [of _ ss])
qed

lemma importEntry_bound: "importEntry payload pos = Ok (q, fn) \<Longrightarrow> pos + 4 \<le> q"
  by (auto simp: importEntry_def split: if_splits dest!: opt_skipName_bound skipImportDesc_bound)

lemma unat_suc_le: "unat (c + 1 :: u32) \<le> unat c + 1"
  unfolding unat_word_ariths by (rule order_trans [OF mod_less_eq_dividend]) simp

lemma importEntries_bound:
  "importEntries k payload pos c = Ok (q, c') \<Longrightarrow> pos + 4 * k \<le> q \<and> unat c' \<le> unat c + k"
proof (induction k arbitrary: pos c)
  case 0
  then show ?case by simp
next
  case (Suc k)
  from Suc.prems obtain p fn where e: "importEntry payload pos = Ok (p, fn)"
    and r: "importEntries k payload p (if fn then c + 1 else c) = Ok (q, c')" by auto
  have "unat (if fn then c + 1 else c) \<le> unat c + 1" using unat_suc_le [of c] by simp
  with Suc.IH [OF r] importEntry_bound [OF e] show ?case by auto
qed

lemma parseImportedFunctionCount_bound:
  "parseImportedFunctionCount payload = Ok c \<Longrightarrow> 4 * unat c \<le> length payload"
  by (fastforce simp: parseImportedFunctionCount_def split: if_splits dest: importEntries_bound)

lemma parseFunctionSection_length:
  "parseFunctionSection payload = Ok ts \<Longrightarrow>
    length (encodeU32 (of_nat (length ts))) + (\<Sum>t \<leftarrow> ts. length (encodeU32 t)) \<le> length payload \<and>
    length ts < 2 ^ 32"
  by (auto simp: parseFunctionSection_def split: if_splits
      dest!: functionEntries_size length_encode_read [OF _ order_refl])

lemma parseCodeSection_length:
  "parseCodeSection payload = Ok bs \<Longrightarrow>
    length (encodeU32 (of_nat (length bs))) +
      (\<Sum>b \<leftarrow> bs. length (encodeU32 (of_nat (length b))) + length b) \<le> length payload \<and>
    length bs < 2 ^ 32 \<and> (\<forall>b \<in> set bs. length b < 2 ^ 32)"
  by (auto simp: parseCodeSection_def split: if_splits
      dest!: codeEntries_size length_encode_read [OF _ order_refl])

lemma nonempty_bodies_sum:
  "\<forall>b \<in> set bs. b \<noteq> [] \<Longrightarrow>
    2 * length bs \<le> (\<Sum>b \<leftarrow> bs. length (encodeU32 (of_nat (length b))) + length b)"
proof (induction bs)
  case Nil
  then show ?case by simp
next
  case (Cons b bs)
  have "1 \<le> length (encodeU32 (of_nat (length b)))" "1 \<le> length b"
    using length_encodeU32 [of "of_nat (length b)"] Cons.prems by (auto simp: Suc_le_eq)
  with Cons show ?case by simp
qed

section \<open>What the analysis finds\<close>

lemma callEdges_Ok:
  "callEdges bodies = Ok es \<longleftrightarrow> length es = length bodies \<and>
    (\<forall>i < length bodies. \<exists>out. rewriteCodeBody (bodies ! i) identityMap = Ok (out, es ! i))"
  by (fastforce simp: callEdges_def omap_Ok list_all2_conv_all_nth)

lemma returns_callEdges [nopanic]: "returns (callEdges bodies)"
  unfolding callEdges_def by (auto intro!: nopanic)

lemma returns_with_section [nopanic]: "(\<And>p. returns (f p)) \<Longrightarrow> returns (with_section ss i z f)"
  by (simp add: with_section_def split: option.split)

lemma returns_collectRoots [nopanic]: "returns (collectRoots sections)"
  unfolding collectRoots_def by (auto intro!: nopanic)

lemma opt_findSection_in:
  "opt_findSection ss i = Some p \<Longrightarrow> \<exists>s \<in> set ss. sec_id s = i \<and> sec_payload s = p"
  by (auto simp: opt_findSection_def find_Some_iff)

text \<open>A module has too few bytes for its functions to be more than \<open>2 ^ 32\<close>.\<close>

lemma function_count_fits:
  assumes ss: "\<forall>s \<in> set ss. length (sec_payload s) < 2 ^ 32"
    and imp: "parseImportedFunctionCount (case opt_findSection ss 2 of Some p \<Rightarrow> p | None \<Rightarrow> []) = Ok imp"
    and cp: "opt_findSection ss 10 = Some cp" "parseCodeSection cp = Ok bodies"
    and es: "callEdges bodies = Ok es"
  shows "unat imp + length bodies < 2 ^ 32"
proof -
  have "length (case opt_findSection ss 2 of Some p \<Rightarrow> p | None \<Rightarrow> []) < 2 ^ 32"
    using ss by (auto split: option.split dest!: opt_findSection_in)
  then have 1: "4 * unat imp < 2 ^ 32"
    using parseImportedFunctionCount_bound [OF imp] by simp
  have "\<forall>b \<in> set bodies. b \<noteq> []"
    using es rewriteCodeBody_nonempty by (fastforce simp: callEdges_Ok in_set_conv_nth)
  then have "2 * length bodies \<le> length cp"
    using nonempty_bodies_sum [of bodies] parseCodeSection_length [OF cp(2)] by simp
  moreover have "length cp < 2 ^ 32" using ss cp by (auto dest: opt_findSection_in)
  ultimately show ?thesis using 1 by simp
qed

lemma unat_add_of_nat: "unat (imp :: u32) + n < 2 ^ 32 \<Longrightarrow> unat (imp + of_nat n) = unat imp + n"
  by (simp add: unat_word_ariths unat_of_nat take_bit_eq_mod)

lemma keptFunctions_Ok:
  assumes "length r = unat imp + n" and "unat imp + n < 2 ^ 32"
  shows "keptFunctions imp r n = Ok (map (\<lambda>i. r ! (unat imp + i)) [0..<n])"
  unfolding keptFunctions_def
  by (rule omap_total) (use assms in \<open>simp add: unat_add_of_nat\<close>)

lemma returns_analyse:
  assumes "iteration iter" and "\<forall>s \<in> set ss. length (sec_payload s) < 2 ^ 32"
    and "opt_findSection ss 10 = Some cp"
  shows "returns (analyse iter ss fp cp)"
  unfolding analyse_def Let_def
proof (intro nopanic; (simp add: nopanic; fail)?, goal_cases)
  case (1 imp types bodies roots es)
  then have "unat imp + length bodies < 2 ^ 32"
    using function_count_fits [OF assms(2) _ assms(3)] by simp
  then show ?case
    using markFunctions_marked [OF assms(1)]
    by (subst keptFunctions_Ok) (simp_all add: unat_add_of_nat)
qed

text \<open>\<open>analysed iter module ss a\<close>: the pass parses \<open>module\<close> as \<open>ss\<close> and finds out \<open>a\<close>.\<close>

definition analysed ::
  "(u32 set \<Rightarrow> u32 list) \<Rightarrow> bytes \<Rightarrow> osection list \<Rightarrow> analysis \<Rightarrow> bool" where
  "analysed iter module ss a \<longleftrightarrow> parseSections module = Ok ss \<and>
     (case opt_findSection ss 3 of None \<Rightarrow> False | Some fp \<Rightarrow>
      case opt_findSection ss 10 of None \<Rightarrow> False | Some cp \<Rightarrow> analyse iter ss fp cp = Ok a)"

lemma EliminateDeadCode_cases:
  assumes "EliminateDeadCode iter module = Ok (out, rep)"
  obtains (unchanged) "out = module" and "rep = no_report"
  | (all_live) ss a where "analysed iter module ss a" and "out = module" and "rep = report_of a"
      and "RemovedDefinedFunctions rep = 0"
  | (removed) ss a where "analysed iter module ss a" and "rewriteModule ss a = Ok out"
      and "rep = report_of a" and "RemovedDefinedFunctions rep \<noteq> 0"
proof -
  from assms obtain ss where ss: "parseSections module = Ok ss" by (auto simp: EliminateDeadCode_def)
  show thesis
  proof (cases "opt_findSection ss 3 = None \<or> opt_findSection ss 10 = None")
    case True
    with assms ss show thesis
      by (intro unchanged) (auto simp: EliminateDeadCode_def split: option.splits)
  next
    case False
    then obtain fp cp where "opt_findSection ss 3 = Some fp" "opt_findSection ss 10 = Some cp" by auto
    moreover from this assms ss obtain a where "analyse iter ss fp cp = Ok a"
      by (auto simp: EliminateDeadCode_def)
    ultimately have "analysed iter module ss a"
      and "(if RemovedDefinedFunctions (report_of a) = 0 then Ok (module, report_of a)
        else obind (rewriteModule ss a) (\<lambda>optimized. Ok (optimized, report_of a))) = Ok (out, rep)"
      using assms ss by (simp_all add: EliminateDeadCode_def analysed_def)
    note a = this
    show thesis
    proof (cases "RemovedDefinedFunctions (report_of a) = 0")
      case True
      then have "out = module" "rep = report_of a" using a(2) by auto
      with True show thesis using all_live [OF a(1)] by simp
    next
      case False
      with a(2) show thesis by (intro removed [OF a(1)]) auto
    qed
  qed
qed

text \<open>The functions of the analysed module that are reachable from its roots.\<close>

definition fn_count :: "analysis \<Rightarrow> nat" where
  "fn_count a = unat (a_imported a) + length (a_bodies a)"

definition live :: "analysis \<Rightarrow> u32 set" where
  "live a = reachable_from (callees (a_imported a, a_edges a, fn_count a))
     {r \<in> a_roots a. unat r < fn_count a}"

lemma analyse_Ok:
  assumes it: "iteration iter" and ss: "\<forall>s \<in> set ss. length (sec_payload s) < 2 ^ 32"
    and cp: "opt_findSection ss 10 = Some cp" and a: "analyse iter ss fp cp = Ok a"
  shows "fn_count a < 2 ^ 32" and "length (a_keep a) = length (a_bodies a)"
    and "length (a_types a) = length (a_bodies a)"
    and "\<And>i. i < length (a_bodies a) \<Longrightarrow> a_keep a ! i \<longleftrightarrow> a_imported a + of_nat i \<in> live a"
    and "parseFunctionSection fp = Ok (a_types a)" and "parseCodeSection cp = Ok (a_bodies a)"
    and "callEdges (a_bodies a) = Ok (a_edges a)" and "collectRoots ss = Ok (a_roots a)"
    and "parseImportedFunctionCount (case opt_findSection ss 2 of Some p \<Rightarrow> p | None \<Rightarrow> []) = Ok (a_imported a)"
proof -
  from a obtain imp types bodies rs es keep where
    imp: "parseImportedFunctionCount (case opt_findSection ss 2 of Some p \<Rightarrow> p | None \<Rightarrow> []) = Ok imp"
    and types: "parseFunctionSection fp = Ok types" and bodies: "parseCodeSection cp = Ok bodies"
    and len: "length types = length bodies" and rs: "collectRoots ss = Ok rs"
    and es: "callEdges bodies = Ok es"
    and keep: "keptFunctions imp (markFunctions iter (imp + of_nat (length bodies)) imp es rs)
      (length bodies) = Ok keep"
    and a': "a = \<lparr>a_imported = imp, a_types = types, a_bodies = bodies, a_roots = rs, a_edges = es,
      a_keep = keep\<rparr>"
    by (auto simp: analyse_def Let_def split: if_splits)
  have fits: "unat imp + length bodies < 2 ^ 32"
    by (rule function_count_fits [OF ss imp cp bodies es])
  let ?r = "markFunctions iter (imp + of_nat (length bodies)) imp es rs"
  have r: "length ?r = unat imp + length bodies" "marked ?r = live a"
    using markFunctions_marked [OF it] fits
    by (simp_all add: unat_add_of_nat live_def fn_count_def a')
  have k: "keep = map (\<lambda>i. ?r ! (unat imp + i)) [0..<length bodies]"
    using keep keptFunctions_Ok [OF r(1) fits] by simp
  show "fn_count a < 2 ^ 32" "length (a_keep a) = length (a_bodies a)"
    "length (a_types a) = length (a_bodies a)" "parseFunctionSection fp = Ok (a_types a)"
    "parseCodeSection cp = Ok (a_bodies a)" "callEdges (a_bodies a) = Ok (a_edges a)"
    "collectRoots ss = Ok (a_roots a)"
    "parseImportedFunctionCount (case opt_findSection ss 2 of Some p \<Rightarrow> p | None \<Rightarrow> []) = Ok (a_imported a)"
    using fits k len imp types bodies rs es by (simp_all add: a' fn_count_def)
  fix i assume "i < length (a_bodies a)"
  moreover from this have "unat (imp + of_nat i) = unat imp + i"
    using fits a' by (intro unat_add_of_nat) simp
  ultimately have "imp + of_nat i \<in> marked ?r \<longleftrightarrow> keep ! i"
    using r(1) k by (simp add: a' marked_def)
  then show "a_keep a ! i \<longleftrightarrow> a_imported a + of_nat i \<in> live a"
    by (simp add: r(2)) (simp add: a')
qed

lemma analysed_Ok:
  assumes "iteration iter" and "analysed iter module ss a"
  shows "fn_count a < 2 ^ 32" and "length (a_keep a) = length (a_bodies a)"
    and "length (a_types a) = length (a_bodies a)"
    and "\<And>i. i < length (a_bodies a) \<Longrightarrow> a_keep a ! i \<longleftrightarrow> a_imported a + of_nat i \<in> live a"
    and "callEdges (a_bodies a) = Ok (a_edges a)" and "collectRoots ss = Ok (a_roots a)"
    and "\<exists>fp. opt_findSection ss 3 = Some fp \<and> parseFunctionSection fp = Ok (a_types a)"
    and "\<exists>cp. opt_findSection ss 10 = Some cp \<and> parseCodeSection cp = Ok (a_bodies a)"
    and "parseSections module = Ok ss"
    and "parseImportedFunctionCount (case opt_findSection ss 2 of Some p \<Rightarrow> p | None \<Rightarrow> []) = Ok (a_imported a)"
proof -
  from assms(2) obtain fp cp where p: "parseSections module = Ok ss"
    and f: "opt_findSection ss 3 = Some fp" "opt_findSection ss 10 = Some cp"
    and a: "analyse iter ss fp cp = Ok a"
    by (auto simp: analysed_def split: option.splits)
  note A = analyse_Ok [OF assms(1) parseSections_Ok(3) [OF p] f(2) a]
  show "fn_count a < 2 ^ 32" "length (a_keep a) = length (a_bodies a)"
    "length (a_types a) = length (a_bodies a)"
    "\<And>i. i < length (a_bodies a) \<Longrightarrow> a_keep a ! i \<longleftrightarrow> a_imported a + of_nat i \<in> live a"
    "callEdges (a_bodies a) = Ok (a_edges a)" "collectRoots ss = Ok (a_roots a)"
    "\<exists>fp. opt_findSection ss 3 = Some fp \<and> parseFunctionSection fp = Ok (a_types a)"
    "\<exists>cp. opt_findSection ss 10 = Some cp \<and> parseCodeSection cp = Ok (a_bodies a)"
    "parseSections module = Ok ss"
    "parseImportedFunctionCount (case opt_findSection ss 2 of Some p \<Rightarrow> p | None \<Rightarrow> []) = Ok (a_imported a)"
    using A p f by auto
qed

section \<open>The pass never panics\<close>

lemma returns_rewriteKept:
  "length (a_keep a) = length (a_bodies a) \<Longrightarrow> length (a_types a) = length (a_bodies a) \<Longrightarrow>
    returns (rewriteKept a f)"
  unfolding rewriteKept_def by (intro nopanic) (auto simp: kept_idxs_def)

lemma returns_rewriteModule:
  assumes "length (a_keep a) = length (a_bodies a)" and "length (a_types a) = length (a_bodies a)"
  shows "returns (rewriteModule ss a)"
  unfolding rewriteModule_def Let_def split_beta replace_section_def
  by (intro nopanic returns_rewriteKept assms) (simp_all add: returns_with_section)

lemma returns_EliminateDeadCode:
  assumes "iteration iter"
  shows "returns (EliminateDeadCode iter module)"
proof (cases "parseSections module")
  case (Ok ss)
  note small = parseSections_Ok(3) [OF Ok]
  show ?thesis
    unfolding EliminateDeadCode_def Ok
    by (auto split: option.split intro!: nopanic returns_analyse [OF assms small]
        returns_rewriteModule analyse_Ok [OF assms small])
qed (use returns_parseSections [of module] in \<open>auto simp: EliminateDeadCode_def\<close>)

section \<open>Map iteration order\<close>

lemma markFunctions_iteration:
  assumes "iteration iter" and "iteration iter'"
  shows "markFunctions iter n imp es rs = markFunctions iter' n imp es rs"
proof (rule nth_equalityI)
  note m = markFunctions_marked [OF assms(1), of n imp es rs]
    markFunctions_marked [OF assms(2), of n imp es rs]
  then show "length (markFunctions iter n imp es rs) = length (markFunctions iter' n imp es rs)" by simp
  fix i assume i: "i < length (markFunctions iter n imp es rs)"
  with m have "i < unat n" by simp
  then have "i < 2 ^ 32" using unat_u32_less by (rule order_less_trans)
  then have "unat (of_nat i :: u32) = i" by (rule unat_of_nat_u32)
  moreover have "of_nat i \<in> marked (markFunctions iter n imp es rs) \<longleftrightarrow>
      of_nat i \<in> marked (markFunctions iter' n imp es rs)" using m by simp
  ultimately show "markFunctions iter n imp es rs ! i = markFunctions iter' n imp es rs ! i"
    using m i by (simp add: marked_def)
qed

text \<open>The result of EliminateDeadCode does not depend on the order in which Go iterates over
  the map of roots.\<close>

theorem EliminateDeadCode_iteration:
  assumes "iteration iter" and "iteration iter'"
  shows "EliminateDeadCode iter module = EliminateDeadCode iter' module"
proof -
  have "analyse iter = analyse iter'"
    unfolding analyse_def [abs_def] markFunctions_iteration [OF assms] ..
  then show ?thesis unfolding EliminateDeadCode_def by (rule arg_cong)
qed

end
