(* ===== verification/OptCorrect.thy ===== *)
theory OptCorrect
  imports OptDce
begin

unbundle bit_operations_syntax

text \<open>
  What \<open>EliminateDeadCode\<close> (internal/wasmopt/dce.go) guarantees: the module it writes parses into
  the sections of its input, with exactly the live functions in their old order and every function
  index mapped; it is not longer than its input; the pass succeeds on every module whose indices
  are those of its functions, and a second pass removes nothing.
\<close>

section \<open>The module that is written\<close>

lemma opt_findSection_replace:
  "opt_findSection (replace_sections repl used ss) i = (case opt_findSection ss i of None \<Rightarrow> None
    | Some p \<Rightarrow> Some (if i \<noteq> 0 \<and> i \<notin> used then (case repl i of Some r \<Rightarrow> r | None \<Rightarrow> p) else p))"
proof (induction repl used ss rule: replace_sections.induct)
  case (1 repl used)
  then show ?case by (simp add: opt_findSection_def)
next
  case (2 repl used s ss)
  then show ?case
    by (cases "sec_id s = i") (auto simp: opt_findSection_def split: option.splits)
qed

lemma map_sec_id_replace: "map sec_id (replace_sections repl used ss) = map sec_id ss"
  by (induction repl used ss rule: replace_sections.induct) (auto split: option.split)

definition fits_section :: "osection list \<Rightarrow> u8 \<Rightarrow> bytes option \<Rightarrow> bool" where
  "fits_section ss i r \<longleftrightarrow> (\<forall>p r'. opt_findSection ss i = Some p \<longrightarrow> r = Some r' \<longrightarrow> length r' \<le> length p)"

lemma replace_sections_size:
  assumes "\<forall>i. i \<notin> used \<longrightarrow> i \<noteq> 0 \<longrightarrow> fits_section ss i (repl i)"
    and "\<forall>s \<in> set ss. length (sec_payload s) < 2 ^ 32"
  shows "length (concat (map encode_section (replace_sections repl used ss)))
    \<le> length (concat (map encode_section ss))"
  using assms
proof (induction repl used ss rule: replace_sections.induct)
  case (1 repl used)
  then show ?case by simp
next
  case (2 repl used s ss)
  have shorter: "length (encode_section (s\<lparr>sec_payload := r\<rparr>)) \<le> length (encode_section s)"
    if "length r \<le> length (sec_payload s)" for r
    using that length_encode_nat_mono [OF that] 2(4) by (simp add: encode_section_def)
  have rest: "fits_section ss i (repl i)" if "i \<notin> used" "i \<noteq> 0" "i \<noteq> sec_id s" for i
    using 2(3) that by (auto simp: fits_section_def opt_findSection_def)
  show ?case
  proof (cases "sec_id s \<noteq> 0 \<and> sec_id s \<notin> used")
    case True
    then have "length (concat (map encode_section (replace_sections repl (insert (sec_id s) used) ss)))
        \<le> length (concat (map encode_section ss))"
      using 2(1) [OF True] rest 2(4) by simp
    moreover have "length r \<le> length (sec_payload s)" if "repl (sec_id s) = Some r" for r
      using 2(3) True that by (auto simp: fits_section_def opt_findSection_def)
    ultimately show ?thesis
      using True shorter by (auto split: option.split intro: add_mono)
  next
    case False
    then have "fits_section ss i (repl i)" if "i \<notin> used" "i \<noteq> 0" for i
      using rest that by auto
    with 2(2) [OF False] 2(4) False show ?thesis by auto
  qed
qed

lemma sum_kept_le: "(\<Sum>i \<leftarrow> kept_idxs ks. g i) \<le> (\<Sum>i \<leftarrow> [0..<length ks]. g i :: nat)"
  unfolding kept_idxs_def by (rule sum_list_filter_le_nat)

lemma map_nth_upt: "map (\<lambda>i. g (xs ! i)) [0..<length xs] = map g xs"
  by (rule nth_equalityI) simp_all

lemma rewriteKept_Ok:
  "rewriteKept a f = Ok kept \<longleftrightarrow> length kept = length (kept_idxs (a_keep a)) \<and>
    (\<forall>j < length kept. let i = kept_idxs (a_keep a) ! j in
      i < length (a_types a) \<and> i < length (a_bodies a) \<and> fst (kept ! j) = a_types a ! i \<and>
      (\<exists>calls. rewriteCodeBody (a_bodies a ! i) f = Ok (snd (kept ! j), calls)))"
proof -
  have one: "obind (at_idx (a_types a) i) (\<lambda>t. obind (at_idx (a_bodies a) i) (\<lambda>body.
      obind (map_err (ContextAt ''rewrite code body'' i) (rewriteCodeBody body f))
        (\<lambda>(rebuiltBody, _). Ok (t, rebuiltBody)))) = Ok k \<longleftrightarrow>
      i < length (a_types a) \<and> i < length (a_bodies a) \<and> fst k = a_types a ! i \<and>
      (\<exists>calls. rewriteCodeBody (a_bodies a ! i) f = Ok (snd k, calls))" for i k
    by (cases k) auto
  show ?thesis
    unfolding rewriteKept_def omap_Ok one list_all2_conv_all_nth Let_def by auto
qed

lemma rewriteKept_types:
  "rewriteKept a f = Ok kept \<Longrightarrow> map fst kept = map (\<lambda>i. a_types a ! i) (kept_idxs (a_keep a))"
  by (rule nth_equalityI) (auto simp: rewriteKept_Ok Let_def)

text \<open>The sections of the written module are no longer than those they replace.\<close>

lemma length_kept_le: "length (kept_idxs ks) \<le> length ks"
  using rank_le [of ks "length ks"] by (simp add: length_kept_idxs)

lemma kept_idxs_less: "i \<in> set (kept_idxs ks) \<Longrightarrow> i < length ks"
  by (simp add: kept_idxs_def)

lemma function_section_size:
  assumes "length ts = length ks" and "length ts < 2 ^ 32"
  shows "length (encodeFunctionSection (map (\<lambda>i. ts ! i) (kept_idxs ks)))
    \<le> length (encodeU32 (of_nat (length ts))) + (\<Sum>t \<leftarrow> ts. length (encodeU32 t))"
proof -
  have "(\<Sum>i \<leftarrow> kept_idxs ks. length (encodeU32 (ts ! i))) \<le> (\<Sum>t \<leftarrow> ts. length (encodeU32 t))"
    using sum_kept_le [of "\<lambda>i. length (encodeU32 (ts ! i))" ks] assms(1)
    by (simp flip: map_nth_upt [of "\<lambda>t. length (encodeU32 t)" ts])
  moreover have "length (encodeU32 (of_nat (length (kept_idxs ks)))) \<le> length (encodeU32 (of_nat (length ts)))"
    using length_kept_le [of ks] assms by (intro length_encode_nat_mono) auto
  ultimately show ?thesis by (simp add: encodeFunctionSection_def length_concat o_def)
qed

lemma code_section_size:
  assumes r: "rewriteKept a f = Ok kept" and f: "shrinks f"
    and len: "length (a_bodies a) = length (a_keep a)" "length (a_bodies a) < 2 ^ 32"
    and small: "\<forall>b \<in> set (a_bodies a). length b < 2 ^ 32"
  shows "length (encodeCodeSection (map snd kept)) \<le> length (encodeU32 (of_nat (length (a_bodies a)))) +
    (\<Sum>b \<leftarrow> a_bodies a. length (encodeU32 (of_nat (length b))) + length b)"
proof -
  let ?g = "\<lambda>b :: bytes. length (encodeU32 (of_nat (length b))) + length b"
  let ?idx = "kept_idxs (a_keep a)"
  have klen: "length kept = length ?idx" using r by (simp add: rewriteKept_Ok)
  have each: "?g (snd (kept ! j)) \<le> ?g (a_bodies a ! (?idx ! j))" if j: "j < length kept" for j
  proof -
    from r j obtain calls where i: "?idx ! j < length (a_bodies a)"
      and b: "rewriteCodeBody (a_bodies a ! (?idx ! j)) f = Ok (snd (kept ! j), calls)"
      by (auto simp: rewriteKept_Ok Let_def)
    show ?thesis
      using rewriteCodeBody_size [OF b f] small i
      by (intro add_mono length_encode_nat_mono) auto
  qed
  have "(\<Sum>k \<leftarrow> kept. ?g (snd k)) = (\<Sum>j \<leftarrow> [0..<length kept]. ?g (snd (kept ! j)))"
    by (simp add: map_nth_upt [of "\<lambda>k. ?g (snd k)" kept])
  also have "\<dots> \<le> (\<Sum>j \<leftarrow> [0..<length ?idx]. ?g (a_bodies a ! (?idx ! j)))"
    unfolding klen [symmetric] by (rule sum_list_mono) (use each in auto)
  also have "\<dots> = (\<Sum>i \<leftarrow> ?idx. ?g (a_bodies a ! i))"
    by (simp add: map_nth_upt [of "\<lambda>i. ?g (a_bodies a ! i)" ?idx])
  also have "\<dots> \<le> (\<Sum>b \<leftarrow> a_bodies a. ?g b)"
    using sum_kept_le [of "\<lambda>i. ?g (a_bodies a ! i)" "a_keep a"] len(1)
    by (simp flip: map_nth_upt [of ?g "a_bodies a"])
  finally have "(\<Sum>k \<leftarrow> kept. ?g (snd k)) \<le> (\<Sum>b \<leftarrow> a_bodies a. ?g b)" .
  moreover have "length (encodeU32 (of_nat (length kept))) \<le> length (encodeU32 (of_nat (length (a_bodies a))))"
    using length_kept_le [of "a_keep a"] klen len by (intro length_encode_nat_mono) auto
  ultimately show ?thesis by (simp add: encodeCodeSection_def length_concat o_def)
qed

abbreviation newIndex_of :: "analysis \<Rightarrow> remap" where
  "newIndex_of a \<equiv> fst (buildFunctionRemap (a_imported a) (a_keep a))"

lemma replace_section_Ok:
  "replace_section ss i f = Ok r \<longleftrightarrow> (case opt_findSection ss i of None \<Rightarrow> r = None
    | Some p \<Rightarrow> \<exists>out. f p = Ok out \<and> r = Some out)"
  by (auto simp: replace_section_def with_section_def split: option.split)

lemma rewriteModule_Ok:
  assumes "rewriteModule ss a = Ok out"
  obtains kept repl where "rewriteKept a (newIndex_of a) = Ok kept" and "out = rebuildModule ss repl"
    and "repl 3 = Some (encodeFunctionSection (map fst kept))"
    and "repl 10 = Some (encodeCodeSection (map snd kept))"
    and "\<And>p. opt_findSection ss 7 = Some p \<Longrightarrow> \<exists>r. rewriteExportSection p (newIndex_of a) = Ok r \<and> repl 7 = Some r"
    and "\<And>p. opt_findSection ss 8 = Some p \<Longrightarrow> \<exists>r. rewriteStartSection p (newIndex_of a) = Ok r \<and> repl 8 = Some r"
    and "\<And>p. opt_findSection ss 9 = Some p \<Longrightarrow>
      \<exists>r R. rewriteElementSection p (newIndex_of a) False = Ok (R, r) \<and> repl 9 = Some r"
    and "\<And>i. i \<notin> {3, 7, 8, 9, 10} \<Longrightarrow> repl i = None"
proof -
  let ?f = "newIndex_of a"
  have "snd (buildFunctionRemap (a_imported a) (a_keep a))" by (simp add: buildFunctionRemap_def)
  with assms obtain kept r7 r8 r9 where kept: "rewriteKept a ?f = Ok kept"
    and r7: "replace_section ss 7 (\<lambda>p.
        map_err (Context ''rewrite export section'') (rewriteExportSection p ?f)) = Ok r7"
    and r8: "replace_section ss 8 (\<lambda>p.
        map_err (Context ''rewrite start section'') (rewriteStartSection p ?f)) = Ok r8"
    and r9: "replace_section ss 9 (\<lambda>p.
        obind (map_err (Context ''rewrite element section'') (rewriteElementSection p ?f False))
          (\<lambda>(_, out). Ok out)) = Ok r9"
    and out: "out = rebuildModule ss (\<lambda>i.
        if i = 3 then Some (encodeFunctionSection (map fst kept))
        else if i = 10 then Some (encodeCodeSection (map snd kept))
        else if i = 7 then r7 else if i = 8 then r8 else if i = 9 then r9 else None)"
    by (auto simp: rewriteModule_def Let_def split_beta)
  show thesis
    by (rule that [OF kept out]) (use r7 r8 r9 in \<open>auto simp: replace_section_Ok\<close>)
qed

lemma rewriteModule_size:
  assumes it: "iteration iter" and removed: "analysed iter module ss a" "rewriteModule ss a = Ok out"
  shows "length out \<le> length module"
proof -
  note A = analysed_Ok [OF it removed(1)]
  note P = parseSections_Ok [OF A(9)]
  note f = newIndex_shrinks [of "a_imported a" "a_keep a"]
  obtain fp cp where fp: "opt_findSection ss 3 = Some fp" "parseFunctionSection fp = Ok (a_types a)"
    and cp: "opt_findSection ss 10 = Some cp" "parseCodeSection cp = Ok (a_bodies a)"
    using A(7,8) by blast
  note F = parseFunctionSection_length [OF fp(2)]
  note C = parseCodeSection_length [OF cp(2)]
  from rewriteModule_Ok [OF removed(2)] obtain kept repl where
    kept: "rewriteKept a (newIndex_of a) = Ok kept" and out: "out = rebuildModule ss repl"
    and r3: "repl 3 = Some (encodeFunctionSection (map fst kept))"
    and r10: "repl 10 = Some (encodeCodeSection (map snd kept))"
    and r7: "\<And>p. opt_findSection ss 7 = Some p \<Longrightarrow> \<exists>r. rewriteExportSection p (newIndex_of a) = Ok r \<and> repl 7 = Some r"
    and r8: "\<And>p. opt_findSection ss 8 = Some p \<Longrightarrow> \<exists>r. rewriteStartSection p (newIndex_of a) = Ok r \<and> repl 8 = Some r"
    and r9: "\<And>p. opt_findSection ss 9 = Some p \<Longrightarrow>
      \<exists>r R. rewriteElementSection p (newIndex_of a) False = Ok (R, r) \<and> repl 9 = Some r"
    and rest: "\<And>i. i \<notin> {3, 7, 8, 9, 10} \<Longrightarrow> repl i = None" by blast
  have "length (encodeFunctionSection (map fst kept)) \<le> length fp"
    using function_section_size [of "a_types a" "a_keep a"] F A(2,3) rewriteKept_types [OF kept] by simp
  moreover have "length (encodeCodeSection (map snd kept)) \<le> length cp"
    using code_section_size [OF kept f] C A(2) by simp
  ultimately have "fits_section ss i (repl i)" for i
    using r3 r10 fp cp r7 r8 r9 rest [of i] rewriteExportSection_size [OF _ f]
      rewriteStartSection_size [OF _ f] rewriteElementSection_size [OF _ f]
    by (cases "i \<in> {3, 7, 8, 9, 10}") (fastforce simp: fits_section_def)+
  then have "length (concat (map encode_section (replace_sections repl {} ss)))
      \<le> length (concat (map encode_section ss))"
    using P(3) by (intro replace_sections_size) auto
  then show ?thesis using P(1) out by (simp add: rebuildModule_def)
qed

text \<open>The module EliminateDeadCode returns is never longer than its input.\<close>

theorem EliminateDeadCode_size:
  assumes "iteration iter" and "EliminateDeadCode iter module = Ok (out, rep)"
  shows "length out \<le> length module"
  using assms(2) by (cases rule: EliminateDeadCode_cases) (auto intro: rewriteModule_size [OF assms(1)])

text \<open>The roots of the written module are the images of the roots, when there is no element section.\<close>

lemma rewriteStartSection_reread:
  "rewriteStartSection p f = Ok r \<Longrightarrow> parseStartFunction p = Ok c \<Longrightarrow> parseStartFunction r = Ok (the (f c))"
  using drop_readU32_encodeU32 [of 0 r "the (f c)" "[]"]
  by (auto simp: rewriteStartSection_def parseStartFunction_def split: option.splits)

lemma collectRoots_replace:
  assumes rs: "collectRoots ss = Ok rs" and no_elem: "opt_findSection ss 9 = None"
    and r7: "\<And>p. opt_findSection ss 7 = Some p \<Longrightarrow> \<exists>r. rewriteExportSection p f = Ok r \<and> repl 7 = Some r"
    and r8: "\<And>p. opt_findSection ss 8 = Some p \<Longrightarrow> \<exists>r. rewriteStartSection p f = Ok r \<and> repl 8 = Some r"
  shows "collectRoots (replace_sections repl {} ss) = Ok ((\<lambda>c. the (f c)) ` rs)"
proof -
  let ?ss = "replace_sections repl {} ss" and ?m = "\<lambda>c. the (f c)"
  let ?e = "\<lambda>p. map_err (Context ''parse export section'') (parseExportFunctionRoots p)"
    and ?s = "\<lambda>p. obind (map_err (Context ''parse start section'') (parseStartFunction p)) (\<lambda>startIdx. Ok {startIdx})"
  from rs no_elem obtain E S where E: "with_section ss 7 {} ?e = Ok E"
    and S: "with_section ss 8 {} ?s = Ok S" and rs: "rs = E \<union> S"
    by (auto simp: collectRoots_def with_section_def [of _ 9])
  have "with_section ?ss 7 {} ?e = Ok (?m ` E)"
  proof (cases "opt_findSection ss 7")
    case None
    with E show ?thesis by (simp add: with_section_def opt_findSection_replace)
  next
    case (Some p)
    then obtain r where r: "rewriteExportSection p f = Ok r" "repl 7 = Some r" using r7 by blast
    from rewriteExportSection_roots [OF r(1)] Some E r(2) show ?thesis
      by (auto simp: with_section_def opt_findSection_replace)
  qed
  moreover have "with_section ?ss 8 {} ?s = Ok (?m ` S)"
  proof (cases "opt_findSection ss 8")
    case None
    with S show ?thesis by (simp add: with_section_def opt_findSection_replace)
  next
    case (Some p)
    then obtain r where r: "rewriteStartSection p f = Ok r" "repl 8 = Some r" using r8 by blast
    from Some S obtain c where c: "parseStartFunction p = Ok c" "S = {c}" by (auto simp: with_section_def)
    from rewriteStartSection_reread [OF r(1) c(1)] Some c r(2) show ?thesis
      by (simp add: with_section_def opt_findSection_replace)
  qed
  moreover have "opt_findSection ?ss 9 = None" using no_elem by (simp add: opt_findSection_replace)
  ultimately show ?thesis
    by (simp add: collectRoots_def with_section_def [of _ 9] rs image_Un)
qed

text \<open>
  The written module parses into the same sections; its functions are the kept ones, in order,
  and each refers to the images of the functions its original refers to.
\<close>

lemma rewriteModule_output:
  assumes it: "iteration iter" and an: "analysed iter module ss a" and out: "rewriteModule ss a = Ok out"
    and small: "length module < 2 ^ 32"
  shows "\<exists>ss' fp' cp' bodies'. parseSections out = Ok ss' \<and> map sec_id ss' = map sec_id ss \<and>
    opt_findSection ss' 3 = Some fp' \<and>
    parseFunctionSection fp' = Ok (map (\<lambda>i. a_types a ! i) (kept_idxs (a_keep a))) \<and>
    opt_findSection ss' 10 = Some cp' \<and> parseCodeSection cp' = Ok bodies' \<and>
    callEdges bodies' = Ok (map (\<lambda>i. map (\<lambda>c. the (newIndex_of a c)) (a_edges a ! i))
      (kept_idxs (a_keep a))) \<and>
    opt_findSection ss' 2 = opt_findSection ss 2 \<and>
    (opt_findSection ss 9 = None \<longrightarrow>
      collectRoots ss' = Ok ((\<lambda>c. the (newIndex_of a c)) ` a_roots a))"
proof -
  note A = analysed_Ok [OF it an]
  note P = parseSections_Ok [OF A(9)]
  obtain fp cp where fp: "opt_findSection ss 3 = Some fp" "parseFunctionSection fp = Ok (a_types a)"
    and cp: "opt_findSection ss 10 = Some cp" "parseCodeSection cp = Ok (a_bodies a)"
    using A(7,8) by blast
  note F = parseFunctionSection_length [OF fp(2)]
  note C = parseCodeSection_length [OF cp(2)]
  let ?idx = "kept_idxs (a_keep a)" and ?f = "newIndex_of a"
  from rewriteModule_Ok [OF out] obtain kept repl where
    kept: "rewriteKept a ?f = Ok kept" and o: "out = rebuildModule ss repl"
    and r3: "repl 3 = Some (encodeFunctionSection (map fst kept))"
    and r10: "repl 10 = Some (encodeCodeSection (map snd kept))"
    and r7: "\<And>p. opt_findSection ss 7 = Some p \<Longrightarrow> \<exists>r. rewriteExportSection p ?f = Ok r \<and> repl 7 = Some r"
    and r8: "\<And>p. opt_findSection ss 8 = Some p \<Longrightarrow> \<exists>r. rewriteStartSection p ?f = Ok r \<and> repl 8 = Some r"
    and rest: "\<And>i. i \<notin> {3, 7, 8, 9, 10} \<Longrightarrow> repl i = None" by blast
  let ?ss = "replace_sections repl {} ss"
  have klen: "length kept = length ?idx" using kept by (simp add: rewriteKept_Ok)
  have n: "length kept < 2 ^ 32"
    using klen length_kept_le [of "a_keep a"] F A(2,3) by simp
  have body: "\<exists>calls. rewriteCodeBody (a_bodies a ! (?idx ! j)) ?f = Ok (snd (kept ! j), calls)"
    and i: "?idx ! j < length (a_bodies a)" if "j < length kept" for j
    using kept that by (auto simp: rewriteKept_Ok Let_def)
  have bsmall: "\<forall>b \<in> set (map snd kept). length b < 2 ^ 32"
  proof
    fix b assume "b \<in> set (map snd kept)"
    then obtain j where j: "j < length kept" "b = snd (kept ! j)" by (auto simp: in_set_conv_nth)
    then obtain calls where "rewriteCodeBody (a_bodies a ! (?idx ! j)) ?f = Ok (b, calls)"
      using body by blast
    from rewriteCodeBody_size [OF this newIndex_shrinks] show "length b < 2 ^ 32"
      using C i [OF j(1)] by (meson le_less_trans nth_mem)
  qed
  have edge: "rewriteCodeBody (snd (kept ! j)) identityMap =
      Ok (snd (kept ! j), map (\<lambda>c. the (?f c)) (a_edges a ! (?idx ! j)))" if j: "j < length kept" for j
  proof -
    obtain calls where b: "rewriteCodeBody (a_bodies a ! (?idx ! j)) ?f = Ok (snd (kept ! j), calls)"
      using body [OF j] by blast
    from rewriteCodeBody_compose [OF b, of identityMap] obtain o2 where
      o2: "rewriteCodeBody (snd (kept ! j)) identityMap = Ok (o2, map (\<lambda>c. the (?f c)) calls)"
      and "rewriteCodeBody (a_bodies a ! (?idx ! j)) (\<lambda>c. Option.bind (?f c) identityMap) = Ok (o2, calls)"
      by (auto simp: identityMap_def)
    then have o: "o2 = snd (kept ! j)"
      using b by (simp add: identityMap_def [abs_def] bind_runit)
    obtain o1 where "rewriteCodeBody (a_bodies a ! (?idx ! j)) identityMap = Ok (o1, a_edges a ! (?idx ! j))"
      using A(5) i [OF j] by (auto simp: callEdges_Ok)
    from rewriteCodeBody_calls [OF this b] o2 o show ?thesis by simp
  qed
  have "callEdges (map snd kept) =
      Ok (map (\<lambda>i. map (\<lambda>c. the (?f c)) (a_edges a ! i)) ?idx)"
    using edge klen by (auto simp: callEdges_Ok)
  moreover have "parseCodeSection (encodeCodeSection (map snd kept)) = Ok (map snd kept)"
    using n bsmall by (intro parse_encodeCodeSection) simp_all
  moreover have "parseFunctionSection (encodeFunctionSection (map fst kept)) =
      Ok (map (\<lambda>i. a_types a ! i) ?idx)"
    using n klen rewriteKept_types [OF kept] by (subst parse_encodeFunctionSection) simp_all
  moreover have "length ?ss \<le> 128"
    using P(2) arg_cong [OF map_sec_id_replace, of length repl "{}" ss] by simp
  then have "parseSections out = Ok ?ss"
    unfolding o rebuildModule_def using rewriteModule_size [OF it an out] small
    by (intro Sections_encoded) (simp_all only: o rebuildModule_def order_le_less_trans)
  moreover have "opt_findSection ?ss 3 = Some (encodeFunctionSection (map fst kept))"
    "opt_findSection ?ss 10 = Some (encodeCodeSection (map snd kept))"
    using fp cp r3 r10 by (simp_all add: opt_findSection_replace)
  moreover have "opt_findSection ?ss 2 = opt_findSection ss 2"
    using rest [of 2] by (simp add: opt_findSection_replace split: option.split)
  moreover have "opt_findSection ss 9 = None \<longrightarrow>
      collectRoots ?ss = Ok ((\<lambda>c. the (?f c)) ` a_roots a)"
    using collectRoots_replace [OF A(6) _ r7 r8] by blast
  moreover have "map sec_id ?ss = map sec_id ss" by (rule map_sec_id_replace)
  ultimately show ?thesis by (intro exI conjI)
qed

section \<open>The pass succeeds on modules with valid indices\<close>

lemma live_in_range: "c \<in> live a \<Longrightarrow> unat c < fn_count a"
  unfolding live_def by (induction rule: reachable_from_induct) (auto simp: callees_def split: if_splits)

lemma newIndex_live:
  assumes it: "iteration iter" and an: "analysed iter module ss a" and c: "c \<in> live a"
  shows "newIndex_of a c \<noteq> None"
proof (cases "c < a_imported a")
  case True
  then show ?thesis by (simp add: buildFunctionRemap_def)
next
  case False
  note A = analysed_Ok [OF it an]
  let ?i = "unat (c - a_imported a)"
  have i: "?i < length (a_bodies a)"
    using False live_in_range [OF c] by (simp add: unat_diff_u32 fn_count_def word_less_nat_alt)
  have "a_imported a + of_nat ?i = c" by simp
  then have "a_keep a ! ?i" using A(4) [OF i] c by simp
  with i A(2) False show ?thesis by (simp add: buildFunctionRemap_def Let_def)
qed

text \<open>Every index in the roots and in the bodies is the index of a function of the module.\<close>

definition valid_indices :: "analysis \<Rightarrow> bool" where
  "valid_indices a \<longleftrightarrow> (\<forall>c \<in> a_roots a \<union> (\<Union>es \<in> set (a_edges a). set es). unat c < fn_count a)"

lemma root_live: "valid_indices a \<Longrightarrow> c \<in> a_roots a \<Longrightarrow> c \<in> live a"
  unfolding live_def by (rule reachable_fromI) (auto simp: valid_indices_def)

lemma live_callee:
  assumes "v \<in> live a" and "\<not> v < a_imported a" and "unat (v - a_imported a) < length (a_edges a)"
    and "c \<in> set (a_edges a ! unat (v - a_imported a))" and "unat c < fn_count a"
  shows "c \<in> live a"
  unfolding live_def
  by (rule reachable_from_step [OF assms(1) [unfolded live_def]])
    (use assms in \<open>auto simp: callees_def\<close>)

lemma kept_live:
  assumes it: "iteration iter" and an: "analysed iter module ss a" and i: "i \<in> set (kept_idxs (a_keep a))"
  shows "i < length (a_bodies a)" and "a_imported a + of_nat i \<in> live a"
    and "unat (a_imported a + of_nat i - a_imported a) = i" and "\<not> a_imported a + of_nat i < a_imported a"
proof -
  note A = analysed_Ok [OF it an]
  show n: "i < length (a_bodies a)" using i A(2) by (simp add: kept_idxs_def)
  then show "a_imported a + of_nat i \<in> live a" using A(4) i by (simp add: kept_idxs_def)
  have fits: "unat (a_imported a) + i < 2 ^ 32" using A(1) n by (simp add: fn_count_def)
  show "unat (a_imported a + of_nat i - a_imported a) = i"
    using fits by (simp add: unat_of_nat_u32)
  show "\<not> a_imported a + of_nat i < a_imported a"
    using unat_add_of_nat [OF fits] by (simp add: word_less_nat_alt)
qed

lemma collectRoots_Ok:
  assumes "collectRoots ss = Ok rs"
  shows "opt_findSection ss 7 = Some p \<Longrightarrow> \<exists>R \<subseteq> rs. parseExportFunctionRoots p = Ok R"
    and "opt_findSection ss 8 = Some p \<Longrightarrow> \<exists>r \<in> rs. parseStartFunction p = Ok r"
    and "opt_findSection ss 9 = Some p \<Longrightarrow> \<exists>R \<subseteq> rs. \<exists>out. rewriteElementSection p identityMap True = Ok (R, out)"
proof -
  from assms obtain E S L where
    E: "with_section ss 7 {} (\<lambda>p. map_err (Context ''parse export section'') (parseExportFunctionRoots p)) = Ok E"
    and S: "with_section ss 8 {} (\<lambda>p. obind (map_err (Context ''parse start section'')
      (parseStartFunction p)) (\<lambda>startIdx. Ok {startIdx})) = Ok S"
    and L: "with_section ss 9 {} (\<lambda>p. obind (map_err (Context ''parse element section'')
      (rewriteElementSection p identityMap True)) (\<lambda>(elementRoots, _). Ok elementRoots)) = Ok L"
    and rs: "rs = E \<union> S \<union> L"
    unfolding collectRoots_def by blast
  show "\<exists>R \<subseteq> rs. parseExportFunctionRoots p = Ok R" if "opt_findSection ss 7 = Some p"
    using E that rs by (simp add: with_section_def) blast
  show "\<exists>r \<in> rs. parseStartFunction p = Ok r" if "opt_findSection ss 8 = Some p"
    using S that rs by (auto simp: with_section_def)
  show "\<exists>R \<subseteq> rs. \<exists>out. rewriteElementSection p identityMap True = Ok (R, out)"
    if "opt_findSection ss 9 = Some p"
  proof -
    from L that obtain out where "rewriteElementSection p identityMap True = Ok (L, out)"
      by (auto simp: with_section_def)
    then show ?thesis using rs by blast
  qed
qed

lemma replace_section_total:
  "(\<And>p. opt_findSection ss i = Some p \<Longrightarrow> \<exists>out. f p = Ok out) \<Longrightarrow> \<exists>r. replace_section ss i f = Ok r"
  by (cases "opt_findSection ss i") (auto simp: replace_section_def with_section_def)

lemma rewriteKept_total:
  assumes it: "iteration iter" and an: "analysed iter module ss a" and v: "valid_indices a"
  shows "\<exists>kept. rewriteKept a (newIndex_of a) = Ok kept"
proof -
  note A = analysed_Ok [OF it an]
  have "\<exists>out calls. rewriteCodeBody (a_bodies a ! i) (newIndex_of a) = Ok (out, calls)"
    if i: "i \<in> set (kept_idxs (a_keep a))" for i
  proof -
    note K = kept_live [OF it an i]
    obtain o1 where b: "rewriteCodeBody (a_bodies a ! i) identityMap = Ok (o1, a_edges a ! i)"
      and len: "length (a_edges a) = length (a_bodies a)"
      using A(5) K(1) by (auto simp: callEdges_Ok)
    have "\<forall>c \<in> set (a_edges a ! i). newIndex_of a c \<noteq> None"
    proof
      fix c assume c: "c \<in> set (a_edges a ! i)"
      then have "unat c < fn_count a" using v K(1) len by (auto simp: valid_indices_def)
      then have "c \<in> live a" using live_callee [OF K(2,4)] K(1,3) len c by simp
      then show "newIndex_of a c \<noteq> None" by (rule newIndex_live [OF it an])
    qed
    then show ?thesis using rewriteCodeBody_total [OF b] by blast
  qed
  then obtain g where "\<And>i. i \<in> set (kept_idxs (a_keep a)) \<Longrightarrow>
      \<exists>calls. rewriteCodeBody (a_bodies a ! i) (newIndex_of a) = Ok (g i, calls)" by metis
  then have "rewriteKept a (newIndex_of a) = Ok (map (\<lambda>i. (a_types a ! i, g i)) (kept_idxs (a_keep a)))"
    using A(2,3) kept_idxs_less [of _ "a_keep a"] nth_mem by (fastforce simp: rewriteKept_Ok Let_def)
  then show ?thesis by blast
qed

lemma rewriteModule_total:
  assumes it: "iteration iter" and an: "analysed iter module ss a" and v: "valid_indices a"
  shows "\<exists>out. rewriteModule ss a = Ok out"
proof -
  let ?f = "newIndex_of a"
  note A = analysed_Ok [OF it an]
  have f: "\<forall>c \<in> a_roots a. ?f c \<noteq> None"
    using newIndex_live [OF it an] root_live [OF v] by blast
  obtain kept where kept: "rewriteKept a ?f = Ok kept" using rewriteKept_total [OF assms] by blast
  have "\<exists>r. replace_section ss 7 (\<lambda>p.
      map_err (Context ''rewrite export section'') (rewriteExportSection p ?f)) = Ok r"
  proof (rule replace_section_total)
    fix p assume p: "opt_findSection ss 7 = Some p"
    show "\<exists>out. map_err (Context ''rewrite export section'') (rewriteExportSection p ?f) = Ok out"
      using collectRoots_Ok(1) [OF A(6) p] f rewriteExportSection_total by simp blast
  qed
  then obtain r7 where r7: "replace_section ss 7 (\<lambda>p.
      map_err (Context ''rewrite export section'') (rewriteExportSection p ?f)) = Ok r7" ..
  have "\<exists>r. replace_section ss 8 (\<lambda>p.
      map_err (Context ''rewrite start section'') (rewriteStartSection p ?f)) = Ok r"
  proof (rule replace_section_total)
    fix p assume p: "opt_findSection ss 8 = Some p"
    show "\<exists>out. map_err (Context ''rewrite start section'') (rewriteStartSection p ?f) = Ok out"
      using collectRoots_Ok(2) [OF A(6) p] f by (auto simp: rewriteStartSection_def)
  qed
  then obtain r8 where r8: "replace_section ss 8 (\<lambda>p.
      map_err (Context ''rewrite start section'') (rewriteStartSection p ?f)) = Ok r8" ..
  have "\<exists>r. replace_section ss 9 (\<lambda>p.
      obind (map_err (Context ''rewrite element section'') (rewriteElementSection p ?f False))
        (\<lambda>(_, out). Ok out)) = Ok r"
  proof (rule replace_section_total)
    fix p assume p: "opt_findSection ss 9 = Some p"
    show "\<exists>out. obind (map_err (Context ''rewrite element section'') (rewriteElementSection p ?f False))
        (\<lambda>(_, out). Ok out) = Ok out"
    proof -
      obtain R out where "R \<subseteq> a_roots a" "rewriteElementSection p identityMap True = Ok (R, out)"
        using collectRoots_Ok(3) [OF A(6) p] by blast
      then obtain out' where "rewriteElementSection p ?f False = Ok ({}, out')"
        using rewriteElementSection_total f by blast
      then show ?thesis by simp
    qed
  qed
  then obtain r9 where r9: "replace_section ss 9 (\<lambda>p.
      obind (map_err (Context ''rewrite element section'') (rewriteElementSection p ?f False))
        (\<lambda>(_, out). Ok out)) = Ok r9" ..
  have "snd (buildFunctionRemap (a_imported a) (a_keep a))" by (simp add: buildFunctionRemap_def)
  with kept r7 r8 r9 show ?thesis
    by (simp add: rewriteModule_def Let_def split_beta)
qed

text \<open>C6. Once the module is parsed and analysed and its roots and calls are indices of its
  functions, the pass returns a module: none of the rewriting steps fails.\<close>

theorem EliminateDeadCode_succeeds:
  assumes "iteration iter" and "analysed iter module ss a" and "valid_indices a"
  shows "\<exists>out. EliminateDeadCode iter module = Ok (out, report_of a)"
  using assms(2) rewriteModule_total [OF assms]
  by (auto simp: EliminateDeadCode_def analysed_def split: option.splits)

section \<open>A second pass removes nothing\<close>

lemma kept_idxs_nth:
  assumes "j < length (kept_idxs ks)"
  shows "rank ks (kept_idxs ks ! j) = j" and "kept_idxs ks ! j < length ks" and "ks ! (kept_idxs ks ! j)"
proof -
  have "kept_idxs ks ! j \<in> set (kept_idxs ks)" using assms by simp
  then show d: "kept_idxs ks ! j < length ks" "ks ! (kept_idxs ks ! j)" by (simp_all add: kept_idxs_def)
  have "distinct (kept_idxs ks)" by (simp add: kept_idxs_def)
  then show "rank ks (kept_idxs ks ! j) = j"
    using kept_idxs_rank [OF d] assms nth_eq_iff_index_eq by blast
qed

lemma newIndex_kept:
  assumes j: "j < length (kept_idxs ks)" and fits: "unat imp + length ks < 2 ^ 32"
  shows "fst (buildFunctionRemap imp ks) (imp + of_nat (kept_idxs ks ! j)) = Some (imp + of_nat j)"
proof -
  note K = kept_idxs_nth [OF j]
  have le: "unat imp + kept_idxs ks ! j < 2 ^ 32" using K(2) fits by simp
  then have "\<not> imp + of_nat (kept_idxs ks ! j) < imp"
    using unat_add_of_nat [OF le] by (simp add: word_less_nat_alt)
  moreover have "unat (of_nat (kept_idxs ks ! j) :: u32) = kept_idxs ks ! j"
    using le by (intro unat_of_nat_u32) simp
  ultimately show ?thesis using K by (simp add: newIndex_Some)
qed

text \<open>The image of a live function is live in the written module.\<close>

lemma live_image:
  assumes it: "iteration iter" and an: "analysed iter module ss a"
    and a': "a_imported a' = a_imported a" "length (a_bodies a') = length (kept_idxs (a_keep a))"
      "a_edges a' = map (\<lambda>i. map (\<lambda>c. the (newIndex_of a c)) (a_edges a ! i)) (kept_idxs (a_keep a))"
      "a_roots a' = (\<lambda>c. the (newIndex_of a c)) ` a_roots a"
    and v: "c \<in> live a"
  shows "the (newIndex_of a c) \<in> live a' \<and> unat (the (newIndex_of a c)) < fn_count a'"
proof -
  let ?f = "newIndex_of a" and ?idx = "kept_idxs (a_keep a)"
  note A = analysed_Ok [OF it an]
  have range: "unat (the (?f c)) < fn_count a'" and
    place: "\<not> c < a_imported a \<Longrightarrow> \<exists>j < length ?idx. ?idx ! j = unat (c - a_imported a) \<and>
      the (?f c) = a_imported a + of_nat j" if c: "c \<in> live a" for c
  proof -
    obtain d where d: "?f c = Some d" using newIndex_live [OF it an c] by blast
    then have the_d: "the (?f c) = d" by simp
    show "\<exists>j < length ?idx. ?idx ! j = unat (c - a_imported a) \<and> the (?f c) = a_imported a + of_nat j"
      if "\<not> c < a_imported a"
      unfolding the_d using d that kept_idxs_rank [of "unat (c - a_imported a)" "a_keep a"]
      by (intro exI [of _ "rank (a_keep a) (unat (c - a_imported a))"]) (auto simp: newIndex_Some)
    show "unat (the (?f c)) < fn_count a'"
    proof (cases "c < a_imported a")
      case True
      with d a'(1,2) the_d show ?thesis by (simp add: newIndex_Some fn_count_def word_less_nat_alt)
    next
      case False
      note U = newIndex_unat [OF d False]
      have "rank (a_keep a) (unat c - unat (a_imported a)) < length ?idx"
        using kept_idxs_rank [OF U(2,3)] by simp
      then show ?thesis using d U(1) a' by (simp add: fn_count_def)
    qed
  qed
  have "the (?f c) \<in> live a'"
    using v unfolding live_def
  proof (induction rule: reachable_from_induct)
    case (root r)
    then have "r \<in> live a" by (auto simp: live_def intro: reachable_fromI)
    with root a' range show ?case by (intro reachable_fromI) auto
  next
    case (step b c)
    then have b: "b \<in> live a" by (simp add: live_def)
    have c: "c \<in> live a" unfolding live_def by (rule reachable_from_step [OF step.hyps])
    from step.hyps(2) have loc: "\<not> b < a_imported a" "unat (b - a_imported a) < length (a_edges a)"
      and e: "c \<in> set (a_edges a ! unat (b - a_imported a))"
      by (auto simp: callees_def split: if_splits)
    obtain j where j: "j < length ?idx" "?idx ! j = unat (b - a_imported a)"
      "the (?f b) = a_imported a + of_nat j"
      using place [OF b loc(1)] by blast
    have "unat (a_imported a) + j < 2 ^ 32"
      using range [OF b] j A(1) length_kept_le [of "a_keep a"] A(2) by (simp add: fn_count_def)
    then have fits: "\<not> a_imported a + of_nat j < a_imported a" "unat (of_nat j :: u32) = j"
      using unat_add_of_nat [of "a_imported a" j] by (simp_all add: word_less_nat_alt unat_of_nat_u32)
    have "the (?f c) \<in> callees (a_imported a', a_edges a', fn_count a') (the (?f b))"
      using j fits e range [OF c] a' by (simp add: callees_def)
    with step.IH show ?case by (rule reachable_from_step)
  qed
  with range [OF v] show ?thesis by simp
qed

lemma analyse_again:
  assumes it: "iteration iter" and ss: "\<forall>s \<in> set ss. length (sec_payload s) < 2 ^ 32"
    and imp: "parseImportedFunctionCount (case opt_findSection ss 2 of Some p \<Rightarrow> p | None \<Rightarrow> []) = Ok imp"
    and fp: "parseFunctionSection fp = Ok types"
    and cp: "opt_findSection ss 10 = Some cp" "parseCodeSection cp = Ok bodies"
    and len: "length types = length bodies" and rs: "collectRoots ss = Ok rs" and es: "callEdges bodies = Ok es"
  shows "\<exists>keep. analyse iter ss fp cp = Ok \<lparr>a_imported = imp, a_types = types, a_bodies = bodies,
    a_roots = rs, a_edges = es, a_keep = keep\<rparr>"
proof -
  have fits: "unat imp + length bodies < 2 ^ 32" by (rule function_count_fits [OF ss imp cp es])
  then obtain keep where "keptFunctions imp (markFunctions iter (imp + of_nat (length bodies)) imp es rs)
      (length bodies) = Ok keep"
    using keptFunctions_Ok markFunctions_marked [OF it] by (metis unat_add_of_nat)
  then show ?thesis using imp fp cp len rs es by (simp add: analyse_def Let_def)
qed

text \<open>On a module without element section whose indices are those of its functions, a second run
  of the pass returns the result of the first unchanged and reports nothing removed.\<close>

theorem EliminateDeadCode_idempotent:
  assumes it: "iteration iter" and an: "analysed iter module ss a" and v: "valid_indices a"
    and no_elem: "opt_findSection ss 9 = None" and small: "length module < 2 ^ 32"
    and r: "EliminateDeadCode iter module = Ok (out, rep)"
  shows "\<exists>rep'. EliminateDeadCode iter out = Ok (out, rep') \<and> RemovedDefinedFunctions rep' = 0"
proof (cases "RemovedDefinedFunctions (report_of a) = 0")
  case True
  then have "out = module" "rep = report_of a"
    using r an by (auto simp: EliminateDeadCode_def analysed_def split: option.splits)
  with r True show ?thesis by blast
next
  case False
  then have rw: "rewriteModule ss a = Ok out"
    using r an by (auto simp: EliminateDeadCode_def analysed_def split: option.splits)
  note A = analysed_Ok [OF it an]
  let ?f = "newIndex_of a" and ?idx = "kept_idxs (a_keep a)"
  obtain ss' fp' cp' bodies' where out: "parseSections out = Ok ss'"
    and fp: "opt_findSection ss' 3 = Some fp'" "parseFunctionSection fp' = Ok (map (\<lambda>i. a_types a ! i) ?idx)"
    and cp: "opt_findSection ss' 10 = Some cp'" "parseCodeSection cp' = Ok bodies'"
    and es: "callEdges bodies' = Ok (map (\<lambda>i. map (\<lambda>c. the (?f c)) (a_edges a ! i)) ?idx)"
    and imp: "opt_findSection ss' 2 = opt_findSection ss 2"
    and rs: "collectRoots ss' = Ok ((\<lambda>c. the (?f c)) ` a_roots a)"
    using rewriteModule_output [OF it an rw small] no_elem by blast
  have len: "length bodies' = length ?idx" using es by (simp add: callEdges_Ok)
  have imp': "parseImportedFunctionCount (case opt_findSection ss' 2 of Some p \<Rightarrow> p | None \<Rightarrow> [])
      = Ok (a_imported a)" using A(10) imp by simp
  obtain keep' where a': "analyse iter ss' fp' cp' = Ok \<lparr>a_imported = a_imported a,
      a_types = map (\<lambda>i. a_types a ! i) ?idx, a_bodies = bodies', a_roots = (\<lambda>c. the (?f c)) ` a_roots a,
      a_edges = map (\<lambda>i. map (\<lambda>c. the (?f c)) (a_edges a ! i)) ?idx, a_keep = keep'\<rparr>"
    (is "_ = Ok ?a'")
    using analyse_again [OF it parseSections_Ok(3) [OF out] imp' fp(2) cp _ rs es] len by auto
  have an': "analysed iter out ss' ?a'" using out fp cp a' by (simp add: analysed_def)
  note A' = analysed_Ok [OF it an']
  have "keep' ! j" if j: "j < length ?idx" for j
  proof -
    let ?c = "a_imported a + of_nat (?idx ! j)"
    have c: "?c \<in> live a" using kept_live [OF it an, of "?idx ! j"] j by simp
    have "unat (a_imported a) + length (a_keep a) < 2 ^ 32" using A(1,2) by (simp add: fn_count_def)
    then have "?f ?c = Some (a_imported a + of_nat j)" by (rule newIndex_kept [OF j])
    with live_image [OF it an _ _ _ _ c, of ?a'] len have "a_imported a + of_nat j \<in> live ?a'" by simp
    with A'(4) [of j] len j show ?thesis by simp
  qed
  moreover have "length keep' = length ?idx" using A'(2) len by simp
  ultimately have "filter id keep' = keep'" by (simp add: filter_id_conv all_set_conv_all_nth)
  then have "RemovedDefinedFunctions (report_of ?a') = 0"
    using A'(2) by (simp add: report_of_def Let_def)
  then show ?thesis
    using out fp cp a' by (simp add: EliminateDeadCode_def)
qed

section \<open>A module with a dead function\<close>

text \<open>
  Two functions, the second exported and calling itself: the first is dead. The order of
  iteration is the order of the keys.
\<close>

definition dead_module :: bytes where
  "dead_module = wasmMagic @
     [3, 3, 2, 0, 0, 7, 5, 1, 1, 97, 0, 1, 10, 9, 2, 2, 0, 0x0b, 4, 0, 0x10, 1, 0x0b]"

definition dead_sections :: "osection list" where
  "dead_sections = [\<lparr>sec_id = 3, sec_payload = [2, 0, 0]\<rparr>,
     \<lparr>sec_id = 7, sec_payload = [1, 1, 97, 0, 1]\<rparr>,
     \<lparr>sec_id = 10, sec_payload = [2, 2, 0, 0x0b, 4, 0, 0x10, 1, 0x0b]\<rparr>]"

definition dead_analysis :: analysis where
  "dead_analysis = \<lparr>a_imported = 0, a_types = [0, 0], a_bodies = [[0, 0x0b], [0, 0x10, 1, 0x0b]],
     a_roots = {1}, a_edges = [[], [1]], a_keep = [False, True]\<rparr>"

definition live_module :: bytes where
  "live_module = wasmMagic @
     [3, 2, 1, 0, 7, 5, 1, 1, 97, 0, 0, 10, 6, 1, 4, 0, 0x10, 0, 0x0b]"

abbreviation by_key :: "u32 set \<Rightarrow> u32 list" where
  "by_key \<equiv> sorted_list_of_set"

lemma iteration_by_key: "iteration by_key"
  by (simp add: iteration_def)

lemma dead_parsed: "parseSections dead_module = Ok dead_sections"
  by code_simp

lemma dead_analysed: "analysed by_key dead_module dead_sections dead_analysis"
proof -
  have "analyse by_key dead_sections [2, 0, 0] [2, 2, 0, 0x0b, 4, 0, 0x10, 1, 0x0b] = Ok dead_analysis"
    by code_simp
  moreover have "opt_findSection dead_sections 3 = Some [2, 0, 0]"
    "opt_findSection dead_sections 10 = Some [2, 2, 0, 0x0b, 4, 0, 0x10, 1, 0x0b]" by code_simp+
  ultimately show ?thesis by (simp add: analysed_def dead_parsed)
qed

lemma dead_rewritten: "rewriteModule dead_sections dead_analysis = Ok live_module"
  by code_simp

lemma dead_eliminated: "EliminateDeadCode by_key dead_module = Ok (live_module, report_of dead_analysis)"
proof -
  have "RemovedDefinedFunctions (report_of dead_analysis) = 1" by code_simp
  then show ?thesis
    using dead_analysed dead_rewritten
    by (auto simp: EliminateDeadCode_def analysed_def split: option.splits)
qed

lemma dead_valid: "valid_indices dead_analysis"
  by code_simp

lemma dead_module_small: "length dead_module < 2 ^ 32"
  by (simp add: dead_module_def)

section \<open>The properties of the pass\<close>

text \<open>C1. When EliminateDeadCode removes something, the module it writes parses into sections with
  the same ids in the same order; its function section holds the type indices of the kept
  functions in their old order, and every kept body refers to exactly the images, under the
  index map, of the functions its original refers to.\<close>

theorem EliminateDeadCode_output:
  assumes it: "iteration iter" and an: "analysed iter module ss a" and small: "length module < 2 ^ 32"
    and r: "EliminateDeadCode iter module = Ok (out, rep)" and removed: "RemovedDefinedFunctions rep \<noteq> 0"
  shows "\<exists>ss' fp' cp' bodies'. parseSections out = Ok ss' \<and> map sec_id ss' = map sec_id ss \<and>
    opt_findSection ss' 3 = Some fp' \<and>
    parseFunctionSection fp' = Ok (map (\<lambda>i. a_types a ! i) (kept_idxs (a_keep a))) \<and>
    opt_findSection ss' 10 = Some cp' \<and> parseCodeSection cp' = Ok bodies' \<and>
    callEdges bodies' = Ok (map (\<lambda>i. map (\<lambda>c. the (newIndex_of a c)) (a_edges a ! i))
      (kept_idxs (a_keep a)))"
proof -
  have "rewriteModule ss a = Ok out"
    using r an removed by (auto simp: EliminateDeadCode_def analysed_def split: option.splits if_splits)
  from rewriteModule_output [OF it an this small] show ?thesis by blast
qed

lemma EliminateDeadCode_output_witness:
  "\<exists>ss' fp' cp' bodies'. parseSections live_module = Ok ss' \<and>
    map sec_id ss' = map sec_id dead_sections \<and> opt_findSection ss' 3 = Some fp' \<and>
    parseFunctionSection fp' = Ok (map (\<lambda>i. a_types dead_analysis ! i) (kept_idxs (a_keep dead_analysis))) \<and>
    opt_findSection ss' 10 = Some cp' \<and> parseCodeSection cp' = Ok bodies' \<and>
    callEdges bodies' = Ok (map (\<lambda>i. map (\<lambda>c. the (newIndex_of dead_analysis c)) (a_edges dead_analysis ! i))
      (kept_idxs (a_keep dead_analysis)))"
proof (rule EliminateDeadCode_output [OF iteration_by_key dead_analysed dead_module_small dead_eliminated])
  show "RemovedDefinedFunctions (report_of dead_analysis) \<noteq> 0" by code_simp
qed

text \<open>C2. The pass keeps a defined function exactly when it is reachable, over the calls found in
  the bodies, from the exported functions, the start function and the element segments: the
  breadth-first marking with its queue implements reachability.\<close>

theorem EliminateDeadCode_keeps_live:
  assumes "iteration iter" and "analysed iter module ss a"
  shows "length (a_keep a) = length (a_bodies a) \<and>
    (\<forall>i < length (a_bodies a). a_keep a ! i \<longleftrightarrow> a_imported a + of_nat i \<in>
      reachable_from (callees (a_imported a, a_edges a, fn_count a)) {r \<in> a_roots a. unat r < fn_count a})"
  using analysed_Ok(2,4) [OF assms] by (simp add: live_def)

lemma EliminateDeadCode_keeps_live_witness:
  "(1 :: u32) \<in> reachable_from (callees (0, [[], [1]], fn_count dead_analysis)) {r \<in> {1}. unat r < fn_count dead_analysis}"
  using EliminateDeadCode_keeps_live [OF iteration_by_key dead_analysed]
  by (auto simp: dead_analysis_def dest: spec [of _ 1])

text \<open>C7. EliminateDeadCode returns on every byte string, with a module or an error: no index or
  slice is out of range, no 32-bit function count wraps around, every loop ends.\<close>

theorem EliminateDeadCode_returns:
  assumes "iteration iter"
  shows "returns (EliminateDeadCode iter module)"
  by (rule returns_EliminateDeadCode [OF assms])

lemma EliminateDeadCode_returns_witness: "returns (EliminateDeadCode by_key dead_module)"
  by (rule EliminateDeadCode_returns [OF iteration_by_key])

lemma EliminateDeadCode_size_witness: "length live_module \<le> length dead_module"
  by (rule EliminateDeadCode_size [OF iteration_by_key dead_eliminated])

lemma EliminateDeadCode_succeeds_witness:
  "\<exists>out. EliminateDeadCode by_key dead_module = Ok (out, report_of dead_analysis)"
  by (rule EliminateDeadCode_succeeds [OF iteration_by_key dead_analysed dead_valid])

lemma EliminateDeadCode_idempotent_witness:
  "\<exists>rep'. EliminateDeadCode by_key live_module = Ok (live_module, rep') \<and> RemovedDefinedFunctions rep' = 0"
  by (rule EliminateDeadCode_idempotent [OF iteration_by_key dead_analysed dead_valid _
        dead_module_small dead_eliminated]) code_simp

text \<open>Any other order of iteration, here the reverse one.\<close>

lemma EliminateDeadCode_iteration_witness:
  "EliminateDeadCode by_key dead_module = EliminateDeadCode (rev \<circ> by_key) dead_module"
  by (rule EliminateDeadCode_iteration) (simp_all add: iteration_def)

text \<open>The index map of buildFunctionRemap keeps the order of the functions, hence is injective,
  and never raises an index.\<close>

theorem buildFunctionRemap_monotone:
  assumes "fst (buildFunctionRemap imp keep) c = Some c'" and "fst (buildFunctionRemap imp keep) d = Some d'"
    and "c < d"
  shows "c' < d' \<and> c' \<le> c"
  using newIndex_strict_mono [OF assms] newIndex_shrinks [of imp keep] assms(1) by (auto simp: shrinks_def)

lemma buildFunctionRemap_monotone_witness: "(1 :: u32) < 2 \<and> (1 :: u32) \<le> 2"
  by (rule buildFunctionRemap_monotone [of 1 "[False, True, True]" 2 _ 3]) code_simp+

section \<open>The properties of its parts\<close>

text \<open>Rewriting a function body with one index map and its result with a second one is
  rewriting it with the composed map; the result of the first rewriting reads back with exactly
  the mapped function indices.\<close>

theorem rewriteCodeBody_twice:
  assumes "rewriteCodeBody body f = Ok (out, calls)" and "\<forall>c \<in> set calls. g (the (f c)) \<noteq> None"
  shows "\<exists>out'. rewriteCodeBody out g = Ok (out', map (\<lambda>c. the (f c)) calls) \<and>
    rewriteCodeBody body (\<lambda>c. Option.bind (f c) g) = Ok (out', calls)"
  by (rule rewriteCodeBody_compose [OF assms])

lemma rewriteCodeBody_twice_witness:
  "\<exists>out'. rewriteCodeBody [0, 0x10, 6, 0x0b] (\<lambda>c. Some (c - 1)) = Ok (out', [6]) \<and>
    rewriteCodeBody [0, 0x10, 7, 0x0b] (\<lambda>c. Some (c - 2)) = Ok (out', [7])"
proof -
  have "rewriteCodeBody [0, 0x10, 7, 0x0b] (\<lambda>c. Some (c - 1)) = Ok ([0, 0x10, 6, 0x0b], [7])" by code_simp
  from rewriteCodeBody_twice [OF this, of "\<lambda>c. Some (c - 1)"] show ?thesis by simp
qed

text \<open>When an export section is rewritten, every exported function is mapped, and the rewritten
  section parses into the images of the exported functions of the original.\<close>

theorem rewriteExportSection_exports:
  assumes "rewriteExportSection payload f = Ok out"
  shows "\<exists>roots. parseExportFunctionRoots payload = Ok roots \<and> roots \<subseteq> dom f \<and>
    parseExportFunctionRoots out = Ok ((\<lambda>c. the (f c)) ` roots)"
  by (rule rewriteExportSection_roots [OF assms])

lemma rewriteExportSection_exports_witness:
  "\<exists>roots. parseExportFunctionRoots [1, 1, 97, 0, 200, 1] = Ok roots \<and> roots \<subseteq> dom Some \<and>
    parseExportFunctionRoots [1, 1, 97, 0, 200, 1] = Ok ((\<lambda>c. the (Some c)) ` roots)"
  by (rule rewriteExportSection_exports) code_simp

lemma replace_sections_none: "replace_sections (\<lambda>_. None) used ss = ss"
  by (induction ss arbitrary: used) simp_all

text \<open>Parsing the module rebuilt from at most 128 sections gives back these sections.\<close>

theorem rebuildModule_parse:
  assumes "length ss \<le> 128" and "length (rebuildModule ss (\<lambda>_. None)) < 2 ^ 32"
  shows "parseSections (rebuildModule ss (\<lambda>_. None)) = Ok ss"
  using Sections_encoded [OF assms(1)] assms(2) by (simp add: rebuildModule_def replace_sections_none)

lemma rebuildModule_parse_witness:
  "parseSections (rebuildModule [\<lparr>sec_id = 0, sec_payload = [1]\<rparr>, \<lparr>sec_id = 0, sec_payload = []\<rparr>] (\<lambda>_. None)) =
    Ok [\<lparr>sec_id = 0, sec_payload = [1]\<rparr>, \<lparr>sec_id = 0, sec_payload = []\<rparr>]"
  by (rule rebuildModule_parse)
    (simp_all add: rebuildModule_def encode_section_def wasmMagic_def encodeU32_last)

text \<open>The encoded function section and the encoded code section parse back into the type
  indices and the bodies.\<close>

theorem function_code_roundtrip:
  assumes "length types < 2 ^ 32" and "length bodies < 2 ^ 32" and "\<forall>b \<in> set bodies. length b < 2 ^ 32"
  shows "parseFunctionSection (encodeFunctionSection types) = Ok types \<and>
    parseCodeSection (encodeCodeSection bodies) = Ok bodies"
  using parse_encodeFunctionSection [OF assms(1)] parse_encodeCodeSection [OF assms(2,3)] by simp

lemma function_code_roundtrip_witness:
  "parseFunctionSection (encodeFunctionSection [7, 300]) = Ok [7, 300] \<and>
    parseCodeSection (encodeCodeSection [[], [0, 0x0b]]) = Ok [[], [0, 0x0b]]"
  by (rule function_code_roundtrip) simp_all

text \<open>readU32 reads back what encodeU32 writes, wherever it stands, and no other bytes that
  read as the same value are shorter.\<close>

theorem encodeU32_roundtrip:
  assumes "drop pos data = encodeU32 v @ rest" and "readU32 data' pos' = Ok (v, n)"
  shows "readU32 data pos = Ok (v, length (encodeU32 v)) \<and> length (encodeU32 v) \<le> n"
  using drop_readU32_encodeU32 [OF assms(1)] length_encode_read [OF assms(2)] by simp

lemma encodeU32_roundtrip_witness:
  "readU32 [9, 200, 1, 5] 1 = Ok (200, length (encodeU32 200)) \<and> length (encodeU32 200) \<le> 3"
  by (rule encodeU32_roundtrip [where rest = "[5]" and data' = "[0xc8, 0x81, 0]" and pos' = 0]) code_simp+

lemma rewriteFuncIdxVector_reread_witness:
  "\<exists>out'. rewriteFuncIdxVector identityMap [1, 4] 0 =
    Ok (0 + length [1, 4 :: u8], out', List.map_filter (\<lambda>c. if c = 5 then Some 4 else None) [3, 5 :: u32])"
  by (rule rewriteFuncIdxVector_reread [of _ "[2, 3, 5]" 0 3 _ _ _ _ "[]"]) code_simp+

end
