(* ===== verification/DceLeb.thy ===== *)
theory DceLeb
  imports Leb128
begin

unbundle bit_operations_syntax

text \<open>
  LEB128 integers of internal/dce/dce.go. Its decoders have no error: an encoding that does not
  end within the slice, or within five bytes, is read as far as it goes, and the number of bytes
  they report is then the length of the slice (unsigned) or one more than what was read (signed).
  The lemmas relate them to the reader and the writer of internal/wasmopt and show the round
  trips; the locale \<open>u32_codec\<close> is interpreted on this pair too.
\<close>

section \<open>Unsigned\<close>

function decodeULEB128_loop :: "bytes \<Rightarrow> nat \<Rightarrow> u32 \<Rightarrow> u32 \<times> nat" where
  "decodeULEB128_loop data i result =
     (if i < length data \<and> i < 5 then
        let b = data ! i; result = result OR push_bit (7 * i) (ucast (b AND 0x7f)) in
        if b AND 0x80 = 0 then (result, i + 1) else decodeULEB128_loop data (Suc i) result
      else (result, length data))"
  by pat_completeness auto
termination by (relation "measure (\<lambda>(data, i, result). 5 - i)") auto

declare decodeULEB128_loop.simps [simp del]

definition decodeULEB128 :: "bytes \<Rightarrow> u32 \<times> nat" where
  "decodeULEB128 data = decodeULEB128_loop data 0 0"

function encodeULEB128_loop :: "u32 \<Rightarrow> bytes" where
  "encodeULEB128_loop v =
     (if v > 0 then
        let b = ucast (v AND 0x7f); v = drop_bit 7 v in
        (if v > 0 then b OR 0x80 else b) # encodeULEB128_loop v
      else [])"
  by pat_completeness auto
termination
proof (relation "measure unat", goal_cases)
  case (2 v b v')
  then have "unat v' = unat v div 128" by (simp add: unat_drop_bit_7)
  moreover have "0 < unat v" using 2 by (simp add: unat_gt_0)
  ultimately show ?case by simp
qed simp

declare encodeULEB128_loop.simps [simp del]

definition encodeULEB128 :: "u32 \<Rightarrow> bytes" where
  "encodeULEB128 v = (if v = 0 then [0x00] else encodeULEB128_loop v)"

section \<open>Signed\<close>

text \<open>
  The loop shared by \<open>decodeSLEB128\<close> (at most 5 bytes) and \<open>decodeSLEB128_64\<close> (at most 10): the
  value collected, the shift, the last byte read and the index the loop ends with.
\<close>

function decodeSLEB_loop :: "bytes \<Rightarrow> nat \<Rightarrow> nat \<Rightarrow> u64 \<Rightarrow> u8 \<Rightarrow> u64 \<times> nat \<times> u8 \<times> nat" where
  "decodeSLEB_loop data lim i result b =
     (if i < length data \<and> i < lim then
        let b = data ! i; result = result OR push_bit (7 * i) (ucast (b AND 0x7f)) in
        if b AND 0x80 = 0 then (result, 7 * i + 7, b, i) else decodeSLEB_loop data lim (Suc i) result b
      else (result, 7 * i, b, i))"
  by pat_completeness auto
termination by (relation "measure (\<lambda>(data, lim, i, result, b). lim - i)") auto

declare decodeSLEB_loop.simps [simp del]

definition decodeSLEB128 :: "bytes \<Rightarrow> u32 \<times> nat" where
  "decodeSLEB128 data = (case decodeSLEB_loop data 5 0 0 0 of (result, shift, b, i) \<Rightarrow>
     (ucast (if shift < 32 \<and> b AND 0x40 \<noteq> 0 then result OR - push_bit shift 1 else result), i + 1))"

definition decodeSLEB128_64 :: "bytes \<Rightarrow> u64 \<times> nat" where
  "decodeSLEB128_64 data = (case decodeSLEB_loop data 10 0 0 0 of (result, shift, b, i) \<Rightarrow>
     (if shift < 64 \<and> b AND 0x40 \<noteq> 0 then result OR - push_bit shift 1 else result, i + 1))"

text \<open>The writers; \<open>>>\<close> on a signed integer keeps the sign.\<close>

lemma sint_signed_drop_bit_7: "sint (signed_drop_bit 7 (v :: 'a::len word)) = sint v div 128"
  by (simp add: sint_signed_drop_bit_eq drop_bit_eq_div)

lemma abs_div_128_less: "(z :: int) \<noteq> 0 \<Longrightarrow> z \<noteq> - 1 \<Longrightarrow> \<bar>z div 128\<bar> < \<bar>z\<bar>"
  by (cases "z \<ge> 0") (auto simp: abs_if)

lemma sint_minus_1_iff: "sint (v :: 'a::len word) = - 1 \<longleftrightarrow> v = - 1"
  by (metis sint_n1 signed_word_eqI)

function encodeSLEB128 :: "u32 \<Rightarrow> bytes" where
  "encodeSLEB128 v =
     (let b = ucast (v AND 0x7f); v' = signed_drop_bit 7 v in
      if (v' = 0 \<and> b AND 0x40 = 0) \<or> (v' = - 1 \<and> b AND 0x40 \<noteq> 0) then [b]
      else (b OR 0x80) # encodeSLEB128 v')"
  by pat_completeness auto
termination
proof (relation "measure (\<lambda>v. nat \<bar>sint v\<bar>)", goal_cases)
  case (2 v b v')
  then have "v \<noteq> 0" and "v \<noteq> - 1" by auto
  then have "sint v \<noteq> 0" and "sint v \<noteq> - 1" by (simp_all add: signed_eq_0_iff sint_minus_1_iff)
  then have "\<bar>sint v div 128\<bar> < \<bar>sint v\<bar>" by (rule abs_div_128_less)
  with 2 show ?case by (simp add: sint_signed_drop_bit_7)
qed simp

declare encodeSLEB128.simps [simp del]

function encodeSLEB128_64 :: "u64 \<Rightarrow> bytes" where
  "encodeSLEB128_64 v =
     (let b = ucast (v AND 0x7f); v' = signed_drop_bit 7 v in
      if (v' = 0 \<and> b AND 0x40 = 0) \<or> (v' = - 1 \<and> b AND 0x40 \<noteq> 0) then [b]
      else (b OR 0x80) # encodeSLEB128_64 v')"
  by pat_completeness auto
termination
proof (relation "measure (\<lambda>v. nat \<bar>sint v\<bar>)", goal_cases)
  case (2 v b v')
  then have "v \<noteq> 0" and "v \<noteq> - 1" by auto
  then have "sint v \<noteq> 0" and "sint v \<noteq> - 1" by (simp_all add: signed_eq_0_iff sint_minus_1_iff)
  then have "\<bar>sint v div 128\<bar> < \<bar>sint v\<bar>" by (rule abs_div_128_less)
  with 2 show ?case by (simp add: sint_signed_drop_bit_7)
qed simp

declare encodeSLEB128_64.simps [simp del]

section \<open>The unsigned pair\<close>

lemma encodeULEB128_loop_encodeU32: "v \<noteq> 0 \<Longrightarrow> encodeULEB128_loop v = encodeU32 v"
proof (induction v rule: encodeU32.induct)
  case (1 v)
  then show ?case
    by (subst encodeULEB128_loop.simps, subst encodeU32.simps)
      (auto simp: Let_def word_greater_zero_iff encodeULEB128_loop.simps [of 0])
qed

lemma encodeULEB128_encodeU32: "encodeULEB128 v = encodeU32 v"
  by (cases "v = 0") (simp_all add: encodeULEB128_def encodeULEB128_loop_encodeU32 encodeU32_last)

lemma decodeULEB128_loop_readU32_loop:
  "readU32_loop data pos i v = Ok (w, n) \<Longrightarrow> decodeULEB128_loop (drop pos data) i v = (w, n)"
proof (induction data pos i v rule: readU32_loop.induct)
  case (1 data pos i v)
  then show ?case
    by (subst decodeULEB128_loop.simps, subst (asm) (2) readU32_loop.simps)
      (auto simp: Let_def split: if_splits)
qed

lemma decodeULEB128_readU32: "readU32 data pos = Ok r \<Longrightarrow> decodeULEB128 (drop pos data) = r"
  by (cases r) (simp add: readU32_def decodeULEB128_def decodeULEB128_loop_readU32_loop)

lemma decodeULEB128_encoded: "drop pos data = encodeULEB128 v @ rest \<Longrightarrow>
    decodeULEB128 (drop pos data) = (v, length (encodeULEB128 v))"
  unfolding encodeULEB128_encodeU32 by (rule decodeULEB128_readU32) (rule drop_readU32_encodeU32)

interpretation dce_codec: u32_codec encodeULEB128
  "\<lambda>data pos. Ok (decodeULEB128 (drop pos data)) :: (unit, u32 \<times> nat) outcome"
proof (unfold_locales, goal_cases)
  case (1 pos data v rest)
  from decodeULEB128_encoded [OF this] show ?case by simp
next
  case (2 v)
  show ?case unfolding encodeULEB128_encodeU32 by (rule length_encodeU32)
qed

lemma decodeULEB128_loop_bound:
  "i \<le> length data \<Longrightarrow> snd (decodeULEB128_loop data i v) \<le> length data"
proof (induction data i v rule: decodeULEB128_loop.induct)
  case (1 data i v)
  then show ?case by (subst decodeULEB128_loop.simps) (auto simp: Let_def)
qed

lemma decodeULEB128_bound: "snd (decodeULEB128 data) \<le> length data"
  by (simp add: decodeULEB128_def decodeULEB128_loop_bound)

section \<open>The signed pair\<close>

lemma and_0x40: "(b :: u8) AND 0x40 = 0 \<longleftrightarrow> \<not> bit b 6"
proof -
  have e: "(0x40 :: u8) = 2 ^ 6" by simp
  show ?thesis unfolding e and_exp_eq_0_iff_not_bit ..
qed

lemma bit_low7: "bit (ucast (v AND 0x7f :: u64) :: u8) n \<longleftrightarrow> n < 7 \<and> bit v n"
  by (auto simp only: bit_ucast_iff bit_and_iff bit_0x7f) simp_all

lemma bit_signed_drop_7: "bit (signed_drop_bit 7 (v :: u64)) n \<longleftrightarrow> n < 64 \<and> bit v (if n + 7 < 64 then n + 7 else 63)"
proof -
  have "\<not> bit v (7 + n)" if "\<not> n < 64" using bit_imp_le_length [of v "7 + n"] that by auto
  moreover have "7 + n = n + 7" by simp
  ultimately show ?thesis by (simp only: bit_signed_drop_bit_iff) simp
qed

definition sign_from :: "nat \<Rightarrow> u64 \<Rightarrow> bool" where
  "sign_from m v \<longleftrightarrow> (\<forall>n. m \<le> n \<longrightarrow> n < 64 \<longrightarrow> (bit v n \<longleftrightarrow> bit v 63))"

lemma last_step:
  assumes "(signed_drop_bit 7 v = 0 \<and> \<not> bit v 6) \<or> (signed_drop_bit 7 v = - 1 \<and> bit v 6)"
  shows "sign_from 6 (v :: u64)"
proof -
  have hi: "bit v n = bit (signed_drop_bit 7 v) (n - 7)" if "7 \<le> n" "n < 64" for n
    using that by (simp add: bit_signed_drop_7 less_imp_diff_less)
  have "bit v n \<longleftrightarrow> bit v 6" if "7 \<le> n" "n < 64" for n
    using assms by (elim disjE conjE) (simp_all add: hi [OF that] less_imp_diff_less that)
  then have "bit v n \<longleftrightarrow> bit v 6" if "6 \<le> n" "n < 64" for n
    using that by (cases "n = 6") auto
  note six = this
  show ?thesis unfolding sign_from_def
  proof (intro allI impI)
    fix n :: nat assume "6 \<le> n" "n < 64"
    from six [OF this] six [of 63] show "bit v n \<longleftrightarrow> bit v 63" by simp
  qed
qed

lemma sign_fromD: "sign_from m v \<Longrightarrow> m \<le> n \<Longrightarrow> n < 64 \<Longrightarrow> bit v n \<longleftrightarrow> bit v 63"
  unfolding sign_from_def by blast

lemma more_flag64: "(ucast (w AND 0x7f :: u64) OR 0x80 :: u8) AND 0x80 \<noteq> 0"
proof -
  have "bit ((ucast (w AND 0x7f) OR 0x80 :: u8) AND 0x80) 7"
    by (simp only: bit_and_iff bit_or_iff bit_0x80) simp
  then show ?thesis by (metis bit_0_eq bot2E bot_fun_def bot_bool_def)
qed

lemma last_flag64: "(ucast (w AND 0x7f :: u64) :: u8) AND 0x80 = 0"
proof (rule bit_word_eqI)
  fix n show "bit ((ucast (w AND 0x7f) :: u8) AND 0x80) n \<longleftrightarrow> bit (0 :: u8) n"
    unfolding bit_and_iff bit_low7 bit_0x80 by auto
qed

lemma group_value64:
  "(ucast ((ucast (w AND 0x7f) OR 0x80 :: u8) AND 0x7f) :: u64) = w AND 0x7f"
  "(ucast ((ucast (w AND 0x7f) :: u8) AND 0x7f) :: u64) = w AND 0x7f"
proof -
  have "bit (ucast ((ucast (w AND 0x7f) OR 0x80 :: u8) AND 0x7f) :: u64) n \<longleftrightarrow> bit (w AND 0x7f) n"
    and "bit (ucast ((ucast (w AND 0x7f) :: u8) AND 0x7f) :: u64) n \<longleftrightarrow> bit (w AND 0x7f) n" if "n < 64" for n
    using that unfolding bit_ucast_iff bit_and_iff bit_or_iff bit_0x80 bit_0x7f by auto
  then show "(ucast ((ucast (w AND 0x7f) OR 0x80 :: u8) AND 0x7f) :: u64) = w AND 0x7f"
    and "(ucast ((ucast (w AND 0x7f) :: u8) AND 0x7f) :: u64) = w AND 0x7f"
    by (intro bit_word_eqI; simp)+
qed

lemma take_bit_group: "push_bit m (w AND 0x7f) OR push_bit (m + 7) (take_bit j (signed_drop_bit 7 w))
    = push_bit m (take_bit (j + 7) (w :: u64))"
proof (rule bit_word_eqI)
  fix n assume "n < LENGTH(64)"
  then show "bit (push_bit m (w AND 0x7f) OR push_bit (m + 7) (take_bit j (signed_drop_bit 7 w))) n =
      bit (push_bit m (take_bit (j + 7) w)) n"
    unfolding low7_mask
    by (cases "m \<le> n"; cases "m + 7 \<le> n")
      (auto simp: bit_or_iff bit_push_bit_iff bit_and_iff bit_mask_iff bit_take_bit_iff bit_signed_drop_7)
qed

lemma decodeSLEB_stop:
  "i < length data \<Longrightarrow> i < lim \<Longrightarrow> data ! i = c \<Longrightarrow> c AND 0x80 = 0 \<Longrightarrow> ucast (c AND 0x7f) = x \<Longrightarrow>
    decodeSLEB_loop data lim i acc b0 = (acc OR push_bit (7 * i) x, 7 * i + 7, c, i)"
  and decodeSLEB_more:
  "i < length data \<Longrightarrow> i < lim \<Longrightarrow> data ! i = c \<Longrightarrow> c AND 0x80 \<noteq> 0 \<Longrightarrow> ucast (c AND 0x7f) = x \<Longrightarrow>
    decodeSLEB_loop data lim i acc b0 = decodeSLEB_loop data lim (Suc i) (acc OR push_bit (7 * i) x) c"
  by (subst decodeSLEB_loop.simps, simp add: Let_def)+

lemma decodeSLEB_loop_encoded:
  "drop i data = encodeSLEB128_64 v @ rest \<Longrightarrow> i + length (encodeSLEB128_64 v) \<le> lim \<Longrightarrow>
   \<exists>b. decodeSLEB_loop data lim i acc b0 =
       (acc OR push_bit (7 * i) (take_bit (7 * length (encodeSLEB128_64 v)) v),
        7 * (i + length (encodeSLEB128_64 v)), b, i + length (encodeSLEB128_64 v) - 1) \<and>
     (bit b 6 \<longleftrightarrow> bit v 63) \<and> sign_from (7 * length (encodeSLEB128_64 v) - 1) v \<and> encodeSLEB128_64 v \<noteq> []"
proof (induction v arbitrary: i acc b0 rule: encodeSLEB128_64.induct)
  case (1 v)
  let ?b = "ucast (v AND 0x7f) :: u8" and ?v' = "signed_drop_bit 7 v"
  let ?stop = "(?v' = 0 \<and> ?b AND 0x40 = 0) \<or> (?v' = - 1 \<and> ?b AND 0x40 \<noteq> 0)"
  have stop: "?stop \<longleftrightarrow> (?v' = 0 \<and> \<not> bit v 6) \<or> (?v' = - 1 \<and> bit v 6)"
    by (simp add: and_0x40 bit_low7)
  show ?case
  proof (cases ?stop)
    case True
    then have enc: "encodeSLEB128_64 v = [?b]" by (subst encodeSLEB128_64.simps) (simp add: Let_def)
    from 1(2) enc have d: "i < length data" "data ! i = ?b" by (auto dest!: drop_ConsD)
    have s: "sign_from 6 v" using True stop last_step by blast
    have val: "ucast (?b AND 0x7f) = take_bit 7 v"
      unfolding group_value64 by (simp only: low7_mask take_bit_eq_mask)
    have "i < lim" using 1(3) enc by simp
    from decodeSLEB_stop [OF d(1) this d(2) last_flag64 val]
    have "decodeSLEB_loop data lim i acc b0 = (acc OR push_bit (7 * i) (take_bit 7 v), 7 * i + 7, ?b, i)" .
    moreover have "bit ?b 6 \<longleftrightarrow> bit v 63"
      using sign_fromD [OF s, of 6] by (simp add: bit_low7)
    ultimately show ?thesis using enc s by simp
  next
    case False
    then have enc: "encodeSLEB128_64 v = (?b OR 0x80) # encodeSLEB128_64 ?v'"
      by (subst encodeSLEB128_64.simps) (simp only: Let_def False if_False)
    from 1(2) enc have d: "i < length data" "data ! i = ?b OR 0x80"
        "drop (Suc i) data = encodeSLEB128_64 ?v' @ rest"
      by (auto dest!: drop_ConsD)
    have lim: "Suc i + length (encodeSLEB128_64 ?v') \<le> lim" using 1(3) enc by simp
    obtain b where IH: "decodeSLEB_loop data lim (Suc i) (acc OR push_bit (7 * i) (v AND 0x7f)) (?b OR 0x80) =
        ((acc OR push_bit (7 * i) (v AND 0x7f)) OR
          push_bit (7 * Suc i) (take_bit (7 * length (encodeSLEB128_64 ?v')) ?v'),
         7 * (Suc i + length (encodeSLEB128_64 ?v')), b, Suc i + length (encodeSLEB128_64 ?v') - 1)"
      and sg: "bit b 6 \<longleftrightarrow> bit ?v' 63" "sign_from (7 * length (encodeSLEB128_64 ?v') - 1) ?v'"
        "encodeSLEB128_64 ?v' \<noteq> []"
      using 1(1) [OF refl refl False d(3) lim] by blast
    have "i < lim" using lim by simp
    from decodeSLEB_more [OF d(1) this d(2) more_flag64 group_value64(1)]
    have "decodeSLEB_loop data lim i acc b0 =
        decodeSLEB_loop data lim (Suc i) (acc OR push_bit (7 * i) (v AND 0x7f)) (?b OR 0x80)" .
    also note IH
    also have "(acc OR push_bit (7 * i) (v AND 0x7f)) OR
          push_bit (7 * Suc i) (take_bit (7 * length (encodeSLEB128_64 ?v')) ?v')
        = acc OR push_bit (7 * i) (take_bit (7 * length (encodeSLEB128_64 v)) v)"
      using take_bit_group [of "7 * i" v "7 * length (encodeSLEB128_64 ?v')"] enc
      by (simp only: or.assoc) (simp add: add.commute)
    finally have run: "decodeSLEB_loop data lim i acc b0 = (acc OR push_bit (7 * i)
        (take_bit (7 * length (encodeSLEB128_64 v)) v), 7 * (i + length (encodeSLEB128_64 v)), b,
        i + length (encodeSLEB128_64 v) - 1)"
      using enc by simp
    have "sign_from (7 * length (encodeSLEB128_64 v) - 1) v"
      unfolding sign_from_def
    proof (intro allI impI)
      fix n assume n: "7 * length (encodeSLEB128_64 v) - 1 \<le> n" "n < 64"
      have k: "0 < length (encodeSLEB128_64 ?v')" using sg(3) by simp
      moreover have "7 * length (encodeSLEB128_64 ?v') + 6 \<le> n" using n enc by simp
      ultimately have "7 * length (encodeSLEB128_64 ?v') - 1 \<le> n - 7" "7 \<le> n" by arith+
      then have "bit ?v' (n - 7) \<longleftrightarrow> bit ?v' 63"
        using n(2) by (intro sign_fromD [OF sg(2)]) arith+
      moreover have "bit ?v' (n - 7) \<longleftrightarrow> bit v n" "bit ?v' 63 \<longleftrightarrow> bit v 63"
        using n \<open>7 \<le> n\<close> by (simp_all add: bit_signed_drop_7 less_imp_diff_less)
      ultimately show "bit v n \<longleftrightarrow> bit v 63" by blast
    qed
    moreover have "bit b 6 \<longleftrightarrow> bit v 63" unfolding sg(1) by (simp add: bit_signed_drop_7)
    moreover have "encodeSLEB128_64 v \<noteq> []" unfolding enc by simp
    ultimately show ?thesis using run by (intro exI [of _ b] conjI)
  qed
qed

lemma sign_extended:
  assumes s: "sign_from (7 * k - 1) v" and k: "0 < k" and m: "(neg \<longleftrightarrow> bit v 63)"
  shows "(if 7 * k < 64 \<and> neg then take_bit (7 * k) v OR - push_bit (7 * k) 1 else take_bit (7 * k) v) = v"
proof (rule bit_word_eqI)
  fix n assume n: "n < LENGTH(64)"
  have one: "- push_bit (7 * k) 1 = (NOT (mask (7 * k)) :: u64)"
    by (simp add: push_bit_eq_mult flip: minus_exp_eq_not_mask)
  show "bit (if 7 * k < 64 \<and> neg then take_bit (7 * k) v OR - push_bit (7 * k) 1 else take_bit (7 * k) v) n
      = bit v n"
  proof (cases "n < 7 * k")
    case True
    then show ?thesis
      unfolding one using n by (auto simp: bit_or_iff bit_take_bit_iff bit_not_iff bit_mask_iff)
  next
    case False
    then have "bit v n \<longleftrightarrow> bit v 63" using n by (intro sign_fromD [OF s]) simp_all
    then show ?thesis
      unfolding one using n False m by (auto simp: bit_or_iff bit_take_bit_iff bit_not_iff bit_mask_iff)
  qed
qed

lemma div_128_range: "- (128 * m) \<le> z \<Longrightarrow> z < 128 * m \<Longrightarrow> - m \<le> z div 128 \<and> z div 128 < (m :: int)"
proof -
  assume lo: "- (128 * m) \<le> z" and hi: "z < 128 * m"
  obtain q r where q: "z div 128 = q" and z: "z = 128 * q + r" and r: "0 \<le> r" "r < 128"
    using that [of "z div 128" "z mod 128"] by simp
  have "q < m" using hi z r by linarith
  moreover have "- m \<le> q" using lo z r by linarith
  ultimately show ?thesis unfolding q by simp
qed

lemma length_encodeSLEB128_64:
  "0 < k \<Longrightarrow> - (2 ^ (7 * k - 1)) \<le> sint v \<Longrightarrow> sint v < 2 ^ (7 * k - 1) \<Longrightarrow> length (encodeSLEB128_64 v) \<le> k"
proof (induction v arbitrary: k rule: encodeSLEB128_64.induct)
  case (1 v)
  let ?b = "ucast (v AND 0x7f) :: u8" and ?v' = "signed_drop_bit 7 v"
  let ?stop = "(?v' = 0 \<and> ?b AND 0x40 = 0) \<or> (?v' = - 1 \<and> ?b AND 0x40 \<noteq> 0)"
  show ?case
  proof (cases ?stop)
    case True
    then have "encodeSLEB128_64 v = [?b]" by (subst encodeSLEB128_64.simps) (simp add: Let_def)
    with 1(2) show ?thesis by simp
  next
    case False
    then have enc: "encodeSLEB128_64 v = (?b OR 0x80) # encodeSLEB128_64 ?v'"
      by (subst encodeSLEB128_64.simps) (simp only: Let_def False if_False)
    have "k \<noteq> 1"
    proof
      assume "k = 1"
      then have r: "- 64 \<le> sint v" "sint v < 64" using 1(3,4) by simp_all
      have "sint v div 2 ^ 6 = (if sint v < 0 then - 1 else 0)" "sint v div 128 = (if sint v < 0 then - 1 else 0)"
        using r by auto
      then have "bit v 6 \<longleftrightarrow> sint v < 0" "sint ?v' = (if sint v < 0 then - 1 else 0)"
        using bit_sint_iff [of v 6] by (simp_all add: bit_iff_odd [of "sint v"] sint_signed_drop_bit_7 split: if_splits)
      then have ?stop
        by (cases "sint v < 0") (simp_all add: and_0x40 bit_low7 signed_eq_0_iff sint_minus_1_iff)
      with False show False ..
    qed
    then obtain j where j: "k = Suc j" "0 < j" using 1(2) by (cases k) auto
    then have e: "7 * k - 1 = 7 + (7 * j - 1)" by simp
    have "- (2 ^ (7 * j - 1)) \<le> sint v div 128 \<and> sint v div 128 < 2 ^ (7 * j - 1)"
      using 1(3,4) unfolding e power_add by (intro div_128_range) simp_all
    then have "length (encodeSLEB128_64 ?v') \<le> j"
      by (intro 1(1) [OF refl refl False j(2)]) (simp_all add: sint_signed_drop_bit_7)
    then show ?thesis using enc j by simp
  qed
qed

lemma decodeSLEB128_64_encoded:
  "decodeSLEB128_64 (encodeSLEB128_64 v @ rest) = (v, length (encodeSLEB128_64 v))"
proof -
  let ?k = "length (encodeSLEB128_64 v)"
  have "- (2 ^ 69) \<le> sint v" "sint v < 2 ^ 69"
    using sint_greater_eq [of v] sint_less [of v] by simp_all
  then have k: "?k \<le> 10" by (intro length_encodeSLEB128_64) simp_all
  from decodeSLEB_loop_encoded [of 0 "encodeSLEB128_64 v @ rest" v rest 10 0 0] k
  obtain b where run: "decodeSLEB_loop (encodeSLEB128_64 v @ rest) 10 0 0 0 =
      (take_bit (7 * ?k) v, 7 * ?k, b, ?k - 1)"
    and b: "bit b 6 \<longleftrightarrow> bit v 63" and s: "sign_from (7 * ?k - 1) v" and ne: "encodeSLEB128_64 v \<noteq> []"
    by auto
  have "0 < ?k" using ne by simp
  from sign_extended [OF s this] b have
    "(if 7 * ?k < 64 \<and> b AND 0x40 \<noteq> 0 then take_bit (7 * ?k) v OR - push_bit (7 * ?k) 1
      else take_bit (7 * ?k) v) = v"
    by (simp add: and_0x40)
  with run \<open>0 < ?k\<close> show ?thesis by (simp add: decodeSLEB128_64_def)
qed

lemma sint_scast_up: "sint (scast (w :: u32) :: u64) = sint w"
  by (rule sint_up_scast) (simp add: is_up)

lemma scast_shift: "scast (signed_drop_bit 7 w) = signed_drop_bit 7 (scast (w :: u32) :: u64)"
proof -
  have "sint (scast (signed_drop_bit 7 w) :: u64) = sint (signed_drop_bit 7 (scast w) :: u64)"
    by (simp only: sint_signed_drop_bit_7 sint_scast_up)
  then show ?thesis by (rule signed_word_eqI)
qed

lemma low7_scast: "ucast (w AND 0x7f) = (ucast ((scast (w :: u32) :: u64) AND 0x7f) :: u8)"
proof (rule bit_word_eqI)
  fix n assume "n < LENGTH(8)"
  then show "bit (ucast (w AND 0x7f) :: u8) n = bit (ucast ((scast w :: u64) AND 0x7f) :: u8) n"
    unfolding bit_ucast_iff bit_and_iff bit_0x7f bit_word_scast_iff by auto
qed

lemma scast_0_iff: "(scast (w :: u32) :: u64) = 0 \<longleftrightarrow> w = 0"
  and scast_m1_iff: "(scast (w :: u32) :: u64) = - 1 \<longleftrightarrow> w = - 1"
  by (metis sint_scast_up signed_eq_0_iff, metis sint_scast_up sint_minus_1_iff)

lemma encodeSLEB128_scast: "encodeSLEB128 w = encodeSLEB128_64 (scast w)"
proof (induction w rule: encodeSLEB128.induct)
  case (1 w)
  then show ?case
    by (subst encodeSLEB128.simps, subst encodeSLEB128_64.simps)
      (simp only: Let_def low7_scast scast_shift [symmetric] scast_0_iff scast_m1_iff split: if_split, blast)
qed

lemma decodeSLEB128_encoded: "decodeSLEB128 (encodeSLEB128 w @ rest) = (w, length (encodeSLEB128 w))"
proof -
  let ?v = "scast w :: u64"
  let ?k = "length (encodeSLEB128_64 ?v)"
  have "- (2 ^ 34) \<le> sint ?v" "sint ?v < 2 ^ 34"
    using sint_greater_eq [of w] sint_less [of w] by (simp_all add: sint_scast_up)
  then have k: "?k \<le> 5" by (intro length_encodeSLEB128_64) simp_all
  from decodeSLEB_loop_encoded [of 0 "encodeSLEB128_64 ?v @ rest" ?v rest 5 0 0] k
  obtain b where run: "decodeSLEB_loop (encodeSLEB128_64 ?v @ rest) 5 0 0 0 =
      (take_bit (7 * ?k) ?v, 7 * ?k, b, ?k - 1)"
    and b: "bit b 6 \<longleftrightarrow> bit ?v 63" and s: "sign_from (7 * ?k - 1) ?v" and ne: "encodeSLEB128_64 ?v \<noteq> []"
    by auto
  have k0: "0 < ?k" using ne by simp
  have v: "ucast ?v = w"
    by (rule bit_word_eqI) (simp add: bit_ucast_iff bit_word_scast_iff)
  have "ucast (if 7 * ?k < 32 \<and> b AND 0x40 \<noteq> 0 then take_bit (7 * ?k) ?v OR - push_bit (7 * ?k) 1
      else take_bit (7 * ?k) ?v) = w"
  proof (cases "7 * ?k < 32")
    case True
    then show ?thesis using sign_extended [OF s k0, of "bit b 6"] b v by (simp add: and_0x40 split: if_splits)
  next
    case False
    then have "ucast (take_bit (7 * ?k) ?v) = (ucast ?v :: u32)"
      by (intro bit_word_eqI) (simp add: bit_ucast_iff bit_take_bit_iff)
    with False v show ?thesis by simp
  qed
  with run k0 show ?thesis unfolding encodeSLEB128_scast by (simp add: decodeSLEB128_def)
qed

end
