(* ===== verification/DceBody.thy ===== *)
theory DceBody
  imports DceLeb
begin

unbundle bit_operations_syntax

text \<open>
  internal/dce/dce.go, function bodies: \<open>scanCalls\<close>, which collects the functions a body calls,
  and \<open>rewriteBody\<close>, which replaces their indices. A body was copied into a slice of its own, so
  its capacity is its length. Both can panic on a truncated body, and both loop forever on a
  \<open>br_table\<close> whose count is \<open>2 ^ 32 - 1\<close>, as the loop counts up to the count included in 32 bits.
  The last section shows that a rewritten body calls exactly the images of the functions called.
\<close>

section \<open>Reading at a position\<close>

definition uleb_at :: "bytes \<Rightarrow> nat \<Rightarrow> (u32 \<times> nat) may_panic" where
  "uleb_at body pos = obind (gslice body pos (length body)) (\<lambda>d. Ok (decodeULEB128 d))"

definition sleb_at :: "bytes \<Rightarrow> nat \<Rightarrow> (u32 \<times> nat) may_panic" where
  "sleb_at body pos = obind (gslice body pos (length body)) (\<lambda>d. Ok (decodeSLEB128 d))"

definition sleb64_at :: "bytes \<Rightarrow> nat \<Rightarrow> (u64 \<times> nat) may_panic" where
  "sleb64_at body pos = obind (gslice body pos (length body)) (\<lambda>d. Ok (decodeSLEB128_64 d))"

text \<open>The value types that stand for a block type of one byte.\<close>

definition is_block_byte :: "u8 \<Rightarrow> bool" where
  "is_block_byte bt \<longleftrightarrow> bt \<in> set [0x40, 0x7f, 0x7e, 0x7d, 0x7c]"

text \<open>The opcodes with one, and with two, unsigned immediates (calls apart).\<close>

definition one_uleb :: "u8 \<Rightarrow> bool" where
  "one_uleb op \<longleftrightarrow> op \<in> set [0x0c, 0x0d, 0x20, 0x21, 0x22, 0x23, 0x24, 0x3f, 0x40]"

definition two_ulebs :: "u8 \<Rightarrow> bool" where
  "two_ulebs op \<longleftrightarrow> op = 0x11 \<or> (op \<ge> 0x28 \<and> op \<le> 0x3e)"

section \<open>Scanning\<close>

text \<open>
  \<open>for j := uint32(0); j <= count; j++\<close>: the labels read, and the position after them. The loop
  may not end, which is the value \<open>None\<close>.
\<close>

partial_function (option) brTable_loop ::
  "u32 \<Rightarrow> u32 \<Rightarrow> bytes \<Rightarrow> nat \<Rightarrow> u32 list \<Rightarrow> (nat \<times> u32 list) may_panic option" where
  "brTable_loop count j body pos vals =
     (if j \<le> count then
        (case uleb_at body pos of
          Ok (val, ln) \<Rightarrow> brTable_loop count (j + 1) body (pos + ln) (vals @ [val])
        | Err e \<Rightarrow> Some (Err e) | Panic \<Rightarrow> Some Panic | Diverge \<Rightarrow> Some Diverge)
      else Some (Ok (pos, vals)))"

definition or_diverge :: "('e, 'a) outcome option \<Rightarrow> ('e, 'a) outcome" where
  "or_diverge r = (case r of None \<Rightarrow> Diverge | Some m \<Rightarrow> m)"

text \<open>One turn of the loop of \<open>scanCalls\<close>: the position after the instruction and its call target.\<close>

definition scanInstr :: "bytes \<Rightarrow> nat \<Rightarrow> (nat \<times> u32 option) may_panic" where
  "scanInstr body pos =
     obind (at_idx body pos) (\<lambda>opcode. let pos = pos + 1 in
       if opcode \<in> set [0x02, 0x03, 0x04] then
         if pos < length body then
           obind (at_idx body pos) (\<lambda>bt.
             if is_block_byte bt then Ok (pos + 1, None)
             else obind (sleb_at body pos) (\<lambda>(_, sn). Ok (pos + sn, None)))
         else Ok (pos, None)
       else if one_uleb opcode then obind (uleb_at body pos) (\<lambda>(_, n). Ok (pos + n, None))
       else if opcode = 0x10 then obind (uleb_at body pos) (\<lambda>(idx, n). Ok (pos + n, Some idx))
       else if two_ulebs opcode then
         obind (uleb_at body pos) (\<lambda>(_, n1). obind (uleb_at body (pos + n1)) (\<lambda>(_, n2).
           Ok (pos + n1 + n2, None)))
       else if opcode = 0x0e then
         obind (uleb_at body pos) (\<lambda>(count, cn).
         obind (or_diverge (brTable_loop count 0 body (pos + cn) [])) (\<lambda>(pos, _). Ok (pos, None)))
       else if opcode = 0x41 then obind (sleb_at body pos) (\<lambda>(_, sn). Ok (pos + sn, None))
       else if opcode = 0x42 then obind (sleb64_at body pos) (\<lambda>(_, sn). Ok (pos + sn, None))
       else if opcode = 0x43 then Ok (pos + 4, None)
       else if opcode = 0x44 then Ok (pos + 8, None)
       else Ok (pos, None))"

primrec scanLocals :: "nat \<Rightarrow> bytes \<Rightarrow> nat \<Rightarrow> nat may_panic" where
  "scanLocals 0 body pos = Ok pos"
| "scanLocals (Suc k) body pos =
     obind (uleb_at body pos) (\<lambda>(_, cn). scanLocals k body (pos + cn + 1))"

section \<open>The loop over the labels\<close>

text \<open>The labels read, when there are \<open>k\<close> of them.\<close>

lemma uleb_at_in: "pos \<le> length body \<Longrightarrow> uleb_at body pos = Ok (decodeULEB128 (drop pos body))"
  by (simp add: uleb_at_def gslice_in)

lemma uleb_at_Ok: "uleb_at body pos = Ok (v, n) \<longleftrightarrow> pos \<le> length body \<and> decodeULEB128 (drop pos body) = (v, n)"
  by (auto simp: uleb_at_def gslice_def)

lemma uleb_at_bound: "uleb_at body pos = Ok (v, n) \<Longrightarrow> pos + n \<le> length body"
  using decodeULEB128_bound [of "drop pos body"] by (auto simp: uleb_at_Ok)

text \<open>With the largest count the loop never ends.\<close>

lemma brTable_loop_max:
  assumes p: "pos \<le> length body"
  shows "brTable_loop (- 1) j body pos vals = None"
proof (rule ccontr)
  assume "brTable_loop (- 1) j body pos vals \<noteq> None"
  then obtain r where r: "brTable_loop (- 1) j body pos vals = Some r" by blast
  have "(- 1 :: u32) = - 1 \<longrightarrow> \<not> pos \<le> length body"
  proof (rule brTable_loop.raw_induct
      [where P = "\<lambda>count j body pos vals r. count = - 1 \<longrightarrow> \<not> pos \<le> length body", OF _ r], intro impI notI)
    fix scan :: "u32 \<Rightarrow> u32 \<Rightarrow> bytes \<Rightarrow> nat \<Rightarrow> u32 list \<Rightarrow> (nat \<times> u32 list) may_panic option"
      and count j :: u32 and body pos vals r
    assume IH: "\<And>count j body pos vals r. scan count j body pos vals = Some r \<Longrightarrow>
        count = - 1 \<longrightarrow> \<not> pos \<le> length body"
      and eq: "(if j \<le> count then (case uleb_at body pos of
          Ok (val, ln) \<Rightarrow> scan count (j + 1) body (pos + ln) (vals @ [val])
        | Err e \<Rightarrow> Some (Err e) | Panic \<Rightarrow> Some Panic | Diverge \<Rightarrow> Some Diverge)
      else Some (Ok (pos, vals))) = Some r" and max: "count = - 1" and pos: "pos \<le> length body"
    let ?d = "decodeULEB128 (drop pos body)"
    have "scan count (j + 1) body (pos + snd ?d) (vals @ [fst ?d]) = Some r"
      using eq max pos by (simp add: uleb_at_in split_beta)
    from IH [OF this] max decodeULEB128_bound [of "drop pos body"] pos show False by simp
  qed
  with p show False by blast
qed

text \<open>Otherwise it reads one label more than the count.\<close>

primrec labels :: "nat \<Rightarrow> bytes \<Rightarrow> nat \<Rightarrow> nat \<times> u32 list" where
  "labels 0 body pos = (pos, [])"
| "labels (Suc k) body pos = (let (v, n) = decodeULEB128 (drop pos body); (q, vs) = labels k body (pos + n)
     in (q, v # vs))"

lemma labels_bound: "pos \<le> length body \<Longrightarrow> pos \<le> fst (labels k body pos) \<and> fst (labels k body pos) \<le> length body"
proof (induction k arbitrary: pos)
  case 0
  then show ?case by simp
next
  case (Suc k)
  have "pos + snd (decodeULEB128 (drop pos body)) \<le> length body"
    using decodeULEB128_bound [of "drop pos body"] Suc.prems by simp
  from Suc.IH [OF this] show ?case by (simp add: Let_def split_beta)
qed

lemma unat_not_max: "count \<noteq> - 1 \<Longrightarrow> unat (count :: u32) < 2 ^ 32 - 1"
proof -
  assume "count \<noteq> - 1"
  then have "unat count \<noteq> unat (- 1 :: u32)" by (simp add: word_unat_eq_iff)
  moreover have "unat (- 1 :: u32) = 2 ^ 32 - 1"
    by (simp add: unsigned_minus_1_eq_mask mask_eq_exp_minus_1)
  ultimately show ?thesis using unat_u32_bound [of count] by (simp del: unat_u32_bound)
qed

lemma brTable_loop_labels:
  assumes "count \<noteq> - 1" and "pos \<le> length body"
  shows "brTable_loop count 0 body pos [] = Some (Ok (labels (Suc (unat count)) body pos))"
proof -
  have "brTable_loop count j body pos vals =
      Some (Ok (fst (labels k body pos), vals @ snd (labels k body pos)))"
    if "unat j + k = Suc (unat count)" "pos \<le> length body" for j k pos vals
    using that
  proof (induction k arbitrary: j pos vals)
    case 0
    then show ?case by (subst brTable_loop.simps) (simp add: word_le_nat_alt)
  next
    case (Suc k)
    obtain v n where d: "decodeULEB128 (drop pos body) = (v, n)" by (cases "decodeULEB128 (drop pos body)")
    have "unat (j + 1) = unat j + 1"
      using Suc.prems(1) unat_not_max [OF assms(1)] by (simp add: unat_word_ariths)
    moreover have "pos + n \<le> length body"
      using decodeULEB128_bound [of "drop pos body"] Suc.prems(2) d by simp
    moreover have "j \<le> count" using Suc.prems(1) by (simp add: word_le_nat_alt)
    ultimately show ?case
      using Suc.IH [of "j + 1" "pos + n" "vals @ [v]"] Suc.prems d
      by (subst brTable_loop.simps) (simp add: uleb_at_in split_beta)
  qed
  from this [of 0 "Suc (unat count)" pos "[]"] show ?thesis using assms(2) by simp
qed

lemma brTable_loop_forward:
  "brTable_loop count j body pos vals = Some (Ok (q, vs)) \<Longrightarrow> pos \<le> q"
proof -
  assume r: "brTable_loop count j body pos vals = Some (Ok (q, vs))"
  have "case (Ok (q, vs) :: (nat \<times> u32 list) may_panic) of Ok (q, vs) \<Rightarrow> pos \<le> q | _ \<Rightarrow> True"
    by (rule brTable_loop.raw_induct
        [where P = "\<lambda>count j body pos vals r. (case r of Ok (q, vs) \<Rightarrow> pos \<le> q | _ \<Rightarrow> True)", OF _ r])
      (fastforce split: if_splits outcome.splits prod.splits)
  then show ?thesis by simp
qed

section \<open>The loop over the instructions\<close>

lemma obind_pos_less:
  "(case m of Ok (q, c) \<Rightarrow> p < (q :: nat) | _ \<Rightarrow> True) \<Longrightarrow> m = Ok (q, c) \<Longrightarrow> p < q"
  by simp

lemma scanInstr_forward: "scanInstr body pos = Ok (q, c) \<Longrightarrow> pos < q"
  unfolding scanInstr_def Let_def
  by (auto split: if_splits prod.splits simp: or_diverge_def obind_eq_Ok split: option.splits
      dest!: brTable_loop_forward)

function scan_loop :: "bytes \<Rightarrow> nat \<Rightarrow> u32 set \<Rightarrow> u32 set may_panic" where
  "scan_loop body pos targets =
     (if pos < length body then
        obind (scanInstr body pos) (\<lambda>(pos', call).
          scan_loop body pos' (targets \<union> set_option call))
      else Ok targets)"
  by pat_completeness auto
termination
  by (relation "measure (\<lambda>(body, pos, _). length body - pos)") (auto dest!: scanInstr_forward)

declare scan_loop.simps [simp del]

definition scanCalls :: "bytes \<Rightarrow> u32 set may_panic" where
  "scanCalls body =
     (if length body \<le> 0 then Ok {}
      else obind (uleb_at body 0) (\<lambda>(localDeclCount, n).
           obind (scanLocals (unat localDeclCount) body n) (\<lambda>pos. scan_loop body pos {})))"

section \<open>Rewriting\<close>

definition reindexed :: "(u32 \<rightharpoonup> u32) \<Rightarrow> u32 \<Rightarrow> u32" where
  "reindexed reindexMap idx = (case reindexMap idx of Some mapped \<Rightarrow> mapped | None \<Rightarrow> idx)"

text \<open>One turn of the loop of \<open>rewriteBody\<close>: the position after the instruction and the bytes written.\<close>

definition rewriteInstr :: "bytes \<Rightarrow> (u32 \<rightharpoonup> u32) \<Rightarrow> nat \<Rightarrow> (nat \<times> bytes) may_panic" where
  "rewriteInstr body reindexMap pos =
     obind (at_idx body pos) (\<lambda>opcode. let pos = pos + 1 in
       if opcode \<in> set [0x02, 0x03, 0x04] then
         if pos < length body then
           obind (at_idx body pos) (\<lambda>bt.
             if is_block_byte bt then Ok (pos + 1, [opcode, bt])
             else obind (sleb_at body pos) (\<lambda>(val, sn). Ok (pos + sn, opcode # encodeSLEB128 val)))
         else Ok (pos, [opcode])
       else if one_uleb opcode then
         obind (uleb_at body pos) (\<lambda>(val, n). Ok (pos + n, opcode # encodeULEB128 val))
       else if opcode = 0x10 then
         obind (uleb_at body pos) (\<lambda>(oldIdx, n).
           Ok (pos + n, opcode # encodeULEB128 (reindexed reindexMap oldIdx)))
       else if two_ulebs opcode then
         obind (uleb_at body pos) (\<lambda>(val1, n1). obind (uleb_at body (pos + n1)) (\<lambda>(val2, n2).
           Ok (pos + n1 + n2, opcode # encodeULEB128 val1 @ encodeULEB128 val2)))
       else if opcode = 0x0e then
         obind (uleb_at body pos) (\<lambda>(count, cn).
         obind (or_diverge (brTable_loop count 0 body (pos + cn) [])) (\<lambda>(pos, vals).
           Ok (pos, opcode # encodeULEB128 count @ concat (map encodeULEB128 vals))))
       else if opcode = 0x41 then
         obind (sleb_at body pos) (\<lambda>(val, sn). Ok (pos + sn, opcode # encodeSLEB128 val))
       else if opcode = 0x42 then
         obind (sleb64_at body pos) (\<lambda>(val, sn). Ok (pos + sn, opcode # encodeSLEB128_64 val))
       else if opcode = 0x43 then
         obind (gslice body pos (pos + 4)) (\<lambda>imm. Ok (pos + 4, opcode # imm))
       else if opcode = 0x44 then
         obind (gslice body pos (pos + 8)) (\<lambda>imm. Ok (pos + 8, opcode # imm))
       else Ok (pos, [opcode]))"

lemma rewriteInstr_forward: "rewriteInstr body m pos = Ok (q, out) \<Longrightarrow> pos < q"
  unfolding rewriteInstr_def Let_def
  by (auto split: if_splits prod.splits simp: or_diverge_def obind_eq_Ok split: option.splits
      dest!: brTable_loop_forward)

function rewrite_loop :: "bytes \<Rightarrow> (u32 \<rightharpoonup> u32) \<Rightarrow> nat \<Rightarrow> bytes may_panic" where
  "rewrite_loop body reindexMap pos =
     (if pos < length body then
        obind (rewriteInstr body reindexMap pos) (\<lambda>(pos', out).
        obind (rewrite_loop body reindexMap pos') (\<lambda>rest. Ok (out @ rest)))
      else Ok [])"
  by pat_completeness auto
termination
  by (relation "measure (\<lambda>(body, _, pos). length body - pos)") (auto dest!: rewriteInstr_forward)

declare rewrite_loop.simps [simp del]

primrec rewriteLocals :: "nat \<Rightarrow> bytes \<Rightarrow> nat \<Rightarrow> (nat \<times> bytes) may_panic" where
  "rewriteLocals 0 body pos = Ok (pos, [])"
| "rewriteLocals (Suc k) body pos =
     obind (uleb_at body pos) (\<lambda>(_, cn).
     obind (gslice body pos (pos + cn)) (\<lambda>decl.
     obind (at_idx body (pos + cn)) (\<lambda>valtype.
     obind (rewriteLocals k body (pos + cn + 1)) (\<lambda>(pos', out). Ok (pos', decl @ [valtype] @ out)))))"

definition rewriteBody :: "bytes \<Rightarrow> (u32 \<rightharpoonup> u32) \<Rightarrow> bytes may_panic" where
  "rewriteBody body reindexMap =
     obind (uleb_at body 0) (\<lambda>(localDeclCount, n).
     obind (gslice body 0 n) (\<lambda>decl.
     obind (rewriteLocals (unat localDeclCount) body n) (\<lambda>(pos, locals).
     obind (rewrite_loop body reindexMap pos) (\<lambda>out. Ok (decl @ locals @ out)))))"

section \<open>A rewritten body calls the images\<close>

text \<open>A number that ends before the data does is read from its own bytes.\<close>

lemma decodeULEB128_loop_gt:
  "decodeULEB128_loop d i v = (r, n) \<Longrightarrow> n < length d \<Longrightarrow> i < n"
proof (induction d i v rule: decodeULEB128_loop.induct)
  case (1 d i v)
  then show ?case by (subst (asm) (2) decodeULEB128_loop.simps) (force simp: Let_def split: if_splits)
qed

lemma decodeULEB128_loop_window:
  "decodeULEB128_loop d i v = (r, n) \<Longrightarrow> n < length d \<Longrightarrow> take n d' = take n d \<Longrightarrow>
     decodeULEB128_loop d' i v = (r, n)"
proof (induction d i v rule: decodeULEB128_loop.induct)
  case (1 d i v)
  have i: "i < length d \<and> i < 5"
    using "1.prems"(1,2) by (subst (asm) decodeULEB128_loop.simps) (auto split: if_splits)
  have more: "i < n"
    using "1.prems"(1,2) by (rule decodeULEB128_loop_gt)
  have at: "i < length d'" "d' ! i = d ! i"
    using more "1.prems"(2,3) i by (metis length_take min_less_iff_conj, metis nth_take)
  show ?case
  proof (cases "d ! i AND 0x80 = 0")
    case True
    with "1.prems"(1) i at show ?thesis
      by (subst decodeULEB128_loop.simps, subst (asm) decodeULEB128_loop.simps) simp
  next
    case False
    with "1.prems"(1) i have "decodeULEB128_loop d (Suc i) (v OR push_bit (7 * i) (ucast (d ! i AND 0x7f))) = (r, n)"
      by (subst (asm) decodeULEB128_loop.simps) simp
    from "1.IH" [OF i refl refl _ this "1.prems"(2,3)] False i at show ?thesis
      by (subst decodeULEB128_loop.simps) simp
  qed
qed

lemma uleb_at_window:
  assumes "uleb_at d p = Ok (v, n)" and "p + n < length d" and "take (p + n) d' = take (p + n) d"
  shows "uleb_at d' p = Ok (v, n)"
proof -
  have "take n (drop p d') = take n (drop p d)"
    using assms(3) by (metis add_diff_cancel_left' drop_take)
  moreover have "p \<le> length d'"
    using assms(2,3) by (metis add_leD1 length_take min.absorb_iff2 min.absorb3 nat_le_linear less_imp_le_nat)
  ultimately show ?thesis using assms(1,2)
    by (simp add: uleb_at_Ok decodeULEB128_def) (rule decodeULEB128_loop_window, auto)
qed

text \<open>A value type is one byte, and so is a number whose first byte is one.\<close>

lemma block_byte_flag: "is_block_byte b \<Longrightarrow> b AND 0x80 = 0"
  by (auto simp: is_block_byte_def)

lemma encodeSLEB128_cases:
  "(\<exists>b. encodeSLEB128 v = [b]) \<or> (\<exists>t. encodeSLEB128 v = (ucast (v AND 0x7f) OR 0x80) # t)"
  unfolding encodeSLEB128.simps [of v] Let_def by (simp split: if_splits)

lemma encodeSLEB128_single:
  assumes "hd (encodeSLEB128 v) AND 0x80 = 0"
  shows "encodeSLEB128 v = [hd (encodeSLEB128 v)]"
  using encodeSLEB128_cases [of v] more_flag64 [of "scast v"] assms by (auto simp: low7_scast)

lemma block_byte_encoded:
  "is_block_byte (hd (encodeSLEB128 v)) \<Longrightarrow> encodeSLEB128 v = [hd (encodeSLEB128 v)]"
  by (rule encodeSLEB128_single) (rule block_byte_flag)

lemma encodeSLEB128_nonempty [simp]: "encodeSLEB128 v \<noteq> []" "encodeSLEB128_64 w \<noteq> []"
  by (subst encodeSLEB128.simps, simp add: Let_def) (subst encodeSLEB128_64.simps, simp add: Let_def)

text \<open>Reading what a writer put at a position.\<close>

lemma drop_le: "drop q out = X @ Y \<Longrightarrow> X \<noteq> [] \<Longrightarrow> q \<le> length out"
  by (metis Nil_is_append_conv drop_eq_Nil nat_le_linear)

lemma uleb_at_encoded: "drop q out = encodeULEB128 v @ Y \<Longrightarrow> uleb_at out q = Ok (v, length (encodeULEB128 v))"
  using decodeULEB128_encoded [of q out v Y] drop_le [of q out "encodeULEB128 v" Y]
  dce_codec.enc_length [of v]
  by (auto simp: uleb_at_Ok)

lemma sleb_at_encoded: "drop q out = encodeSLEB128 w @ Y \<Longrightarrow> sleb_at out q = Ok (w, length (encodeSLEB128 w))"
  and sleb64_at_encoded: "drop q out = encodeSLEB128_64 d @ Y \<Longrightarrow> sleb64_at out q = Ok (d, length (encodeSLEB128_64 d))"
  using drop_le [of q out "encodeSLEB128 w" Y] drop_le [of q out "encodeSLEB128_64 d" Y]
  by (simp_all add: sleb_at_def sleb64_at_def gslice_in decodeSLEB128_encoded decodeSLEB128_64_encoded
      flip: length_drop del: length_drop take_append)

lemma labels_dec_list: "dce_codec.dec_list k body pos = Ok (snd (labels k body pos), fst (labels k body pos))"
  by (induction k arbitrary: pos) (simp_all add: Let_def split_beta)

lemma labels_encoded:
  "drop q out = concat (map encodeULEB128 vals) @ Y \<Longrightarrow>
     labels (length vals) out q = (q + length (concat (map encodeULEB128 vals)), vals)"
  using dce_codec.dec_list_enc [of q out vals Y] by (simp add: labels_dec_list prod_eq_iff)

lemma length_labels: "length (snd (labels k body pos)) = k"
  by (induction k arbitrary: pos) (simp_all add: Let_def split_beta)

text \<open>
  One instruction: both functions read the same immediates, and in the output the instruction
  written is read as one instruction again, which calls the image.
\<close>

lemma hd_drop: "drop q out = x # X \<Longrightarrow> q < length out \<and> out ! q = x \<and> drop (q + 1) out = X"
  by (metis Cons_nth_drop_Suc Suc_eq_plus1 drop_eq_Nil list.distinct(1) list.inject not_le)

lemma opcode_of: "rewriteInstr body m pos = Ok (pos', X) \<Longrightarrow> pos < length body \<and> (\<exists>Z. X = body ! pos # Z)"
  unfolding rewriteInstr_def Let_def by (auto simp: obind_eq_Ok split: if_splits)

lemma br_labels_Ok:
  assumes "or_diverge (brTable_loop count 0 body pos []) = Ok (q, vals)" and "pos \<le> length body"
  shows "count \<noteq> - 1" and "labels (Suc (unat count)) body pos = (q, vals)" and "length vals = Suc (unat count)"
proof -
  show c: "count \<noteq> - 1" using assms brTable_loop_max [of pos body 0 "[]"] by (auto simp: or_diverge_def)
  show l: "labels (Suc (unat count)) body pos = (q, vals)"
    using assms brTable_loop_labels [OF c assms(2)] by (simp add: or_diverge_def)
  show "length vals = Suc (unat count)"
    using length_labels [of "Suc (unat count)" body pos] unfolding l by simp
qed

lemma br_labels_encoded:
  assumes "drop q out = concat (map encodeULEB128 vals) @ Y" and "length vals = Suc (unat count)"
    and "count \<noteq> - 1" and "q \<le> length out"
  shows "or_diverge (brTable_loop count 0 out q []) =
    Ok (q + length (concat (map encodeULEB128 vals)), vals)"
  using brTable_loop_labels [OF assms(3,4)] labels_encoded [OF assms(1)] assms(2) by (simp add: or_diverge_def)

lemma instr_again:
  assumes w: "rewriteInstr body m pos = Ok (pos', X)" and d: "drop q out = X @ Y"
    and last: "pos' \<ge> length body \<Longrightarrow> Y = []"
  shows "\<exists>c. scanInstr body pos = Ok (pos', c) \<and>
     scanInstr out q = Ok (q + length X, map_option (reindexed m) c)"
proof -
  obtain op Z where op: "op = body ! pos" "X = op # Z" and p: "pos < length body"
    using opcode_of [OF w] by blast
  have o: "q < length out" "out ! q = op" and d': "drop (q + 1) out = Z @ Y"
    using hd_drop [of q out op "Z @ Y"] d op(2) by auto
  note defs = rewriteInstr_def scanInstr_def Let_def
  consider (block) "op \<in> set [0x02, 0x03, 0x04]" | (one) "one_uleb op" | (call) "op = 0x10"
    | (two) "two_ulebs op" | (table) "op = 0x0e" | (i32) "op = 0x41" | (i64) "op = 0x42"
    | (f32) "op = 0x43" | (f64) "op = 0x44"
    | (plain) "op \<notin> set [0x02, 0x03, 0x04, 0x10, 0x0e, 0x41, 0x42, 0x43, 0x44]" "\<not> one_uleb op" "\<not> two_ulebs op"
    by auto
  then show ?thesis
  proof cases
    case one
    then have "op \<notin> set [0x02, 0x03, 0x04]" by (auto simp: one_uleb_def)
    with w op p o one uleb_at_encoded [of "q + 1" out _ Y] d' show ?thesis
      by (auto simp: defs obind_eq_Ok)
  next
    case call
    with w op p o uleb_at_encoded [of "q + 1" out _ Y] d' show ?thesis
      by (auto simp: defs obind_eq_Ok one_uleb_def)
  next
    case plain
    with w op p o show ?thesis by (auto simp: defs obind_eq_Ok)
  next
    case i32
    with w op p o sleb_at_encoded [of "q + 1" out _ Y] d' show ?thesis
      by (auto simp: defs obind_eq_Ok one_uleb_def two_ulebs_def)
  next
    case i64
    with w op p o sleb64_at_encoded [of "q + 1" out _ Y] d' show ?thesis
      by (auto simp: defs obind_eq_Ok one_uleb_def two_ulebs_def)
  next
    case f32
    with w op p o show ?thesis
      by (auto simp: defs obind_eq_Ok one_uleb_def two_ulebs_def)
  next
    case f64
    with w op p o show ?thesis
      by (auto simp: defs obind_eq_Ok one_uleb_def two_ulebs_def)
  next
    case two
    then have no: "op \<notin> set [0x02, 0x03, 0x04]" "\<not> one_uleb op" "op \<noteq> 0x10"
      by (auto simp: two_ulebs_def one_uleb_def)
    with w op p two obtain v1 n1 v2 n2 where r: "uleb_at body (pos + 1) = Ok (v1, n1)"
        "uleb_at body (pos + 1 + n1) = Ok (v2, n2)" "pos' = pos + 1 + n1 + n2"
        "Z = encodeULEB128 v1 @ encodeULEB128 v2"
      by (auto simp: defs obind_eq_Ok)
    then have d1: "drop (q + 1) out = encodeULEB128 v1 @ (encodeULEB128 v2 @ Y)" using d' by simp
    note e = uleb_at_encoded [OF d1] uleb_at_encoded [OF drop_appendD [OF d1]]
    show ?thesis
      using r e no two op p o by (intro exI [of _ None]) (simp add: defs add.assoc)
  next
    case table
    then have no: "op \<notin> set [0x02, 0x03, 0x04]" "\<not> one_uleb op" "\<not> two_ulebs op"
      by (auto simp: two_ulebs_def one_uleb_def)
    with w op p table obtain count cn vals where r: "uleb_at body (pos + 1) = Ok (count, cn)"
        "or_diverge (brTable_loop count 0 body (pos + 1 + cn) []) = Ok (pos', vals)"
        "Z = encodeULEB128 count @ concat (map encodeULEB128 vals)"
      by (auto simp: defs obind_eq_Ok)
    then have d1: "drop (q + 1) out = encodeULEB128 count @ (concat (map encodeULEB128 vals) @ Y)" using d' by simp
    note b = br_labels_Ok [OF r(2)] uleb_at_bound [OF r(1)]
    have le: "q + 1 + length (encodeULEB128 count) \<le> length out"
      using drop_append_bound [OF d1] dce_codec.enc_length [of count] by auto
    from b have "or_diverge (brTable_loop count 0 out (q + 1 + length (encodeULEB128 count)) []) =
        Ok (q + 1 + length (encodeULEB128 count) + length (concat (map encodeULEB128 vals)), vals)"
      by (intro br_labels_encoded [OF drop_appendD [OF d1] _ _ le]) simp_all
    then show ?thesis
      using r uleb_at_encoded [OF d1] no table op p o by (intro exI [of _ None]) (simp add: defs add.assoc)
  next
    case block
    show ?thesis
    proof (cases "pos + 1 < length body \<and> \<not> is_block_byte (body ! (pos + 1))")
      case True
      with w op p block obtain val sn where r: "sleb_at body (pos + 1) = Ok (val, sn)"
          "pos' = pos + 1 + sn" "Z = encodeSLEB128 val"
        by (auto simp: defs obind_eq_Ok)
      then have d1: "drop (q + 1) out = encodeSLEB128 val @ Y" using d' by simp
      then have at: "q + 1 < length out" "out ! (q + 1) = hd (encodeSLEB128 val)"
        using hd_drop [of "q + 1" out "hd (encodeSLEB128 val)" "tl (encodeSLEB128 val) @ Y"]
        by (metis append_Cons encodeSLEB128_nonempty(1) list.exhaust_sel)+
      have len: "length (encodeSLEB128 val) = 1" if "is_block_byte (hd (encodeSLEB128 val))"
        using block_byte_encoded [OF that] by (metis length_Cons list.size(3) One_nat_def)
      show ?thesis
        using r True block op p o at len sleb_at_encoded [OF d1]
        by (intro exI [of _ None]) (auto simp: defs)
    next
      case False
      show ?thesis
      proof (cases "pos + 1 < length body")
        case True
        with False w op p block have r: "pos' = pos + 2" "Z = [body ! (pos + 1)]"
          by (auto simp: defs obind_eq_Ok)
        with hd_drop [of "q + 1" out "body ! (pos + 1)" Y] d' True False block op p o show ?thesis
          by (intro exI [of _ None]) (auto simp: defs)
      next
        case end_: False
        with False w op p block have r: "pos' = pos + 1" "Z = []"
          by (auto simp: defs obind_eq_Ok)
        with last end_ d' have "length out \<le> q + 1" by simp
        with r end_ block op p o show ?thesis
          by (intro exI [of _ None]) (auto simp: defs)
      qed
    qed
  qed
qed

lemma rewrite_loop_calls:
  "rewrite_loop body m pos = Ok X \<Longrightarrow> drop q out = X \<Longrightarrow>
     \<exists>T'. scan_loop body pos T = Ok T' \<and> scan_loop out q (reindexed m ` T) = Ok (reindexed m ` T')"
proof (induction body m pos arbitrary: X q T rule: rewrite_loop.induct)
  case (1 body m pos)
  show ?case
  proof (cases "pos < length body")
    case False
    with "1.prems" have "X = []" by (simp add: rewrite_loop.simps [of body m pos])
    with "1.prems" False show ?thesis
      by (simp add: scan_loop.simps [of body pos] scan_loop.simps [of out q])
  next
    case True
    then obtain pos' X1 X2 where r: "rewriteInstr body m pos = Ok (pos', X1)"
        "rewrite_loop body m pos' = Ok X2" "X = X1 @ X2"
      using "1.prems"(1) by (auto simp: rewrite_loop.simps [of body m pos] obind_eq_Ok)
    have d: "drop q out = X1 @ X2" using "1.prems"(2) r(3) by simp
    have "X2 = []" if "pos' \<ge> length body"
      using r(2) that by (simp add: rewrite_loop.simps [of body m pos'])
    from instr_again [OF r(1) d this] obtain c where c: "scanInstr body pos = Ok (pos', c)"
        "scanInstr out q = Ok (q + length X1, map_option (reindexed m) c)" by blast
    have q: "q < length out" using opcode_of [OF r(1)] hd_drop [of q out "body ! pos"] d by auto
    have im: "reindexed m ` (T \<union> set_option c) = reindexed m ` T \<union> set_option (map_option (reindexed m) c)"
      by (auto simp: option.set_map)
    have "\<exists>T'. scan_loop body pos' (T \<union> set_option c) = Ok T' \<and>
        scan_loop out (q + length X1) (reindexed m ` (T \<union> set_option c)) = Ok (reindexed m ` T')"
      using "1.IH" [OF True r(1) refl r(2) drop_appendD [OF d]] .
    then show ?thesis
      using True q c by (simp add: scan_loop.simps [of body pos] scan_loop.simps [of out q] im)
  qed
qed

text \<open>The local declarations are copied.\<close>

lemma rewriteLocals_copy:
  "rewriteLocals k body pos = Ok (pos', X) \<Longrightarrow> pos \<le> length body \<Longrightarrow>
     pos \<le> pos' \<and> pos' \<le> length body \<and> X = take (pos' - pos) (drop pos body) \<and>
     (take pos' out = take pos' body \<longrightarrow> scanLocals k body pos = Ok pos' \<and> scanLocals k out pos = Ok pos')"
proof (induction k arbitrary: pos X)
  case 0
  then show ?case by simp
next
  case (Suc k)
  then obtain v n X' where r: "uleb_at body pos = Ok (v, n)" "pos + n < length body"
      "rewriteLocals k body (pos + n + 1) = Ok (pos', X')"
      "X = take n (drop pos body) @ [body ! (pos + n)] @ X'"
    by (auto simp: obind_eq_Ok)
  from Suc.IH [OF r(3)] r(2) have IH: "pos + n + 1 \<le> pos'" "pos' \<le> length body"
      "X' = take (pos' - (pos + n + 1)) (drop (pos + n + 1) body)"
      "take pos' out = take pos' body \<longrightarrow>
        scanLocals k body (pos + n + 1) = Ok pos' \<and> scanLocals k out (pos + n + 1) = Ok pos'"
    by auto
  have "take (pos' - pos) (drop pos body) = take n (drop pos body) @ take (pos' - pos - n) (drop (pos + n) body)"
    using IH(1) take_add [of n "pos' - pos - n" "drop pos body"] by (simp add: add.commute)
  also have "drop (pos + n) body = body ! (pos + n) # drop (pos + n + 1) body"
    using r(2) by (simp add: Cons_nth_drop_Suc)
  finally have X: "X = take (pos' - pos) (drop pos body)"
    using IH(1,3) r(4) by (simp add: take_Cons')
  have "uleb_at out pos = Ok (v, n)" if "take pos' out = take pos' body"
  proof (rule uleb_at_window [OF r(1,2)])
    have "take (pos + n) (take pos' out) = take (pos + n) (take pos' body)" using that by simp
    then show "take (pos + n) out = take (pos + n) body" using IH(1) by (simp add: min_def)
  qed
  then show ?case using X IH r(1) by auto
qed

lemma rewriteBody_calls:
  assumes "rewriteBody body m = Ok out"
  shows "\<exists>T. scanCalls body = Ok T \<and> scanCalls out = Ok (reindexed m ` T)"
proof (cases "body = []")
  case True
  have "decodeULEB128 [] = (0, 0)" by (simp add: decodeULEB128_def decodeULEB128_loop.simps)
  with assms True have "out = []"
    by (auto simp: rewriteBody_def uleb_at_def gslice_def rewrite_loop.simps)
  with True show ?thesis by (simp add: scanCalls_def)
next
  case False
  from assms obtain c n pos L X where r: "uleb_at body 0 = Ok (c, n)"
      "rewriteLocals (unat c) body n = Ok (pos, L)" "rewrite_loop body m pos = Ok X"
      "out = take n body @ L @ X"
    by (auto simp: rewriteBody_def obind_eq_Ok)
  have n: "n \<le> length body" using uleb_at_bound [OF r(1)] by simp
  note lo = rewriteLocals_copy [OF r(2) n, of out]
  have prefix: "out = take pos body @ X"
    using lo r(4) take_add [of n "pos - n" body] by simp
  have dec: "uleb_at out 0 = Ok (c, n)"
  proof (cases "n < length body")
    case True
    show ?thesis
      by (rule uleb_at_window [OF r(1)]) (use True lo prefix in \<open>auto simp: min_def\<close>)
  next
    case False
    with n lo have "pos = length body" by simp
    with r(3) have "X = []" by (simp add: rewrite_loop.simps)
    with prefix \<open>pos = length body\<close> r(1) show ?thesis by simp
  qed
  have L: "scanLocals (unat c) body n = Ok pos" "scanLocals (unat c) out n = Ok pos"
    using lo prefix by auto
  have "drop pos out = X" using prefix lo by simp
  from rewrite_loop_calls [OF r(3) this, of "{}"] obtain T where
    "scan_loop body pos {} = Ok T" "scan_loop out pos {} = Ok (reindexed m ` T)" by auto
  moreover have "out \<noteq> []"
  proof
    assume "out = []"
    with prefix lo False have "n = 0" by auto
    with r(1) False decodeULEB128_loop_gt [of body 0 0 c 0] show False
      by (auto simp: uleb_at_Ok decodeULEB128_def)
  qed
  ultimately show ?thesis using False r(1) dec L by (simp add: scanCalls_def)
qed

section \<open>Bodies on which the functions panic or do not return\<close>

text \<open>
  A \<open>br_table\<close> with the count \<open>2 ^ 32 - 1\<close>, whose loop never ends, whatever the bytes after it.
\<close>

definition endless_body :: bytes where
  "endless_body = [0x00, 0x0e, 0xff, 0xff, 0xff, 0xff, 0x0f]"

lemma decodeULEB128_endless: "decodeULEB128 (0xff # 0xff # 0xff # 0xff # 0x0f # rest) = (- 1, 5)"
proof -
  have "encodeULEB128 (- 1) = [0xff, 0xff, 0xff, 0xff, 0x0f]" by code_simp
  with decodeULEB128_encoded [of 0 "0xff # 0xff # 0xff # 0xff # 0x0f # rest" "- 1" rest] show ?thesis by simp
qed

lemma decodeULEB128_zero: "decodeULEB128 (0x00 # rest) = (0, 1)"
  by (subst decodeULEB128_def, subst decodeULEB128_loop.simps) simp

lemma endless_instr:
  "scanInstr (endless_body @ rest) 1 = Diverge" "rewriteInstr (endless_body @ rest) m 1 = Diverge"
proof -
  have u: "uleb_at (endless_body @ rest) (Suc (Suc 0)) = Ok (- 1, 5)"
    by (simp add: uleb_at_Ok endless_body_def decodeULEB128_endless)
  have "brTable_loop (- 1) 0 (endless_body @ rest) 7 [] = None"
    by (rule brTable_loop_max) (simp add: endless_body_def)
  then have b: "or_diverge (brTable_loop (- 1) 0 (endless_body @ rest) 7 []) = Diverge" by (simp add: or_diverge_def)
  have o: "at_idx (endless_body @ rest) 1 = Ok 0x0e" by (simp add: endless_body_def)
  show "scanInstr (endless_body @ rest) 1 = Diverge" "rewriteInstr (endless_body @ rest) m 1 = Diverge"
    using u b o by (simp_all add: scanInstr_def rewriteInstr_def Let_def one_uleb_def two_ulebs_def)
qed

lemma endless_start: "uleb_at (endless_body @ rest) 0 = Ok (0, 1)" "1 < length (endless_body @ rest)"
  by (simp_all add: uleb_at_Ok endless_body_def decodeULEB128_zero)

lemma endless_scan: "scanCalls (endless_body @ rest) = Diverge"
proof -
  have "scan_loop (endless_body @ rest) 1 {} = Diverge"
    using endless_start(2) [of rest] by (subst scan_loop.simps) (simp add: endless_instr [simplified])
  then show ?thesis using endless_start [of rest] by (simp add: scanCalls_def) (simp add: endless_body_def)
qed

lemma endless_rewrite: "rewriteBody (endless_body @ rest) m = Diverge"
proof -
  have "rewrite_loop (endless_body @ rest) m 1 = Diverge"
    using endless_start(2) [of rest] by (subst rewrite_loop.simps) (simp add: endless_instr [simplified])
  then show ?thesis using endless_start [of rest] by (simp add: rewriteBody_def gslice_def)
qed

text \<open>
  Local declarations cut off at the end of the body: \<open>scanCalls\<close> may still return, with no calls, where
  \<open>rewriteBody\<close> panics on the missing value type; one declaration later both panic.
\<close>

lemma truncated_locals:
  "scanCalls [0x02, 0x01, 0x7f] = Ok {}" "rewriteBody [0x02, 0x01, 0x7f] Map.empty = Panic"
  "scanCalls [0x03, 0x01, 0x7f] = Panic"
  by code_simp+

end
