(* ===== verification/DceModule.thy ===== *)
theory DceModule
  imports DceBody OptDce
begin

unbundle bit_operations_syntax

text \<open>
  internal/dce/dce.go, the module: \<open>parseModule\<close> takes the sections apart into a \<open>wasmModule\<close>,
  \<open>buildRootSet\<close>, \<open>markReachable\<close> and \<open>buildReindexMap\<close> find the functions to keep and their new
  indices, \<open>rewrite\<close> changes the module and \<open>assemble\<close> writes it again, in the order of the section
  numbers. Most readers slice without checking lengths, so a malformed module panics. The payload of
  a section is a slice of the input, whose capacity reaches to the end of the input and beyond it by
  the input's own spare capacity; \<open>beyond\<close> are those bytes. Names are byte strings, and Go maps are
  HOL maps and sets; the order of an iteration over a set is the parameter \<open>iter\<close>.
\<close>

section \<open>Data\<close>

datatype dce_error = WasmInvalid string

record rawSection =
  ID :: u8
  Payload :: bytes

record dce_import =
  im_Module :: bytes
  im_Name :: bytes
  im_Kind :: u8
  im_TypeIndex :: u32
  im_Descriptor :: bytes

record dce_export =
  ex_Name :: bytes
  ex_Kind :: u8
  ex_Index :: u32

record dce_elem =
  el_TableIdx :: u32
  el_OffsetExpr :: bytes
  el_FuncIdxs :: "u32 list"

record wasmModule =
  Types :: "bytes list"
  Imports :: "dce_import list"
  FuncTypes :: "u32 list"
  Exports :: "dce_export list"
  StartFunc :: "u32 option"
  Elements :: "dce_elem list"
  Bodies :: "bytes list"
  PassthroughSections :: "rawSection list"
  NumImportedFuncs :: u32

definition empty_module :: wasmModule where
  "empty_module = \<lparr>Types = [], Imports = [], FuncTypes = [], Exports = [], StartFunc = None,
     Elements = [], Bodies = [], PassthroughSections = [], NumImportedFuncs = 0\<rparr>"

definition dce_wasmMagic :: bytes where
  "dce_wasmMagic = [0x00, 0x61, 0x73, 0x6d]"

section \<open>Parsing\<close>

text \<open>\<open>decodeULEB128(data[pos:])\<close>, and \<open>data[i:j]\<close> with the bytes up to the capacity.\<close>

definition dec_at :: "bytes \<Rightarrow> nat \<Rightarrow> (dce_error, u32 \<times> nat) outcome" where
  "dec_at data pos = obind (gslice data pos (length data)) (\<lambda>d. Ok (decodeULEB128 d))"

definition cap_slice :: "bytes \<Rightarrow> bytes \<Rightarrow> nat \<Rightarrow> nat \<Rightarrow> (dce_error, bytes) outcome" where
  "cap_slice data beyond i j = gslice (data @ beyond) i j"

definition typeEntry :: "bytes \<Rightarrow> bytes \<Rightarrow> nat \<Rightarrow> (dce_error, bytes \<times> nat) outcome" where
  "typeEntry data beyond pos =
     (if pos \<ge> length data then Err (WasmInvalid ''type section truncated'')
      else obind (dec_at data (pos + 1)) (\<lambda>(paramCount, pn).
        let p1 = pos + 1 + pn + unat paramCount in
        obind (dec_at data p1) (\<lambda>(resultCount, rn).
        let p2 = p1 + rn + unat resultCount in
        obind (cap_slice data beyond pos p2) (\<lambda>raw. Ok (raw, p2)))))"

primrec typeEntries :: "nat \<Rightarrow> bytes \<Rightarrow> bytes \<Rightarrow> nat \<Rightarrow> (dce_error, bytes list) outcome" where
  "typeEntries 0 data beyond pos = Ok []"
| "typeEntries (Suc k) data beyond pos =
     obind (typeEntry data beyond pos) (\<lambda>(raw, pos).
     obind (typeEntries k data beyond pos) (\<lambda>types. Ok (raw # types)))"

definition parseTypeSection :: "bytes \<Rightarrow> bytes \<Rightarrow> (dce_error, bytes list) outcome" where
  "parseTypeSection data beyond =
     (if length data = 0 then Ok []
      else let (count, n) = decodeULEB128 data in typeEntries (unat count) data beyond n)"

text \<open>\<open>parseLimits\<close> is called with a slice of its own; only the number of bytes read is used.\<close>

definition parseLimits :: "bytes \<Rightarrow> (dce_error, nat) outcome" where
  "parseLimits data =
     (if length data = 0 then Ok 0
      else obind (at_idx data 0) (\<lambda>flag.
        obind (dec_at data 1) (\<lambda>(_, n).
        if flag = 1 then obind (dec_at data (1 + n)) (\<lambda>(_, n'). Ok (1 + n + n'))
        else Ok (1 + n))))"

definition limits_at :: "bytes \<Rightarrow> nat \<Rightarrow> (dce_error, nat) outcome" where
  "limits_at data pos = obind (gslice data pos (length data)) (\<lambda>d.
     obind (parseLimits d) (\<lambda>ln. Ok (pos + ln)))"

definition importDescEnd :: "u8 \<Rightarrow> bytes \<Rightarrow> nat \<Rightarrow> (dce_error, nat) outcome" where
  "importDescEnd kind data pos =
     (if kind = 1 then limits_at data (pos + 1)
      else if kind = 2 then limits_at data pos
      else if kind = 3 then Ok (pos + 2)
      else Ok pos)"

definition name_at :: "bytes \<Rightarrow> bytes \<Rightarrow> nat \<Rightarrow> (dce_error, bytes \<times> nat) outcome" where
  "name_at data beyond pos =
     obind (dec_at data pos) (\<lambda>(len, n).
     obind (cap_slice data beyond (pos + n) (pos + n + unat len)) (\<lambda>name. Ok (name, pos + n + unat len)))"

definition dce_importEntry :: "bytes \<Rightarrow> bytes \<Rightarrow> nat \<Rightarrow> (dce_error, dce_import \<times> nat) outcome" where
  "dce_importEntry data beyond pos =
     obind (name_at data beyond pos) (\<lambda>(modName, pos).
     obind (name_at data beyond pos) (\<lambda>(name, pos).
     obind (at_idx data pos) (\<lambda>kind. let pos = pos + 1 in
       if kind = 0 then
         obind (dec_at data pos) (\<lambda>(typeIdx, tn).
           Ok (\<lparr>im_Module = modName, im_Name = name, im_Kind = kind, im_TypeIndex = typeIdx,
               im_Descriptor = []\<rparr>, pos + tn))
       else
         obind (importDescEnd kind data pos) (\<lambda>end.
         obind (cap_slice data beyond pos end) (\<lambda>desc.
           Ok (\<lparr>im_Module = modName, im_Name = name, im_Kind = kind, im_TypeIndex = 0,
               im_Descriptor = desc\<rparr>, end))))))"

primrec dce_importEntries ::
  "nat \<Rightarrow> bytes \<Rightarrow> bytes \<Rightarrow> nat \<Rightarrow> (dce_error, dce_import list \<times> u32) outcome" where
  "dce_importEntries 0 data beyond pos = Ok ([], 0)"
| "dce_importEntries (Suc k) data beyond pos =
     obind (dce_importEntry data beyond pos) (\<lambda>(entry, pos).
     obind (dce_importEntries k data beyond pos) (\<lambda>(imports, numFuncs).
       Ok (entry # imports, if im_Kind entry = 0 then numFuncs + 1 else numFuncs)))"

definition parseImportSection :: "bytes \<Rightarrow> bytes \<Rightarrow> (dce_error, dce_import list \<times> u32) outcome" where
  "parseImportSection data beyond =
     (if length data = 0 then Ok ([], 0)
      else let (count, n) = decodeULEB128 data in dce_importEntries (unat count) data beyond n)"

primrec indexEntries :: "nat \<Rightarrow> bytes \<Rightarrow> nat \<Rightarrow> (dce_error, u32 list \<times> nat) outcome" where
  "indexEntries 0 data pos = Ok ([], pos)"
| "indexEntries (Suc k) data pos =
     obind (dec_at data pos) (\<lambda>(idx, n).
     obind (indexEntries k data (pos + n)) (\<lambda>(idxs, q). Ok (idx # idxs, q)))"

definition dce_parseFunctionSection :: "bytes \<Rightarrow> (dce_error, u32 list) outcome" where
  "dce_parseFunctionSection data =
     (if length data = 0 then Ok []
      else let (count, n) = decodeULEB128 data in
        obind (indexEntries (unat count) data n) (\<lambda>(types, _). Ok types))"

definition dce_exportEntry :: "bytes \<Rightarrow> bytes \<Rightarrow> nat \<Rightarrow> (dce_error, dce_export \<times> nat) outcome" where
  "dce_exportEntry data beyond pos =
     obind (name_at data beyond pos) (\<lambda>(name, pos).
     obind (at_idx data pos) (\<lambda>kind.
     obind (dec_at data (pos + 1)) (\<lambda>(idx, n).
       Ok (\<lparr>ex_Name = name, ex_Kind = kind, ex_Index = idx\<rparr>, pos + 1 + n))))"

primrec dce_exportEntries ::
  "nat \<Rightarrow> bytes \<Rightarrow> bytes \<Rightarrow> nat \<Rightarrow> (dce_error, dce_export list) outcome" where
  "dce_exportEntries 0 data beyond pos = Ok []"
| "dce_exportEntries (Suc k) data beyond pos =
     obind (dce_exportEntry data beyond pos) (\<lambda>(entry, pos).
     obind (dce_exportEntries k data beyond pos) (\<lambda>exports. Ok (entry # exports)))"

definition parseExportSection :: "bytes \<Rightarrow> bytes \<Rightarrow> (dce_error, dce_export list) outcome" where
  "parseExportSection data beyond =
     (if length data = 0 then Ok []
      else let (count, n) = decodeULEB128 data in dce_exportEntries (unat count) data beyond n)"

text \<open>The end of an offset expression: the position after the first \<open>0x0b\<close>.\<close>

function offsetEnd :: "bytes \<Rightarrow> nat \<Rightarrow> nat" where
  "offsetEnd data pos =
     (if pos < length data then if data ! pos \<noteq> 0x0b then offsetEnd data (pos + 1) else pos + 1
      else pos)"
  by pat_completeness auto
termination
  by (relation "measure (\<lambda>(data, pos). length data - pos)") auto

declare offsetEnd.simps [simp del]

definition dce_element :: "bytes \<Rightarrow> nat \<Rightarrow> (dce_error, dce_elem \<times> nat) outcome" where
  "dce_element data pos =
     obind (dec_at data pos) (\<lambda>(tableIdx, tn). let exprStart = pos + tn; pos = offsetEnd data exprStart in
     obind (gslice data exprStart pos) (\<lambda>offsetExpr.
     obind (dec_at data pos) (\<lambda>(funcCount, fn).
     obind (indexEntries (unat funcCount) data (pos + fn)) (\<lambda>(idxs, pos).
       Ok (\<lparr>el_TableIdx = tableIdx, el_OffsetExpr = offsetExpr, el_FuncIdxs = idxs\<rparr>, pos)))))"

primrec dce_elements :: "nat \<Rightarrow> bytes \<Rightarrow> nat \<Rightarrow> (dce_error, dce_elem list) outcome" where
  "dce_elements 0 data pos = Ok []"
| "dce_elements (Suc k) data pos =
     obind (dce_element data pos) (\<lambda>(elem, pos).
     obind (dce_elements k data pos) (\<lambda>elems. Ok (elem # elems)))"

definition parseElementSection :: "bytes \<Rightarrow> (dce_error, dce_elem list) outcome" where
  "parseElementSection data =
     (if length data = 0 then Ok []
      else let (count, n) = decodeULEB128 data in dce_elements (unat count) data n)"

definition bodyEntry :: "bytes \<Rightarrow> nat \<Rightarrow> (dce_error, bytes \<times> nat) outcome" where
  "bodyEntry data pos =
     obind (dec_at data pos) (\<lambda>(bodySize, bn). let pos = pos + bn in
       if pos + unat bodySize > length data then Err (WasmInvalid ''code body extends past section'')
       else obind (gslice data pos (pos + unat bodySize)) (\<lambda>raw. Ok (raw, pos + unat bodySize)))"

primrec bodyEntries :: "nat \<Rightarrow> bytes \<Rightarrow> nat \<Rightarrow> (dce_error, bytes list) outcome" where
  "bodyEntries 0 data pos = Ok []"
| "bodyEntries (Suc k) data pos =
     obind (bodyEntry data pos) (\<lambda>(raw, pos).
     obind (bodyEntries k data pos) (\<lambda>bodies. Ok (raw # bodies)))"

definition dce_parseCodeSection :: "bytes \<Rightarrow> (dce_error, bytes list) outcome" where
  "dce_parseCodeSection data =
     (if length data = 0 then Ok []
      else let (count, n) = decodeULEB128 data in bodyEntries (unat count) data n)"

text \<open>One section: the field of the module it sets.\<close>

definition addSection :: "u8 \<Rightarrow> bytes \<Rightarrow> bytes \<Rightarrow> wasmModule \<Rightarrow> (dce_error, wasmModule) outcome" where
  "addSection secID payload beyond m =
     (if secID = 1 then obind (parseTypeSection payload beyond) (\<lambda>types. Ok (m\<lparr>Types := types\<rparr>))
      else if secID = 2 then obind (parseImportSection payload beyond) (\<lambda>(imports, numFuncs).
        Ok (m\<lparr>Imports := imports, NumImportedFuncs := numFuncs\<rparr>))
      else if secID = 3 then obind (dce_parseFunctionSection payload) (\<lambda>funcTypes.
        Ok (m\<lparr>FuncTypes := funcTypes\<rparr>))
      else if secID = 7 then obind (parseExportSection payload beyond) (\<lambda>exports.
        Ok (m\<lparr>Exports := exports\<rparr>))
      else if secID = 8 then
        if length payload = 0 then Err (WasmInvalid ''empty start section'')
        else Ok (m\<lparr>StartFunc := Some (fst (decodeULEB128 payload))\<rparr>)
      else if secID = 9 then obind (parseElementSection payload) (\<lambda>elems.
        Ok (m\<lparr>Elements := elems\<rparr>))
      else if secID = 10 then obind (dce_parseCodeSection payload) (\<lambda>bodies.
        Ok (m\<lparr>Bodies := bodies\<rparr>))
      else Ok (m\<lparr>PassthroughSections := PassthroughSections m @ [\<lparr>ID = secID, Payload = payload\<rparr>]\<rparr>))"

function moduleSections :: "bytes \<Rightarrow> bytes \<Rightarrow> nat \<Rightarrow> wasmModule \<Rightarrow> (dce_error, wasmModule) outcome" where
  "moduleSections wasm spare pos m =
     (if pos < length wasm then
        let secID = wasm ! pos in
        obind (dec_at wasm (pos + 1)) (\<lambda>(secSize, n). let start = pos + 1 + n; end = start + unat secSize in
          if end > length wasm then Err (WasmInvalid ''section extends past end of file'')
          else obind (gslice wasm start end) (\<lambda>payload.
            obind (addSection secID payload (drop end wasm @ spare) m) (\<lambda>m'.
              moduleSections wasm spare end m')))
      else Ok m)"
  by pat_completeness auto
termination
  by (relation "measure (\<lambda>(wasm, _, pos, _). length wasm - pos)") auto

declare moduleSections.simps [simp del]

definition parseModule :: "bytes \<Rightarrow> bytes \<Rightarrow> (dce_error, wasmModule) outcome" where
  "parseModule wasm spare =
     (if length wasm < 8 then Err (WasmInvalid ''file too short'')
      else if take 4 wasm \<noteq> dce_wasmMagic then Err (WasmInvalid ''bad magic bytes'')
      else obind (le_uint32 (take 4 (drop 4 wasm))) (\<lambda>version.
        if version \<noteq> 1 then Err (WasmInvalid ''unsupported version'')
        else moduleSections wasm spare 8 empty_module))"

section \<open>Assembly\<close>

definition emitSection :: "u8 \<Rightarrow> bytes \<Rightarrow> bytes" where
  "emitSection i payload = i # encodeULEB128 (of_nat (length payload)) @ payload"

definition emitPassthrough :: "wasmModule \<Rightarrow> u8 \<Rightarrow> bytes" where
  "emitPassthrough m i =
     concat (map (\<lambda>s. emitSection (ID s) (Payload s)) (filter (\<lambda>s. ID s = i) (PassthroughSections m)))"

text \<open>A vector: its length and its entries. An empty one writes no section.\<close>

definition vector :: "('a \<Rightarrow> bytes) \<Rightarrow> 'a list \<Rightarrow> bytes" where
  "vector enc xs = encodeULEB128 (of_nat (length xs)) @ concat (map enc xs)"

definition emitVector :: "u8 \<Rightarrow> ('a \<Rightarrow> bytes) \<Rightarrow> 'a list \<Rightarrow> bytes" where
  "emitVector i enc xs = (if length xs > 0 then emitSection i (vector enc xs) else [])"

definition sized :: "bytes \<Rightarrow> bytes" where
  "sized b = encodeULEB128 (of_nat (length b)) @ b"

definition encode_import :: "dce_import \<Rightarrow> bytes" where
  "encode_import imp = sized (im_Module imp) @ sized (im_Name imp) @ [im_Kind imp] @
     (if im_Kind imp = 0 then encodeULEB128 (im_TypeIndex imp) else im_Descriptor imp)"

definition encode_export :: "dce_export \<Rightarrow> bytes" where
  "encode_export exp = sized (ex_Name exp) @ [ex_Kind exp] @ encodeULEB128 (ex_Index exp)"

definition encode_elem :: "dce_elem \<Rightarrow> bytes" where
  "encode_elem elem = encodeULEB128 (el_TableIdx elem) @ el_OffsetExpr elem @
     vector encodeULEB128 (el_FuncIdxs elem)"

definition assemble :: "wasmModule \<Rightarrow> bytes" where
  "assemble m = dce_wasmMagic @ [0x01, 0x00, 0x00, 0x00] @
     emitPassthrough m 0 @
     emitVector 1 id (Types m) @
     emitVector 2 encode_import (Imports m) @
     emitVector 3 encodeULEB128 (FuncTypes m) @
     emitPassthrough m 4 @
     emitPassthrough m 5 @
     emitPassthrough m 6 @
     emitVector 7 encode_export (Exports m) @
     (case StartFunc m of Some idx \<Rightarrow> emitSection 8 (encodeULEB128 idx) | None \<Rightarrow> []) @
     emitVector 9 encode_elem (Elements m) @
     emitVector 10 sized (Bodies m) @
     emitPassthrough m 11"

section \<open>Call graph\<close>

definition buildRootSet :: "wasmModule \<Rightarrow> u32 set" where
  "buildRootSet m =
     set (map ex_Index (filter (\<lambda>e. ex_Kind e = 0) (Exports m))) \<union>
     set_option (StartFunc m) \<union>
     set (concat (map el_FuncIdxs (Elements m)))"

text \<open>
  \<open>if !reachable[idx] { reachable[idx] = true; pending = append(pending, idx) }\<close>, for each index.
\<close>

fun enqueue :: "u32 \<Rightarrow> u32 set \<times> u32 list \<Rightarrow> u32 set \<times> u32 list" where
  "enqueue idx (reachable, pending) =
     (if idx \<notin> reachable then (insert idx reachable, pending @ [idx]) else (reachable, pending))"

lemma card_unmarked_insert: "v \<notin> S \<Longrightarrow> card (- (S :: u32 set)) = Suc (card (- insert v S))"
proof -
  assume "v \<notin> S"
  then have "- S = insert v (- insert v S)" by auto
  moreover have "v \<notin> - insert v S" "finite (- insert v S)" by auto
  ultimately show ?thesis by (metis card_insert_disjoint)
qed

lemma enqueue_measure:
  "card (- fst (enqueue v s)) + length (snd (enqueue v s)) = card (- fst s) + length (snd s)"
  by (cases s) (auto dest: card_unmarked_insert)

lemma fold_enqueue_measure:
  "card (- fst (fold enqueue vs s)) + length (snd (fold enqueue vs s)) = card (- fst s) + length (snd s)"
  by (induction vs arbitrary: s) (simp_all add: enqueue_measure)

function mark_loop ::
  "(u32 set \<Rightarrow> u32 list) \<Rightarrow> wasmModule \<Rightarrow> u32 set \<Rightarrow> u32 list \<Rightarrow> u32 set may_panic" where
  "mark_loop iter m reachable pending =
     (case pending of
       [] \<Rightarrow> Ok reachable
     | idx # pending \<Rightarrow>
         if idx < NumImportedFuncs m then mark_loop iter m reachable pending
         else if unat (idx - NumImportedFuncs m) \<ge> length (Bodies m) then
           mark_loop iter m reachable pending
         else obind (at_idx (Bodies m) (unat (idx - NumImportedFuncs m))) (\<lambda>raw.
           obind (scanCalls raw) (\<lambda>callTargets.
           let s = fold enqueue (iter callTargets) (reachable, pending)
           in mark_loop iter m (fst s) (snd s))))"
  by pat_completeness auto
termination
  by (relation "measure (\<lambda>(iter, m, reachable, pending). card (- reachable) + length pending)")
    (auto simp: split_beta fold_enqueue_measure)

declare mark_loop.simps [simp del]

definition markReachable :: "(u32 set \<Rightarrow> u32 list) \<Rightarrow> wasmModule \<Rightarrow> u32 set \<Rightarrow> u32 set may_panic" where
  "markReachable iter m roots =
     (let s = fold enqueue (iter roots) ({}, []) in mark_loop iter m (fst s) (snd s))"

text \<open>
  \<open>buildReindexMap\<close>: the loop over the imported functions, then over the bodies, with the next index.
  \<open>i\<close> is the position of the body.
\<close>

primrec importedMap :: "nat \<Rightarrow> (u32 \<rightharpoonup> u32)" where
  "importedMap 0 = Map.empty"
| "importedMap (Suc k) = (importedMap k)(of_nat k \<mapsto> of_nat k)"

primrec reindex_loop ::
  "nat \<Rightarrow> u32 \<Rightarrow> u32 set \<Rightarrow> nat \<Rightarrow> (u32 \<rightharpoonup> u32) \<times> u32 \<times> nat set \<Rightarrow> (u32 \<rightharpoonup> u32) \<times> u32 \<times> nat set" where
  "reindex_loop 0 imported reachable i s = s"
| "reindex_loop (Suc k) imported reachable i s =
     (case s of (reindexMap, newIdx, dead) \<Rightarrow>
       let oldIdx = imported + of_nat i in
       reindex_loop k imported reachable (i + 1)
         (if oldIdx \<in> reachable then (reindexMap(oldIdx \<mapsto> newIdx), newIdx + 1, dead)
          else (reindexMap, newIdx, insert i dead)))"

definition buildReindexMap :: "wasmModule \<Rightarrow> u32 set \<Rightarrow> (u32 \<rightharpoonup> u32) \<times> nat set" where
  "buildReindexMap m reachable =
     (case reindex_loop (length (Bodies m)) (NumImportedFuncs m) reachable 0
        (importedMap (unat (NumImportedFuncs m)), NumImportedFuncs m, {}) of
      (reindexMap, _, dead) \<Rightarrow> (reindexMap, dead))"

section \<open>Rewriting\<close>

text \<open>\<open>make([]T, 0, n)\<close> panics when \<open>n\<close> is negative.\<close>

definition make_cap :: "nat \<Rightarrow> nat \<Rightarrow> (unit, unit) outcome" where
  "make_cap n removed = (if removed \<le> n then Ok () else Panic)"

definition live_bodies :: "wasmModule \<Rightarrow> nat set \<Rightarrow> nat list" where
  "live_bodies m dead = filter (\<lambda>i. i \<notin> dead) [0..<length (Bodies m)]"

definition reindex_export :: "(u32 \<rightharpoonup> u32) \<Rightarrow> dce_export \<Rightarrow> dce_export" where
  "reindex_export reindexMap e =
     (if ex_Kind e = 0 then e\<lparr>ex_Index := reindexed reindexMap (ex_Index e)\<rparr> else e)"

definition reindex_elem :: "(u32 \<rightharpoonup> u32) \<Rightarrow> dce_elem \<Rightarrow> dce_elem" where
  "reindex_elem reindexMap e = e\<lparr>el_FuncIdxs := map (reindexed reindexMap) (el_FuncIdxs e)\<rparr>"

definition dce_rewrite :: "wasmModule \<Rightarrow> (u32 \<rightharpoonup> u32) \<Rightarrow> nat set \<Rightarrow> wasmModule may_panic" where
  "dce_rewrite m reindexMap dead =
     obind (make_cap (length (FuncTypes m)) (card dead)) (\<lambda>_.
     obind (make_cap (length (Bodies m)) (card dead)) (\<lambda>_.
     obind (omap (\<lambda>i. obind (at_idx (FuncTypes m) i) (\<lambda>t.
         obind (at_idx (Bodies m) i) (\<lambda>b. Ok (t, b)))) (live_bodies m dead)) (\<lambda>kept.
     obind (omap (\<lambda>b. rewriteBody b reindexMap) (map snd kept)) (\<lambda>bodies.
       Ok (m\<lparr>FuncTypes := map fst kept, Bodies := bodies,
           Exports := map (reindex_export reindexMap) (Exports m),
           StartFunc := map_option (reindexed reindexMap) (StartFunc m),
           Elements := map (reindex_elem reindexMap) (Elements m)\<rparr>)))))"

section \<open>The pass\<close>

record stats =
  TotalFunctions :: nat
  RemovedFunctions :: nat
  OriginalSize :: nat
  OptimizedSize :: nat

fun no_error :: "'a may_panic \<Rightarrow> ('e, 'a) outcome" where
  "no_error (Ok x) = Ok x"
| "no_error (Err e) = Panic"
| "no_error Panic = Panic"
| "no_error Diverge = Diverge"

definition Eliminate ::
  "(u32 set \<Rightarrow> u32 list) \<Rightarrow> bytes \<Rightarrow> bytes \<Rightarrow> (dce_error, bytes \<times> stats) outcome" where
  "Eliminate iter wasm spare =
     obind (parseModule wasm spare) (\<lambda>m.
     let totalLocal = length (Bodies m); roots = buildRootSet m in
     obind (no_error (markReachable iter m roots)) (\<lambda>reachable.
     let (reindexMap, dead) = buildReindexMap m reachable in
     if card dead = 0 then
       Ok (wasm, \<lparr>TotalFunctions = unat (NumImportedFuncs m) + totalLocal, RemovedFunctions = 0,
         OriginalSize = length wasm, OptimizedSize = length wasm\<rparr>)
     else obind (no_error (dce_rewrite m reindexMap dead)) (\<lambda>m'.
       let out = assemble m' in
       Ok (out, \<lparr>TotalFunctions = unat (NumImportedFuncs m) + totalLocal, RemovedFunctions = card dead,
         OriginalSize = length wasm, OptimizedSize = length out\<rparr>))))"

section \<open>The functions marked are those reachable\<close>

definition local_body :: "wasmModule \<Rightarrow> u32 \<Rightarrow> bytes option" where
  "local_body m v =
     (if v < NumImportedFuncs m \<or> unat (v - NumImportedFuncs m) \<ge> length (Bodies m) then None
      else Some (Bodies m ! unat (v - NumImportedFuncs m)))"

definition dce_callees :: "wasmModule \<Rightarrow> u32 \<Rightarrow> u32 set" where
  "dce_callees m v = (case local_body m v of None \<Rightarrow> {}
     | Some b \<Rightarrow> (case scanCalls b of Ok T \<Rightarrow> T | _ \<Rightarrow> {}))"

definition scans :: "wasmModule \<Rightarrow> u32 \<Rightarrow> bool" where
  "scans m v = (case local_body m v of None \<Rightarrow> True
     | Some b \<Rightarrow> (case scanCalls b of Ok _ \<Rightarrow> True | _ \<Rightarrow> False))"

lemma fold_enqueue:
  "\<exists>new. fold enqueue vs (S, q) = (S \<union> set vs, q @ new) \<and> set new = set vs - S \<and> distinct new"
proof (induction vs arbitrary: S q)
  case Nil
  then show ?case by simp
next
  case (Cons v vs)
  show ?case
  proof (cases "v \<in> S")
    case True
    then show ?thesis using Cons.IH [of S q] by (auto simp: insert_absorb)
  next
    case False
    obtain new where new: "fold enqueue vs (insert v S, q @ [v]) = (insert v S \<union> set vs, (q @ [v]) @ new)"
        "set new = set vs - insert v S" "distinct new"
      using Cons.IH [of "insert v S" "q @ [v]"] by blast
    then have "fold enqueue (v # vs) (S, q) = (S \<union> set (v # vs), q @ v # new)" using False by simp
    moreover have "set (v # new) = set (v # vs) - S" "distinct (v # new)" using new(2,3) False by auto
    ultimately show ?thesis by blast
  qed
qed

lemma mark_step:
  "mark_loop iter m S (v # vs) =
     (case local_body m v of None \<Rightarrow> mark_loop iter m S vs
      | Some b \<Rightarrow> obind (scanCalls b) (\<lambda>T. let s = fold enqueue (iter T) (S, vs) in mark_loop iter m (fst s) (snd s)))"
  by (subst mark_loop.simps) (auto simp: local_body_def)

lemma mark_Nil: "mark_loop iter m S [] = Ok S"
  by (subst mark_loop.simps) simp

interpretation dce_mark: worklist
  "\<lambda>M :: u32 set may_panic. (case M of Ok S \<Rightarrow> S | _ \<Rightarrow> {})"
  "\<lambda>(iter, m) v. dce_callees m v"
  "\<lambda>(iter, m) M queue. obind M (\<lambda>S. mark_loop iter m S queue)"
  "\<lambda>(iter, m) M. iteration iter \<and> (\<exists>S. M = Ok S \<and> (\<forall>v \<in> reachable_from (dce_callees m) S. scans m v))"
proof (unfold_locales, goal_cases)
  case (1 g M)
  then show ?case by (auto simp: mark_Nil)
next
  case (2 g M v vs)
  obtain iter m where g: "g = (iter, m)" by (cases g)
  with 2 obtain S where S: "M = Ok S" "\<forall>v \<in> reachable_from (dce_callees m) S. scans m v"
    and it: "iteration iter" and v: "v \<in> S" by auto
  have sc: "scans m v" using S(2) v by (auto intro: reachable_fromI)
  have closed: "reachable_from (dce_callees m) (S \<union> dce_callees m v) \<subseteq> reachable_from (dce_callees m) S"
    using v by (intro reachable_from_closed) (auto intro: reachable_fromI reachable_from_step)
  obtain new where new: "fold enqueue (iter (dce_callees m v)) (S, vs) = (S \<union> dce_callees m v, vs @ new)"
      "set new = dce_callees m v - S" "distinct new"
    using fold_enqueue [of "iter (dce_callees m v)" S vs] it by (auto simp: iteration_def)
  show ?case
  proof (cases "local_body m v")
    case None
    then have "dce_callees m v = {}" by (simp add: dce_callees_def)
    with None S it g show ?thesis
      by (intro exI [of _ M] exI [of _ "[]"]) (auto simp: mark_step)
  next
    case (Some b)
    with sc obtain T where "scanCalls b = Ok T" by (auto simp: scans_def split: outcome.splits)
    then have T: "scanCalls b = Ok (dce_callees m v)" using Some by (simp add: dce_callees_def)
    show ?thesis
      using S it g Some T new closed
      by (intro exI [of _ "Ok (S \<union> dce_callees m v)"] exI [of _ new]) (auto simp: mark_step)
  qed
qed

lemma markReachable_reachable:
  assumes "iteration iter" and "\<forall>v \<in> reachable_from (dce_callees m) roots. scans m v"
  shows "markReachable iter m roots = Ok (reachable_from (dce_callees m) roots)"
proof -
  obtain new where new: "fold enqueue (iter roots) ({}, []) = (roots, new)" "set new = roots"
    using fold_enqueue [of "iter roots" "{}" "[]"] assms(1) by (auto simp: iteration_def)
  from dce_mark.run_marks [of "(iter, m)" "Ok roots" new] assms new(2)
  show ?thesis by (auto simp: markReachable_def new(1))
qed

text \<open>Conversely, when it returns, every function it marked could be scanned.\<close>

lemma mark_loop_scans:
  "mark_loop iter m S q = Ok R \<Longrightarrow> iteration iter \<Longrightarrow> S \<subseteq> R \<and> (\<forall>v \<in> set q \<union> (R - S). scans m v \<and> dce_callees m v \<subseteq> R)"
proof (induction iter m S q arbitrary: R rule: mark_loop.induct)
  case (1 iter m S q)
  show ?case
  proof (cases q)
    case Nil
    with "1.prems" show ?thesis by (simp add: mark_Nil)
  next
    case (Cons v vs)
    show ?thesis
    proof (cases "local_body m v")
      case None
      have "S \<subseteq> R \<and> (\<forall>v \<in> set vs \<union> (R - S). scans m v \<and> dce_callees m v \<subseteq> R)"
        using "1.prems" None Cons "1.IH"(1,2) [OF Cons]
        by (cases "v < NumImportedFuncs m") (auto simp: mark_step local_body_def split: if_splits)
      then show ?thesis using None Cons by (auto simp: scans_def dce_callees_def)
    next
      case (Some b)
      with "1.prems" Cons obtain T where T: "scanCalls b = Ok T" by (auto simp: mark_step obind_eq_Ok)
      obtain new where new: "fold enqueue (iter T) (S, vs) = (S \<union> T, vs @ new)" "set new = T - S"
        using fold_enqueue [of "iter T" S vs] "1.prems"(2) by (auto simp: iteration_def)
      have "mark_loop iter m (S \<union> T) (vs @ new) = Ok R"
        using "1.prems"(1) Cons Some T new(1) by (simp add: mark_step)
      moreover have "\<not> v < NumImportedFuncs m" "\<not> length (Bodies m) \<le> unat (v - NumImportedFuncs m)"
          "at_idx (Bodies m) (unat (v - NumImportedFuncs m)) = Ok b"
        using Some by (auto simp: local_body_def split: if_splits)
      note "1.IH"(3) [OF Cons this T refl, unfolded new(1), of R]
      ultimately have "S \<union> T \<subseteq> R \<and> (\<forall>v \<in> set (vs @ new) \<union> (R - (S \<union> T)). scans m v \<and> dce_callees m v \<subseteq> R)"
        using "1.prems"(2) by simp
      then show ?thesis using Some T Cons new(2) by (auto simp: scans_def dce_callees_def)
    qed
  qed
qed

lemma markReachable_Ok:
  assumes "markReachable iter m roots = Ok R" and it: "iteration iter"
  shows "R = reachable_from (dce_callees m) roots" and "\<forall>v \<in> R. scans m v"
proof -
  obtain new where new: "fold enqueue (iter roots) ({}, []) = (roots, new)" "set new = roots"
    using fold_enqueue [of "iter roots" "{}" "[]"] it by (auto simp: iteration_def)
  with assms(1) have run: "mark_loop iter m roots new = Ok R" by (simp add: markReachable_def)
  note R = mark_loop_scans [OF run it]
  then have "reachable_from (dce_callees m) roots \<subseteq> R"
    using new(2) by (intro reachable_from_closed) auto
  moreover show scan: "\<forall>v \<in> R. scans m v" using R new(2) by auto
  ultimately show "R = reachable_from (dce_callees m) roots"
    using markReachable_reachable [OF it, of m roots] assms(1) by auto
qed

section \<open>The index map\<close>

definition kept_flags :: "wasmModule \<Rightarrow> u32 set \<Rightarrow> bool list" where
  "kept_flags m R = map (\<lambda>i. NumImportedFuncs m + of_nat i \<in> R) [0..<length (Bodies m)]"

lemma old_index_iff: "i < 4294967296 \<Longrightarrow> v = imp + of_nat i \<longleftrightarrow> unat (v - imp :: u32) = i"
  by (auto simp: unat_of_nat_u32)

lemma reindex_loop_newIndices:
  "i + k \<le> 4294967296 \<Longrightarrow>
   \<exists>next'. reindex_loop k imp R i (mp, next, D) =
     (\<lambda>v. if i \<le> unat (v - imp) \<and> unat (v - imp) < i + k \<and> v \<in> R
          then Some (newIndices next (map (\<lambda>j. imp + of_nat j \<in> R) [i..<i + k]) ! (unat (v - imp) - i)) else mp v,
      next', D \<union> {j. i \<le> j \<and> j < i + k \<and> imp + of_nat j \<notin> R})"
proof (induction k arbitrary: i mp "next" D)
  case 0
  then show ?case by (auto simp: fun_eq_iff)
next
  case (Suc k)
  let ?f = "\<lambda>j. imp + of_nat j \<in> R"
  have upt: "[i..<i + Suc k] = i # [Suc i..<Suc i + k]" by (simp add: upt_conv_Cons)
  have old: "v = imp + of_nat i \<longleftrightarrow> unat (v - imp) = i" for v
    using Suc.prems by (intro old_index_iff) simp
  have ins: "insert i D \<union> {j. Suc i \<le> j \<and> j < Suc i + k \<and> \<not> ?f j} = D \<union> {j. i \<le> j \<and> j < i + Suc k \<and> \<not> ?f j}"
    if "\<not> ?f i" using that Suc_le_eq by (auto simp: le_less)
  have keep: "D \<union> {j. Suc i \<le> j \<and> j < Suc i + k \<and> \<not> ?f j} = D \<union> {j. i \<le> j \<and> j < i + Suc k \<and> \<not> ?f j}"
    if "?f i" using that Suc_le_eq by (auto simp: le_less)
  let ?mp = "if ?f i then mp(imp + of_nat i \<mapsto> next) else mp" and ?next = "if ?f i then next + 1 else next"
    and ?D = "if ?f i then D else insert i D"
  obtain next' where IH: "reindex_loop k imp R (Suc i) (?mp, ?next, ?D) =
     (\<lambda>v. if Suc i \<le> unat (v - imp) \<and> unat (v - imp) < Suc i + k \<and> v \<in> R
          then Some (newIndices ?next (map ?f [Suc i..<Suc i + k]) ! (unat (v - imp) - Suc i)) else ?mp v,
      next', ?D \<union> {j. Suc i \<le> j \<and> j < Suc i + k \<and> \<not> ?f j})"
    using Suc.IH [of "Suc i" ?mp ?next ?D] Suc.prems by auto
  have "reindex_loop (Suc k) imp R i (mp, next, D) = reindex_loop k imp R (Suc i) (?mp, ?next, ?D)"
    by simp
  also note IH
  also have "(\<lambda>v. if Suc i \<le> unat (v - imp) \<and> unat (v - imp) < Suc i + k \<and> v \<in> R
          then Some (newIndices ?next (map ?f [Suc i..<Suc i + k]) ! (unat (v - imp) - Suc i)) else ?mp v) =
     (\<lambda>v. if i \<le> unat (v - imp) \<and> unat (v - imp) < i + Suc k \<and> v \<in> R
          then Some (newIndices next (map ?f [i..<i + Suc k]) ! (unat (v - imp) - i)) else mp v)" (is "?L = ?R")
  proof
    fix v show "?L v = ?R v"
    proof (cases "unat (v - imp) = i")
      case True
      then have "v = imp + of_nat i" using old by simp
      then show ?thesis using True unfolding upt by simp
    next
      case False
      then have "v \<noteq> imp + of_nat i" using old by simp
      moreover have "i < unat (v - imp) \<Longrightarrow> unat (v - imp) - i = Suc (unat (v - imp) - Suc i)" by simp
      ultimately show ?thesis using False unfolding upt by (auto simp: Suc_le_eq)
    qed
  qed
  also have "?D \<union> {j. Suc i \<le> j \<and> j < Suc i + k \<and> \<not> ?f j} = D \<union> {j. i \<le> j \<and> j < i + Suc k \<and> \<not> ?f j}"
    using ins keep by (cases "?f i") simp_all
  finally show ?case by blast
qed

lemma importedMap_apply: "k \<le> 4294967296 \<Longrightarrow> importedMap k v = (if unat v < k then Some v else None)"
proof (induction k)
  case 0
  then show ?case by simp
next
  case (Suc k)
  then have "v = of_nat k \<longleftrightarrow> unat v = k" using old_index_iff [of k v 0] by simp
  with Suc show ?case by (auto simp: less_Suc_eq)
qed

lemma buildReindexMap_dead:
  assumes "length (Bodies m) \<le> 4294967296"
  shows "snd (buildReindexMap m R) = {i. i < length (Bodies m) \<and> \<not> kept_flags m R ! i}"
  using reindex_loop_newIndices [of 0 "length (Bodies m)" "NumImportedFuncs m" R
      "importedMap (unat (NumImportedFuncs m))" "NumImportedFuncs m" "{}"] assms
  by (auto simp: buildReindexMap_def kept_flags_def)

lemma buildReindexMap_remap:
  assumes "unat (NumImportedFuncs m) + length (Bodies m) \<le> 4294967296"
  shows "fst (buildReindexMap m R) = fst (buildFunctionRemap (NumImportedFuncs m) (kept_flags m R))"
proof
  fix v
  let ?imp = "NumImportedFuncs m" and ?n = "length (Bodies m)"
  obtain next' where r: "reindex_loop ?n ?imp R 0 (importedMap (unat ?imp), ?imp, {}) =
     (\<lambda>v. if unat (v - ?imp) < ?n \<and> v \<in> R
          then Some (newIndices ?imp (kept_flags m R) ! unat (v - ?imp)) else importedMap (unat ?imp) v,
      next', {j. j < ?n \<and> ?imp + of_nat j \<notin> R})"
    using reindex_loop_newIndices [of 0 ?n ?imp R "importedMap (unat ?imp)" ?imp "{}"] assms
    by (auto simp: kept_flags_def cong: if_cong)
  have far: "?n \<le> unat (v - ?imp)" if "v < ?imp"
  proof -
    have "unat (v - ?imp) = 4294967296 + unat v - unat ?imp"
      using that by (simp add: unat_sub_if_size word_less_nat_alt word_size)
    then show ?thesis using assms by simp
  qed
  have flag: "kept_flags m R ! unat (v - ?imp) \<longleftrightarrow> v \<in> R" if "unat (v - ?imp) < ?n"
    using that by (simp add: kept_flags_def)
  have "fst (buildReindexMap m R) v = (if unat (v - ?imp) < ?n \<and> v \<in> R
          then Some (newIndices ?imp (kept_flags m R) ! unat (v - ?imp)) else if v < ?imp then Some v else None)"
    by (simp add: buildReindexMap_def r importedMap_apply less_imp_le word_less_nat_alt)
  then show "fst (buildReindexMap m R) v = fst (buildFunctionRemap ?imp (kept_flags m R)) v"
    using far flag by (auto simp: buildFunctionRemap_def Let_def kept_flags_def)
qed

end
