(* ===== verification/DceRoundtrip.thy ===== *)
theory DceRoundtrip
  imports DceModule
begin

unbundle bit_operations_syntax

text \<open>
  internal/dce/dce.go: \<open>parseModule\<close> reads back what \<open>assemble\<close> wrote. The locale is the contract
  of a vector section, an entry reader and the bytes of an entry; \<open>shaped\<close> says which modules
  consist of entries that stand for themselves, as \<open>parseModule\<close> yields them from a module that is
  not cut off.
\<close>

section \<open>Readers\<close>

lemma dec_at_Ok: "dec_at data pos = Ok (v, n) \<longleftrightarrow> pos \<le> length data \<and> decodeULEB128 (drop pos data) = (v, n)"
  by (auto simp: dec_at_def gslice_def)

lemma dec_at_enc: "drop pos data = encodeULEB128 v @ rest \<Longrightarrow> dec_at data pos = Ok (v, length (encodeULEB128 v))"
  using decodeULEB128_encoded [of pos data v rest] drop_le [of pos data "encodeULEB128 v" rest]
    dce_codec.enc_length [of v]
  by (auto simp: dec_at_Ok)

text \<open>A number that ends inside a stretch of bytes is read the same wherever they stand.\<close>

lemma dec_at_window:
  assumes "dec_at t p = Ok (v, n)" and "p + n < length t" and "drop pos data = u @ rest"
    and "take (p + n) t = take (p + n) u" and "p + n \<le> length u"
  shows "dec_at data (pos + p) = Ok (v, n)"
proof -
  have "take n (drop (pos + p) data) = take n (drop p (u @ rest))"
    using assms(3) by (metis add.commute drop_drop)
  also have "\<dots> = take n (drop p u)" using assms(5) by simp
  also have "\<dots> = take n (drop p t)" using assms(4) by (metis add_diff_cancel_left' drop_take)
  finally have w: "take n (drop (pos + p) data) = take n (drop p t)" .
  have d: "decodeULEB128 (drop p t) = (v, n)" and n: "n < length (drop p t)"
    using assms(1,2) by (auto simp: dec_at_Ok)
  have n0: "0 < n" using decodeULEB128_loop_gt d n unfolding decodeULEB128_def by blast
  have "decodeULEB128 (drop (pos + p) data) = (v, n)"
    using d n w unfolding decodeULEB128_def by (rule decodeULEB128_loop_window)
  moreover have "pos + p \<le> length data"
  proof (rule ccontr)
    assume "\<not> pos + p \<le> length data"
    then have "take n (drop (pos + p) data) = []" by simp
    with w n n0 show False by simp
  qed
  ultimately show ?thesis by (simp add: dec_at_Ok)
qed

lemma unat_length: "length xs < 2 ^ 32 \<Longrightarrow> unat (of_nat (length xs) :: u32) = length xs"
  by (simp add: unat_of_nat_u32)

lemma name_at_enc:
  assumes d: "drop pos data = sized name @ rest" and len: "length name < 2 ^ 32"
  shows "name_at data beyond pos = Ok (name, pos + length (sized name))"
proof -
  let ?c = "encodeULEB128 (of_nat (length name))"
  have e: "drop pos data = ?c @ (name @ rest)" using d by (simp add: sized_def)
  have n: "drop (pos + length ?c) data = name @ rest" by (rule drop_appendD [OF e])
  have le: "pos + length ?c \<le> length data"
    using drop_append_bound [OF e] dce_codec.enc_length [of "of_nat (length name)"] by auto
  have "length data - (pos + length ?c) = length name + length rest"
    using n by (metis length_append length_drop)
  then have b: "pos + length ?c + length name \<le> length data" using le by simp
  have "take (length name) (drop (pos + length ?c) (data @ beyond)) = name"
    using n b by simp
  then show ?thesis
    using dec_at_enc [OF e] unat_length [OF len] b
    by (simp add: name_at_def cap_slice_def gslice_in sized_def add.assoc)
qed

section \<open>Vectors\<close>

locale vector_section =
  fixes entry :: "bytes \<Rightarrow> bytes \<Rightarrow> nat \<Rightarrow> (dce_error, 'a \<times> nat) outcome"
    and entries :: "nat \<Rightarrow> bytes \<Rightarrow> bytes \<Rightarrow> nat \<Rightarrow> (dce_error, 'a list) outcome"
    and parse :: "bytes \<Rightarrow> bytes \<Rightarrow> (dce_error, 'a list) outcome"
    and enc :: "'a \<Rightarrow> bytes"
    and good :: "'a \<Rightarrow> bool"
  assumes entries_0: "entries 0 data beyond pos = Ok []"
    and entries_Suc: "entries (Suc k) data beyond pos = obind (entry data beyond pos) (\<lambda>(x, pos).
        obind (entries k data beyond pos) (\<lambda>xs. Ok (x # xs)))"
    and parse_entries: "data \<noteq> [] \<Longrightarrow> parse data beyond =
        (let (count, n) = decodeULEB128 data in entries (unat count) data beyond n)"
    and entry_enc: "good x \<Longrightarrow> drop pos data = enc x @ rest \<Longrightarrow>
        entry data beyond pos = Ok (x, pos + length (enc x))"
begin

lemma entries_enc:
  "list_all good xs \<Longrightarrow> drop pos data = concat (map enc xs) @ rest \<Longrightarrow>
     entries (length xs) data beyond pos = Ok xs"
proof (induction xs arbitrary: pos)
  case Nil
  then show ?case by (simp add: entries_0)
next
  case (Cons x xs)
  then have d: "drop pos data = enc x @ (concat (map enc xs) @ rest)" by simp
  have "entry data beyond pos = Ok (x, pos + length (enc x))" using Cons.prems(1) d by (auto intro: entry_enc)
  with Cons.IH [OF _ drop_appendD [OF d]] Cons.prems(1) show ?case by (simp add: entries_Suc)
qed

lemma parse_vector:
  assumes "list_all good xs" and "length xs < 2 ^ 32"
  shows "parse (vector enc xs) beyond = Ok xs"
proof -
  let ?c = "encodeULEB128 (of_nat (length xs))" and ?data = "vector enc xs"
  have d: "drop 0 ?data = ?c @ concat (map enc xs)" by (simp add: vector_def)
  then have ne: "?data \<noteq> []" using dce_codec.enc_length [of "of_nat (length xs)"] by auto
  have "decodeULEB128 ?data = (of_nat (length xs), length ?c)"
    using decodeULEB128_encoded [OF d] by simp
  moreover have "drop (length ?c) ?data = concat (map enc xs) @ []" by (simp add: vector_def)
  ultimately show ?thesis
    using parse_entries [OF ne, of beyond] entries_enc [OF assms(1)] unat_length [OF assms(2)] by simp
qed

end

section \<open>The entries of the five vectors\<close>

text \<open>
  Shapes: a type entry, and the descriptor of an import that is not a function, end where the
  reader says, before a byte \<open>0x80\<close> put after them (so no number in them is cut off); the offset
  expression of an element segment ends with its first \<open>0x0b\<close>.
\<close>

definition type_shape :: "bytes \<Rightarrow> bool" where
  "type_shape t \<longleftrightarrow> typeEntry (t @ [0x80]) [] 0 = Ok (t, length t)"

definition import_shape :: "dce_import \<Rightarrow> bool" where
  "import_shape imp \<longleftrightarrow> length (im_Module imp) < 2 ^ 32 \<and> length (im_Name imp) < 2 ^ 32 \<and>
     (if im_Kind imp = 0 then im_Descriptor imp = []
      else im_TypeIndex imp = 0 \<and>
        importDescEnd (im_Kind imp) (im_Descriptor imp @ [0x80]) 0 = Ok (length (im_Descriptor imp)))"

definition elem_shape :: "dce_elem \<Rightarrow> bool" where
  "elem_shape e \<longleftrightarrow> length (el_FuncIdxs e) < 2 ^ 32 \<and> el_OffsetExpr e \<noteq> [] \<and>
     last (el_OffsetExpr e) = 0x0b \<and> 0x0b \<notin> set (butlast (el_OffsetExpr e))"

lemma drop_append_length: "drop pos data = u @ rest \<Longrightarrow> u \<noteq> [] \<Longrightarrow>
    pos < length data \<and> length data = pos + length u + length rest"
proof -
  assume d: "drop pos data = u @ rest" and u: "u \<noteq> []"
  have lt: "pos < length data" using d u by (metis Nil_is_append_conv drop_eq_Nil not_le)
  have "length data - pos = length u + length rest" using d by (metis length_append length_drop)
  then show ?thesis using lt by simp
qed

lemma gslice_at: "drop pos data = u @ rest \<Longrightarrow> u \<noteq> [] \<Longrightarrow> gslice (data @ beyond) pos (pos + length u) = Ok u"
  and gslice_at': "drop pos data = u @ rest \<Longrightarrow> u \<noteq> [] \<Longrightarrow> gslice data pos (pos + length u) = Ok u"
  using drop_append_length [of pos data u rest] by (simp_all add: gslice_in)

lemma typeEntry_enc:
  assumes t: "type_shape t" and d: "drop pos data = t @ rest"
  shows "typeEntry data beyond pos = Ok (t, pos + length t)"
proof -
  let ?t = "t @ [0x80]"
  from t obtain pc pn rc rn where r: "dec_at ?t 1 = Ok (pc, pn)"
      "dec_at ?t (1 + pn + unat pc) = Ok (rc, rn)" "1 + pn + unat pc + rn + unat rc = length t"
    by (auto simp: type_shape_def typeEntry_def obind_eq_Ok cap_slice_def Let_def)
  have ne: "t \<noteq> []" using r(3) by auto
  note l = drop_append_length [OF d ne]
  have "dec_at data (pos + 1) = Ok (pc, pn)"
    by (rule dec_at_window [OF r(1) _ d]) (use r(3) in auto)
  moreover have "dec_at data (pos + (1 + pn + unat pc)) = Ok (rc, rn)"
    by (rule dec_at_window [OF r(2) _ d]) (use r(3) in auto)
  moreover have e: "Suc (pos + (pn + (unat pc + (rn + unat rc)))) = pos + length t" using r(3) by simp
  ultimately show ?thesis
    using l ne by (simp add: typeEntry_def Let_def cap_slice_def gslice_at [OF d ne] e add.assoc)
qed

interpretation dce_types: vector_section typeEntry typeEntries parseTypeSection id type_shape
  by unfold_locales (auto simp: parseTypeSection_def intro: typeEntry_enc)

lemma exportEntry_enc:
  assumes "length (ex_Name e) < 2 ^ 32" and d: "drop pos data = encode_export e @ rest"
  shows "dce_exportEntry data beyond pos = Ok (e, pos + length (encode_export e))"
proof -
  have d1: "drop pos data = sized (ex_Name e) @ (ex_Kind e # encodeULEB128 (ex_Index e) @ rest)"
    using d by (simp add: encode_export_def)
  note n = name_at_enc [OF d1 assms(1), of beyond] hd_drop [OF drop_appendD [OF d1]]
  then show ?thesis
    using dec_at_enc [of "pos + length (sized (ex_Name e)) + 1" data "ex_Index e" rest]
    by (simp add: dce_exportEntry_def encode_export_def)
qed

interpretation dce_exports: vector_section dce_exportEntry dce_exportEntries parseExportSection
  encode_export "\<lambda>e. length (ex_Name e) < 2 ^ 32"
  by unfold_locales (auto simp: parseExportSection_def intro: exportEntry_enc)

lemma indexEntries_enc:
  "drop pos data = concat (map encodeULEB128 vs) @ rest \<Longrightarrow>
     indexEntries (length vs) data pos = Ok (vs, pos + length (concat (map encodeULEB128 vs)))"
proof (induction vs arbitrary: pos)
  case Nil
  then show ?case by simp
next
  case (Cons v vs)
  then have d: "drop pos data = encodeULEB128 v @ (concat (map encodeULEB128 vs) @ rest)" by simp
  from dec_at_enc [OF d] Cons.IH [OF drop_appendD [OF d]] show ?case by (simp add: add.assoc)
qed

lemma parseFunctionSection_enc:
  assumes "length ts < 2 ^ 32"
  shows "dce_parseFunctionSection (vector encodeULEB128 ts) = Ok ts"
proof -
  let ?c = "encodeULEB128 (of_nat (length ts))" and ?data = "vector encodeULEB128 ts"
  have d: "drop 0 ?data = ?c @ concat (map encodeULEB128 ts)" by (simp add: vector_def)
  then have ne: "?data \<noteq> []" using dce_codec.enc_length [of "of_nat (length ts)"] by auto
  have "decodeULEB128 ?data = (of_nat (length ts), length ?c)"
    using decodeULEB128_encoded [OF d] by simp
  moreover have "drop (length ?c) ?data = concat (map encodeULEB128 ts) @ []" by (simp add: vector_def)
  ultimately show ?thesis
    using ne indexEntries_enc [of "length ?c" ?data ts "[]"] unat_length [OF assms]
    by (simp add: dce_parseFunctionSection_def)
qed

lemma offsetEnd_enc:
  "drop pos data = expr @ rest \<Longrightarrow> expr \<noteq> [] \<Longrightarrow> last expr = 0x0b \<Longrightarrow> 0x0b \<notin> set (butlast expr) \<Longrightarrow>
     offsetEnd data pos = pos + length expr"
proof (induction expr arbitrary: pos)
  case Nil
  then show ?case by simp
next
  case (Cons b expr)
  then have h: "pos < length data \<and> data ! pos = b \<and> drop (pos + 1) data = expr @ rest"
    using hd_drop [of pos data b "expr @ rest"] by simp
  show ?case
  proof (cases "expr = []")
    case True
    with h Cons.prems show ?thesis by (subst offsetEnd.simps) simp
  next
    case False
    with h Cons show ?thesis by (subst offsetEnd.simps) simp
  qed
qed

lemma element_enc:
  assumes s: "elem_shape e" and d: "drop pos data = encode_elem e @ rest"
  shows "dce_element data pos = Ok (e, pos + length (encode_elem e))"
proof -
  let ?t = "encodeULEB128 (el_TableIdx e)" and ?x = "el_OffsetExpr e"
    and ?c = "encodeULEB128 (of_nat (length (el_FuncIdxs e)))" and ?v = "concat (map encodeULEB128 (el_FuncIdxs e))"
  have d1: "drop pos data = ?t @ (?x @ ?c @ ?v @ rest)"
    using d by (simp add: encode_elem_def vector_def)
  note d2 = drop_appendD [OF d1]
  note d3 = drop_appendD [OF d2]
  note d4 = drop_appendD [OF d3]
  have x: "offsetEnd data (pos + length ?t) = pos + length ?t + length ?x"
    using offsetEnd_enc [OF d2] s by (simp add: elem_shape_def)
  have ne: "?x \<noteq> []" using s by (simp add: elem_shape_def)
  show ?thesis
    using dec_at_enc [OF d1] x dec_at_enc [OF d3] indexEntries_enc [OF d4] s
    by (simp add: dce_element_def Let_def elem_shape_def gslice_at' [OF d2 ne, unfolded add.assoc] unat_of_nat_u32 encode_elem_def vector_def add.assoc)
qed

interpretation dce_elems: vector_section "\<lambda>data _. dce_element data" "\<lambda>k data _. dce_elements k data"
  "\<lambda>data _. parseElementSection data" encode_elem elem_shape
  by unfold_locales (auto simp: parseElementSection_def intro: element_enc)

lemma bodyEntry_enc:
  assumes "length b < 2 ^ 32" and d: "drop pos data = sized b @ rest"
  shows "bodyEntry data pos = Ok (b, pos + length (sized b))"
proof -
  let ?c = "encodeULEB128 (of_nat (length b))"
  have d1: "drop pos data = ?c @ (b @ rest)" using d by (simp add: sized_def)
  note d2 = drop_appendD [OF d1]
  have ne: "sized b \<noteq> []" using dce_codec.enc_length [of "of_nat (length b)"] by (auto simp: sized_def)
  have "pos + length ?c + length b \<le> length data"
    using drop_append_length [OF d ne] by (simp add: sized_def)
  then show ?thesis
    using dec_at_enc [OF d1] unat_length [OF assms(1)] d2
    by (simp add: bodyEntry_def Let_def gslice_in sized_def add.assoc)
qed

interpretation dce_bodies: vector_section "\<lambda>data _. bodyEntry data" "\<lambda>k data _. bodyEntries k data"
  "\<lambda>data _. dce_parseCodeSection data" sized "\<lambda>b. length b < 2 ^ 32"
  by unfold_locales (auto simp: dce_parseCodeSection_def intro: bodyEntry_enc)

section \<open>Imports\<close>

lemma parseLimits_enc:
  assumes "parseLimits (u @ [0x80]) = Ok (length u)"
  shows "parseLimits (u @ rest) = Ok (length u)"
proof -
  let ?t = "u @ [0x80]"
  from assms obtain v n where r: "dec_at ?t 1 = Ok (v, n)" and u: "1 + n \<le> length u"
    and k: "if ?t ! 0 = 1 then \<exists>v' n'. dec_at ?t (1 + n) = Ok (v', n') \<and> 1 + n + n' = length u else 1 + n = length u"
    by (auto simp: parseLimits_def obind_eq_Ok split: if_splits)
  have ne: "u \<noteq> []" using u by auto
  then have h: "(u @ rest) ! 0 = ?t ! 0" by (simp add: nth_append)
  have d: "drop 0 (u @ rest) = u @ rest" by simp
  have r': "dec_at (u @ rest) 1 = Ok (v, n)"
    using dec_at_window [OF r _ d] u by simp
  show ?thesis
  proof (cases "?t ! 0 = 1")
    case True
    with k obtain v' n' where s: "dec_at ?t (1 + n) = Ok (v', n')" and e: "1 + n + n' = length u" by auto
    have "dec_at (u @ rest) (1 + n) = Ok (v', n')"
      using dec_at_window [OF s _ d] e by simp
    with r' True h ne e show ?thesis by (simp add: parseLimits_def)
  next
    case False
    with r' h ne k show ?thesis by (simp add: parseLimits_def)
  qed
qed

lemma gslice_rest: "i \<le> length xs \<Longrightarrow> gslice xs i (length xs) = Ok (drop i xs)"
  by (simp add: gslice_in)

lemma limits_at_enc:
  assumes l: "limits_at (u @ [0x80]) p = Ok (length u)" and d: "drop pos data = u @ rest"
  shows "limits_at data (pos + p) = Ok (pos + length u)"
proof -
  from l obtain k where k: "p \<le> Suc (length u)" "parseLimits (drop p (u @ [0x80])) = Ok k" "p + k = length u"
    unfolding limits_at_def obind_eq_Ok gslice_Ok by (elim exE conjE) simp
  have p: "p \<le> length u" using k(3) by simp
  have "k = length (drop p u)" using k(3) by simp
  moreover have "drop p (u @ [0x80]) = drop p u @ [0x80]" using p by simp
  ultimately have "parseLimits (drop p u @ [0x80]) = Ok (length (drop p u))" using k(2) by metis
  from parseLimits_enc [OF this, of rest] have "parseLimits (drop p u @ rest) = Ok (length u - p)" by simp
  moreover have "drop (pos + p) data = drop p u @ rest"
  proof -
    have "drop (pos + p) data = drop p (u @ rest)" unfolding d [symmetric] by (simp add: add.commute)
    then show ?thesis using p by simp
  qed
  moreover have "pos + p \<le> length data"
  proof (cases "u = []")
    case True
    with \<open>parseLimits (drop p u @ [0x80]) = Ok (length (drop p u))\<close> show ?thesis
      by (auto simp: parseLimits_def obind_eq_Ok split: if_splits)
  next
    case False
    then show ?thesis using drop_append_length [OF d] p by simp
  qed
  ultimately show ?thesis
    using p by (simp add: limits_at_def gslice_rest)
qed

lemma importDescEnd_enc:
  "importDescEnd kind (u @ [0x80]) 0 = Ok (length u) \<Longrightarrow> drop pos data = u @ rest \<Longrightarrow>
     importDescEnd kind data pos = Ok (pos + length u)"
  using limits_at_enc [of u 0 pos data rest] limits_at_enc [of u 1 pos data rest]
  by (auto simp: importDescEnd_def split: if_splits)

lemma importEntry_enc:
  assumes s: "import_shape imp" and d: "drop pos data = encode_import imp @ rest"
  shows "dce_importEntry data beyond pos = Ok (imp, pos + length (encode_import imp))"
proof -
  let ?m = "sized (im_Module imp)" and ?n = "sized (im_Name imp)"
    and ?t = "if im_Kind imp = 0 then encodeULEB128 (im_TypeIndex imp) else im_Descriptor imp"
  have d1: "drop pos data = ?m @ (?n @ im_Kind imp # ?t @ rest)"
    using d by (simp add: encode_import_def)
  note d2 = drop_appendD [OF d1]
  note d3 = drop_appendD [OF d2]
  note h = hd_drop [OF d3]
  let ?p = "pos + length ?m + length ?n + 1"
  have len: "length (im_Module imp) < 2 ^ 32" "length (im_Name imp) < 2 ^ 32"
    using s by (auto simp: import_shape_def)
  note names = name_at_enc [OF d1 len(1), of beyond] name_at_enc [OF d2 len(2), of beyond]
  show ?thesis
  proof (cases "im_Kind imp = 0")
    case True
    then have t: "drop ?p data = encodeULEB128 (im_TypeIndex imp) @ rest" using h by simp
    from names h dec_at_enc [OF t] True s show ?thesis
      by (simp add: dce_importEntry_def encode_import_def import_shape_def add.assoc)
  next
    case False
    then have t: "drop ?p data = im_Descriptor imp @ rest" using h by simp
    have e: "importDescEnd (im_Kind imp) data ?p = Ok (?p + length (im_Descriptor imp))"
      using importDescEnd_enc [OF _ t] s False by (simp add: import_shape_def)
    have g: "cap_slice data beyond ?p (?p + length (im_Descriptor imp)) = Ok (im_Descriptor imp)"
    proof (cases "im_Descriptor imp = []")
      case True
      then show ?thesis using h by (simp add: cap_slice_def gslice_def)
    next
      case False
      show ?thesis unfolding cap_slice_def by (rule gslice_at [OF t False])
    qed
    show ?thesis
      using names h False s
      by (simp add: dce_importEntry_def encode_import_def import_shape_def add.assoc
          e [unfolded add.assoc, simplified] g [unfolded add.assoc, simplified])
  qed
qed

definition function_imports :: "dce_import list \<Rightarrow> u32" where
  "function_imports imps = of_nat (length (filter (\<lambda>i. im_Kind i = 0) imps))"

lemma importEntries_enc:
  "list_all import_shape imps \<Longrightarrow> drop pos data = concat (map encode_import imps) @ rest \<Longrightarrow>
     dce_importEntries (length imps) data beyond pos = Ok (imps, function_imports imps)"
proof (induction imps arbitrary: pos)
  case Nil
  then show ?case by (simp add: function_imports_def)
next
  case (Cons imp imps)
  then have d: "drop pos data = encode_import imp @ (concat (map encode_import imps) @ rest)" by simp
  from Cons.prems(1) importEntry_enc [OF _ d] Cons.IH [OF _ drop_appendD [OF d]]
  show ?case by (simp add: function_imports_def)
qed

lemma parseImportSection_enc:
  assumes "list_all import_shape imps" and "length imps < 2 ^ 32"
  shows "parseImportSection (vector encode_import imps) beyond = Ok (imps, function_imports imps)"
proof -
  let ?c = "encodeULEB128 (of_nat (length imps))" and ?data = "vector encode_import imps"
  have d: "drop 0 ?data = ?c @ concat (map encode_import imps)" by (simp add: vector_def)
  then have ne: "?data \<noteq> []" using dce_codec.enc_length [of "of_nat (length imps)"] by auto
  have "decodeULEB128 ?data = (of_nat (length imps), length ?c)"
    using decodeULEB128_encoded [OF d] by simp
  moreover have "drop (length ?c) ?data = concat (map encode_import imps) @ []" by (simp add: vector_def)
  ultimately show ?thesis
    using ne importEntries_enc [OF assms(1), of "length ?c" ?data "[]"] unat_length [OF assms(2)]
    by (simp add: parseImportSection_def)
qed

section \<open>The sections of an assembled module\<close>

text \<open>The sections \<open>assemble\<close> writes, with what \<open>addSection\<close> does with each.\<close>

definition pass_parts :: "wasmModule \<Rightarrow> u8 \<Rightarrow> (u8 \<times> bytes \<times> (wasmModule \<Rightarrow> wasmModule)) list" where
  "pass_parts m i = map (\<lambda>s. (ID s, Payload s, \<lambda>x. x\<lparr>PassthroughSections := PassthroughSections x @ [s]\<rparr>))
     (filter (\<lambda>s. ID s = i) (PassthroughSections m))"

definition vector_part ::
  "u8 \<Rightarrow> ('a \<Rightarrow> bytes) \<Rightarrow> 'a list \<Rightarrow> (wasmModule \<Rightarrow> wasmModule) \<Rightarrow> (u8 \<times> bytes \<times> (wasmModule \<Rightarrow> wasmModule)) list" where
  "vector_part i enc xs f = (if xs = [] then [] else [(i, vector enc xs, f)])"

definition parts :: "wasmModule \<Rightarrow> (u8 \<times> bytes \<times> (wasmModule \<Rightarrow> wasmModule)) list" where
  "parts m = pass_parts m 0 @
     vector_part 1 id (Types m) (\<lambda>x. x\<lparr>Types := Types m\<rparr>) @
     vector_part 2 encode_import (Imports m)
       (\<lambda>x. x\<lparr>Imports := Imports m, NumImportedFuncs := function_imports (Imports m)\<rparr>) @
     vector_part 3 encodeULEB128 (FuncTypes m) (\<lambda>x. x\<lparr>FuncTypes := FuncTypes m\<rparr>) @
     pass_parts m 4 @ pass_parts m 5 @ pass_parts m 6 @
     vector_part 7 encode_export (Exports m) (\<lambda>x. x\<lparr>Exports := Exports m\<rparr>) @
     (case StartFunc m of None \<Rightarrow> []
      | Some idx \<Rightarrow> [(8, encodeULEB128 idx, \<lambda>x. x\<lparr>StartFunc := Some idx\<rparr>)]) @
     vector_part 9 encode_elem (Elements m) (\<lambda>x. x\<lparr>Elements := Elements m\<rparr>) @
     vector_part 10 sized (Bodies m) (\<lambda>x. x\<lparr>Bodies := Bodies m\<rparr>) @
     pass_parts m 11"

lemma assemble_parts:
  "assemble m = dce_wasmMagic @ [0x01, 0x00, 0x00, 0x00] @ concat (map (\<lambda>(i, p, _). emitSection i p) (parts m))"
proof -
  have p: "concat (map (\<lambda>(i, p, _). emitSection i p) (pass_parts m i)) = emitPassthrough m i" for i
    by (simp add: pass_parts_def emitPassthrough_def comp_def)
  have v: "concat (map (\<lambda>(i, p, _). emitSection i p) (vector_part i enc xs f)) = emitVector i enc xs"
    for i f and enc :: "'a \<Rightarrow> bytes" and xs
    by (simp add: vector_part_def emitVector_def)
  show ?thesis
    by (cases "StartFunc m") (simp_all add: assemble_def parts_def p, simp_all add: vector_part_def emitVector_def)
qed

lemma moduleSections_step:
  assumes d: "drop pos wasm = emitSection i p @ rest" and len: "length p < 2 ^ 32"
  shows "moduleSections wasm spare pos m =
    obind (addSection i p (rest @ spare) m) (moduleSections wasm spare (pos + length (emitSection i p)))"
proof -
  let ?c = "encodeULEB128 (of_nat (length p))"
  have d0: "drop pos wasm = i # (?c @ p @ rest)" using d by (simp add: emitSection_def)
  note h = hd_drop [OF d0]
  have d1: "drop (pos + 1) wasm = ?c @ (p @ rest)" using h by blast
  note d2 = drop_appendD [OF d1]
  note d3 = drop_appendD [OF d2]
  have ne: "emitSection i p \<noteq> []" by (simp add: emitSection_def)
  have b: "pos + 1 + length ?c + length p \<le> length wasm"
    using drop_append_length [OF d ne] by (simp add: emitSection_def)
  have "gslice wasm (pos + 1 + length ?c) (pos + 1 + length ?c + length p) = (Ok p :: (dce_error, bytes) outcome)"
    using b d2 by (simp add: gslice_in)
  note g' = this
  have h': "pos < length wasm" "wasm ! pos = i" using h by auto
  note dec = dec_at_enc [OF d1]
  have fits: "\<not> length wasm < pos + 1 + length ?c + unat (of_nat (length p) :: u32)"
    using b unat_length [OF len] by simp
  show ?thesis
    unfolding moduleSections.simps [of wasm spare pos m] h'(2) dec obind.simps Let_def prod.case
      if_P [OF h'(1)] if_not_P [OF fits] unat_length [OF len] g' d3
    using b by (simp add: emitSection_def add.assoc)
qed

lemma moduleSections_parts:
  "drop pos wasm = concat (map (\<lambda>(i, p, _). emitSection i p) ps) \<Longrightarrow>
   list_all (\<lambda>(i, p, f). length p < 2 ^ 32) ps \<Longrightarrow>
   (\<And>i p f beyond x. (i, p, f) \<in> set ps \<Longrightarrow> addSection i p beyond x = Ok (f x)) \<Longrightarrow>
   moduleSections wasm spare pos m = Ok (fold (\<lambda>(_, _, f). f) ps m)"
proof (induction ps arbitrary: pos m)
  case Nil
  then show ?case by (subst moduleSections.simps) simp
next
  case (Cons part ps)
  obtain i p f where part: "part = (i, p, f)" by (cases part)
  have d: "drop pos wasm = emitSection i p @ concat (map (\<lambda>(i, p, _). emitSection i p) ps)"
    using Cons.prems(1) part by simp
  have "moduleSections wasm spare pos m = moduleSections wasm spare (pos + length (emitSection i p)) (f m)"
    using moduleSections_step [OF d] Cons.prems(2) part
    by (simp add: Cons.prems(3) [of i p f])
  also have "\<dots> = Ok (fold (\<lambda>(_, _, f). f) ps (f m))"
    using Cons.prems(2,3) by (intro Cons.IH [OF drop_appendD [OF d]]) auto
  finally show ?case using part by simp
qed

section \<open>Reading an assembled module\<close>

definition shaped :: "wasmModule \<Rightarrow> bool" where
  "shaped m \<longleftrightarrow> list_all type_shape (Types m) \<and> list_all import_shape (Imports m) \<and>
     list_all elem_shape (Elements m) \<and> NumImportedFuncs m = function_imports (Imports m)"

text \<open>\<open>assemble\<close> writes the other sections in groups, and drops those with a number above 11.\<close>

definition canon :: "wasmModule \<Rightarrow> wasmModule" where
  "canon m = m\<lparr>PassthroughSections :=
     concat (map (\<lambda>i. filter (\<lambda>s. ID s = i) (PassthroughSections m)) [0, 4, 5, 6, 11])\<rparr>"

lemma length_concat_mem: "x \<in> set xs \<Longrightarrow> length (f x) \<le> length (concat (map f xs))"
  by (induction xs) auto

lemma vector_entry_le: "x \<in> set xs \<Longrightarrow> length (enc x) \<le> length (vector enc xs)"
  using length_concat_mem [of x xs enc] by (simp add: vector_def)

lemma vector_length_le: "(\<And>x. x \<in> set xs \<Longrightarrow> enc x \<noteq> []) \<Longrightarrow> length xs \<le> length (vector enc xs)"
proof -
  assume "\<And>x. x \<in> set xs \<Longrightarrow> enc x \<noteq> []"
  then have "length xs \<le> length (concat (map enc xs))"
  proof (induction xs)
    case (Cons x xs)
    then have "1 \<le> length (enc x)" by (simp add: Suc_le_eq)
    with Cons show ?case by simp
  qed simp
  then show ?thesis by (simp add: vector_def)
qed

lemma part_payload_le:
  assumes "(i, p, f) \<in> set (parts m)"
  shows "length p < length (assemble m)"
proof -
  have "length (emitSection i p) \<le> length (concat (map (\<lambda>(i, p, _). emitSection i p) (parts m)))"
    using length_concat_mem [OF assms, of "\<lambda>(i, p, _). emitSection i p"] by simp
  then show ?thesis by (simp add: assemble_parts emitSection_def)
qed

lemma encodeULEB128_ne [simp]: "encodeULEB128 v \<noteq> []"
  using dce_codec.enc_length [of v] by auto

lemma vector_part_mem: "(i, p, f) \<in> set (vector_part j enc xs g) \<longleftrightarrow> xs \<noteq> [] \<and> i = j \<and> p = vector enc xs \<and> f = g"
  by (auto simp: vector_part_def)

lemma pass_parts_mem: "(i, p, f) \<in> set (pass_parts m j) \<longleftrightarrow>
    (\<exists>s \<in> set (PassthroughSections m). ID s = j \<and> i = j \<and> p = Payload s \<and>
       f = (\<lambda>x. x\<lparr>PassthroughSections := PassthroughSections x @ [s]\<rparr>))"
  by (auto simp: pass_parts_def)

lemma addSection_part:
  assumes s: "shaped m" and small: "length (assemble m) < 2 ^ 32" and part: "(i, p, f) \<in> set (parts m)"
  shows "addSection i p beyond x = Ok (f x)"
proof -
  have p: "length p < 2 ^ 32" using part_payload_le [OF part] small by simp
  from part consider
      (pass) s where "i \<in> {0, 4, 5, 6, 11}" "ID s = i" "p = Payload s"
        "f = (\<lambda>x. x\<lparr>PassthroughSections := PassthroughSections x @ [s]\<rparr>)"
    | (types) "i = 1" "p = vector id (Types m)" "f = (\<lambda>x. x\<lparr>Types := Types m\<rparr>)"
    | (imps) "i = 2" "p = vector encode_import (Imports m)"
        "f = (\<lambda>x. x\<lparr>Imports := Imports m, NumImportedFuncs := function_imports (Imports m)\<rparr>)"
    | (funcs) "i = 3" "p = vector encodeULEB128 (FuncTypes m)" "f = (\<lambda>x. x\<lparr>FuncTypes := FuncTypes m\<rparr>)"
    | (exports) "i = 7" "p = vector encode_export (Exports m)" "f = (\<lambda>x. x\<lparr>Exports := Exports m\<rparr>)"
    | (start) idx where "i = 8" "p = encodeULEB128 idx" "f = (\<lambda>x. x\<lparr>StartFunc := Some idx\<rparr>)"
    | (elems) "i = 9" "p = vector encode_elem (Elements m)" "f = (\<lambda>x. x\<lparr>Elements := Elements m\<rparr>)"
    | (code) "i = 10" "p = vector sized (Bodies m)" "f = (\<lambda>x. x\<lparr>Bodies := Bodies m\<rparr>)"
    unfolding parts_def by (auto simp: vector_part_mem pass_parts_mem split: option.splits)
  then show ?thesis
  proof cases
    case pass
    then have "addSection i p beyond x = Ok (x\<lparr>PassthroughSections := PassthroughSections x @ [\<lparr>ID = i, Payload = p\<rparr>]\<rparr>)"
      by (auto simp: addSection_def)
    moreover have "s = \<lparr>ID = i, Payload = p\<rparr>" using pass by simp
    ultimately show ?thesis using pass(4) by simp
  next
    case types
    have "t \<noteq> []" if "t \<in> set (Types m)" for t
      using that s by (auto simp: shaped_def list_all_iff type_shape_def typeEntry_def obind_eq_Ok Let_def)
    then have "length (Types m) < 2 ^ 32"
      using vector_length_le [of "Types m" id] p types by fastforce
    with dce_types.parse_vector [of "Types m" beyond] s types show ?thesis
      by (simp add: addSection_def shaped_def)
  next
    case imps
    have "length (Imports m) < 2 ^ 32"
      using vector_length_le [of "Imports m" encode_import] p imps by (fastforce simp: encode_import_def)
    with parseImportSection_enc [of "Imports m" beyond] s imps show ?thesis
      by (simp add: addSection_def shaped_def)
  next
    case funcs
    have "length (FuncTypes m) < 2 ^ 32"
      using vector_length_le [of "FuncTypes m" encodeULEB128] p funcs by fastforce
    with parseFunctionSection_enc [of "FuncTypes m"] funcs show ?thesis
      by (simp add: addSection_def)
  next
    case exports
    have "length (Exports m) < 2 ^ 32"
      using vector_length_le [of "Exports m" encode_export] p exports by (fastforce simp: encode_export_def)
    moreover have "length (ex_Name e) < 2 ^ 32" if "e \<in> set (Exports m)" for e
      using vector_entry_le [OF that, of encode_export] p exports by (simp add: encode_export_def sized_def)
    ultimately show ?thesis using dce_exports.parse_vector [of "Exports m" beyond] exports
      by (simp add: addSection_def list_all_iff)
  next
    case start
    have "decodeULEB128 p = (idx, length p)"
      using decodeULEB128_encoded [of 0 p idx "[]"] start by simp
    with start show ?thesis by (simp add: addSection_def)
  next
    case elems
    have "length (Elements m) < 2 ^ 32"
      using vector_length_le [of "Elements m" encode_elem] p elems by (fastforce simp: encode_elem_def)
    with dce_elems.parse_vector [of "Elements m"] s elems show ?thesis
      by (simp add: addSection_def shaped_def)
  next
    case code
    have "length (Bodies m) < 2 ^ 32"
      using vector_length_le [of "Bodies m" sized] p code by (fastforce simp: sized_def)
    moreover have "length b < 2 ^ 32" if "b \<in> set (Bodies m)" for b
      using vector_entry_le [OF that, of sized] p code by (simp add: sized_def)
    ultimately show ?thesis using dce_bodies.parse_vector [of "Bodies m"] code
      by (simp add: addSection_def list_all_iff)
  qed
qed

lemma fold_pass_parts:
  "fold (\<lambda>(_, _, f). f) (pass_parts m i) x =
     x\<lparr>PassthroughSections := PassthroughSections x @ filter (\<lambda>s. ID s = i) (PassthroughSections m)\<rparr>"
proof -
  have "fold (\<lambda>(_, _, f). f) (map (\<lambda>s. (ID s, Payload s, \<lambda>x. x\<lparr>PassthroughSections := PassthroughSections x @ [s]\<rparr>)) ss) x =
      x\<lparr>PassthroughSections := PassthroughSections x @ ss\<rparr>" for ss and x :: wasmModule
    by (induction ss arbitrary: x) simp_all
  then show ?thesis by (simp add: pass_parts_def)
qed

lemma fold_parts:
  assumes "NumImportedFuncs m = function_imports (Imports m)"
  shows "fold (\<lambda>(_, _, f). f) (parts m) empty_module = canon m"
proof -
  have e: "function_imports [] = 0" by (simp add: function_imports_def)
  have v: "fold (\<lambda>(_, _, f). f) (vector_part i enc xs f) x = (if xs = [] then x else f x)"
    for i f and enc :: "'a \<Rightarrow> bytes" and xs and x :: wasmModule
    by (simp add: vector_part_def)
  show ?thesis
    using assms e
    by (intro wasmModule.equality)
      (simp_all add: parts_def fold_pass_parts canon_def empty_module_def vector_part_def split: option.split)
qed

lemma parseModule_assemble:
  assumes s: "shaped m" and small: "length (assemble m) < 2 ^ 32"
  shows "parseModule (assemble m) spare = Ok (canon m)"
proof -
  let ?w = "assemble m"
  have h: "take 4 ?w = dce_wasmMagic" "take 4 (drop 4 ?w) = [0x01, 0x00, 0x00, 0x00]" "8 \<le> length ?w"
      "drop 8 ?w = concat (map (\<lambda>(i, p, _). emitSection i p) (parts m))"
    by (simp_all add: assemble_parts dce_wasmMagic_def)
  have v: "le_uint32 [0x01, 0x00, 0x00, 0x00] = (Ok 1 :: (dce_error, u32) outcome)"
    by (simp add: le_uint32_bytes)
  have "list_all (\<lambda>(i, p, f). length p < 2 ^ 32) (parts m)"
    using part_payload_le small by (fastforce simp: list_all_iff)
  then have "moduleSections ?w spare 8 empty_module = Ok (fold (\<lambda>(_, _, f). f) (parts m) empty_module)"
    using addSection_part [OF s small] by (intro moduleSections_parts [OF h(4)])
  then show ?thesis
    using h v s by (simp add: parseModule_def fold_parts shaped_def)
qed

end
