(* ===== verification/DceCorrect.thy ===== *)
theory DceCorrect
  imports DceRoundtrip OptCorrect
begin

unbundle bit_operations_syntax

text \<open>
  internal/dce/dce.go, \<open>Eliminate\<close> as a whole: what its output is, that the written module has the
  images of the roots and calls of the input, and that a second run finds nothing to remove.
\<close>

section \<open>The results of the pass\<close>

definition dce_live :: "wasmModule \<Rightarrow> u32 set" where
  "dce_live m = reachable_from (dce_callees m) (buildRootSet m)"

definition dce_flags :: "wasmModule \<Rightarrow> bool list" where
  "dce_flags m = kept_flags m (dce_live m)"

definition dce_map :: "wasmModule \<Rightarrow> (u32 \<rightharpoonup> u32)" where
  "dce_map m = fst (buildFunctionRemap (NumImportedFuncs m) (dce_flags m))"

definition dce_fits :: "wasmModule \<Rightarrow> bool" where
  "dce_fits m \<longleftrightarrow> unat (NumImportedFuncs m) + length (Bodies m) < 2 ^ 32"

definition dce_total :: "wasmModule \<Rightarrow> nat" where
  "dce_total m = unat (NumImportedFuncs m) + length (Bodies m)"

lemma no_error_Ok [simp]: "no_error x = Ok y \<longleftrightarrow> x = Ok y"
  by (cases x) auto

lemma length_dce_flags [simp]: "length (dce_flags m) = length (Bodies m)"
  by (simp add: dce_flags_def kept_flags_def)

lemma reindex_live:
  assumes "dce_fits m" and "R = dce_live m"
  shows "buildReindexMap m R = (dce_map m, {i. i < length (Bodies m) \<and> \<not> dce_flags m ! i})"
  using buildReindexMap_dead [of m R] buildReindexMap_remap [of m R] assms
  by (simp add: prod_eq_iff dce_map_def dce_flags_def dce_fits_def)

lemma live_bodies_kept:
  "live_bodies m {i. i < length (Bodies m) \<and> \<not> dce_flags m ! i} = kept_idxs (dce_flags m)"
  unfolding live_bodies_def kept_idxs_def by (rule filter_cong) auto

text \<open>The written module, entry by entry.\<close>

definition rewritten :: "wasmModule \<Rightarrow> wasmModule \<Rightarrow> bool" where
  "rewritten m m' \<longleftrightarrow>
     m' = m\<lparr>FuncTypes := FuncTypes m', Bodies := Bodies m',
        Exports := map (reindex_export (dce_map m)) (Exports m),
        StartFunc := map_option (reindexed (dce_map m)) (StartFunc m),
        Elements := map (reindex_elem (dce_map m)) (Elements m)\<rparr> \<and>
     list_all2 (\<lambda>i t. i < length (FuncTypes m) \<and> t = FuncTypes m ! i) (kept_idxs (dce_flags m)) (FuncTypes m') \<and>
     list_all2 (\<lambda>i b. i < length (Bodies m) \<and> rewriteBody (Bodies m ! i) (dce_map m) = Ok b)
       (kept_idxs (dce_flags m)) (Bodies m')"

lemma dce_rewrite_Ok:
  assumes "dce_rewrite m (dce_map m) {i. i < length (Bodies m) \<and> \<not> dce_flags m ! i} = Ok m'"
  shows "rewritten m m'"
proof -
  from assms obtain kept bodies where k: "omap (\<lambda>i. obind (at_idx (FuncTypes m) i) (\<lambda>t.
         obind (at_idx (Bodies m) i) (\<lambda>b. Ok (t, b)))) (kept_idxs (dce_flags m)) = (Ok kept :: (u32 \<times> bytes) list may_panic)"
      and b: "omap (\<lambda>b. rewriteBody b (dce_map m)) (map snd kept) = Ok bodies"
      and m': "m' = m\<lparr>FuncTypes := map fst kept, Bodies := bodies,
           Exports := map (reindex_export (dce_map m)) (Exports m),
           StartFunc := map_option (reindexed (dce_map m)) (StartFunc m),
           Elements := map (reindex_elem (dce_map m)) (Elements m)\<rparr>"
    unfolding dce_rewrite_def live_bodies_kept by (auto simp: obind_eq_Ok)
  have kept: "list_all2 (\<lambda>i x. i < length (FuncTypes m) \<and> i < length (Bodies m) \<and>
      x = (FuncTypes m ! i, Bodies m ! i)) (kept_idxs (dce_flags m)) kept"
    using k unfolding omap_Ok by (rule list_all2_mono) (auto simp: obind_eq_Ok)
  have "list_all2 (\<lambda>x b. rewriteBody (snd x) (dce_map m) = Ok b) kept bodies"
    using b unfolding omap_Ok list_all2_map1 .
  with kept show ?thesis
    unfolding rewritten_def m'
    by (auto simp: list_all2_conv_all_nth)
qed

lemma Eliminate_cases:
  assumes e: "Eliminate iter wasm spare = Ok (out, st)" and it: "iteration iter"
  obtains m where "parseModule wasm spare = Ok m" and "\<forall>v \<in> dce_live m. scans m v"
    and "dce_fits m \<Longrightarrow> (if list_all id (dce_flags m)
      then out = wasm \<and> RemovedFunctions st = 0
      else \<exists>m'. rewritten m m' \<and> out = assemble m' \<and>
        RemovedFunctions st = length (filter Not (dce_flags m)))"
    and "OriginalSize st = length wasm" and "OptimizedSize st = length out" and "TotalFunctions st = dce_total m"
proof -
  from e obtain m R where m: "parseModule wasm spare = Ok m"
    and R: "markReachable iter m (buildRootSet m) = Ok R"
    by (auto simp: Eliminate_def Let_def)
  have live: "R = dce_live m" "\<forall>v \<in> dce_live m. scans m v"
    using markReachable_Ok [OF R it] by (simp_all add: dce_live_def)
  have sizes: "OriginalSize st = length wasm" "OptimizedSize st = length out" "TotalFunctions st = dce_total m"
    using e unfolding Eliminate_def m R Let_def dce_total_def
    by (auto simp: Let_def split: prod.splits if_splits)
  have res: "if list_all id (dce_flags m)
      then out = wasm \<and> RemovedFunctions st = 0
      else \<exists>m'. rewritten m m' \<and> out = assemble m' \<and> RemovedFunctions st = length (filter Not (dce_flags m))"
    if fits: "dce_fits m"
  proof -
    let ?dead = "{i. i < length (Bodies m) \<and> \<not> dce_flags m ! i}"
    have card: "card ?dead = length (filter Not (dce_flags m))"
      by (simp add: length_filter_conv_card)
    have none: "card ?dead = 0 \<longleftrightarrow> list_all id (dce_flags m)"
      unfolding card by (auto simp: filter_empty_conv list_all_iff)
    show ?thesis
      using e none card dce_rewrite_Ok [of m]
      unfolding Eliminate_def m obind.simps Let_def R no_error.simps reindex_live [OF fits live(1)] prod.case
      by (auto split: if_splits)
  qed
  show thesis by (rule that [OF m live(2) res sizes])
qed

section \<open>The written module has the images\<close>

lemma reindexed_local:
  assumes fits: "dce_fits m" and d: "d < length (Bodies m)" "dce_flags m ! d"
  shows "reindexed (dce_map m) (NumImportedFuncs m + of_nat d) =
    NumImportedFuncs m + of_nat (rank (dce_flags m) d)"
proof -
  let ?imp = "NumImportedFuncs m" and ?v = "NumImportedFuncs m + of_nat d"
  have u: "unat (?v - ?imp) = d" using fits d by (simp add: unat_of_nat_u32 dce_fits_def)
  have "unat ?v = unat ?imp + d"
    using fits d by (intro unat_add_of_nat) (simp add: dce_fits_def)
  then have "\<not> ?v < ?imp" by (simp add: word_less_nat_alt)
  then have "dce_map m ?v = Some (?imp + of_nat (rank (dce_flags m) d))"
    unfolding dce_map_def newIndex_Some using u d by simp
  then show ?thesis by (simp add: reindexed_def)
qed

lemma local_body_Some:
  assumes "local_body m v = Some b"
  obtains d where "d < length (Bodies m)" and "v = NumImportedFuncs m + of_nat d" and "b = Bodies m ! d"
proof (rule that)
  show "unat (v - NumImportedFuncs m) < length (Bodies m)" "b = Bodies m ! unat (v - NumImportedFuncs m)"
    using assms by (auto simp: local_body_def split: if_splits)
  show "v = NumImportedFuncs m + of_nat (unat (v - NumImportedFuncs m))" by simp
qed

lemma local_body_at:
  "dce_fits m \<Longrightarrow> d < length (Bodies m) \<Longrightarrow> local_body m (NumImportedFuncs m + of_nat d) = Some (Bodies m ! d)"
proof -
  assume fits: "dce_fits m" and d: "d < length (Bodies m)"
  have "unat (NumImportedFuncs m + of_nat d) = unat (NumImportedFuncs m) + d"
    using fits d by (intro unat_add_of_nat) (simp add: dce_fits_def)
  then have "\<not> NumImportedFuncs m + of_nat d < NumImportedFuncs m" by (simp add: word_less_nat_alt)
  then show ?thesis using fits d by (simp add: local_body_def unat_of_nat_u32 dce_fits_def)
qed

lemma flag_live: "d < length (Bodies m) \<Longrightarrow> dce_flags m ! d \<longleftrightarrow> NumImportedFuncs m + of_nat d \<in> dce_live m"
  by (simp add: dce_flags_def kept_flags_def)

lemma rewritten_fields:
  assumes "rewritten m m'"
  shows "NumImportedFuncs m' = NumImportedFuncs m" and "length (Bodies m') = length (kept_idxs (dce_flags m))"
    and "Exports m' = map (reindex_export (dce_map m)) (Exports m)"
    and "StartFunc m' = map_option (reindexed (dce_map m)) (StartFunc m)"
    and "Elements m' = map (reindex_elem (dce_map m)) (Elements m)"
    and "Types m' = Types m" and "Imports m' = Imports m"
    and "PassthroughSections m' = PassthroughSections m"
    and "length (FuncTypes m') = length (Bodies m')"
proof -
  have e: "m' = m\<lparr>FuncTypes := FuncTypes m', Bodies := Bodies m',
        Exports := map (reindex_export (dce_map m)) (Exports m),
        StartFunc := map_option (reindexed (dce_map m)) (StartFunc m),
        Elements := map (reindex_elem (dce_map m)) (Elements m)\<rparr>" (is "m' = ?r")
    using assms by (simp add: rewritten_def)
  note fields = arg_cong [OF e, of NumImportedFuncs] arg_cong [OF e, of Exports] arg_cong [OF e, of StartFunc]
    arg_cong [OF e, of Elements] arg_cong [OF e, of Types] arg_cong [OF e, of Imports]
    arg_cong [OF e, of PassthroughSections]
  from fields show "NumImportedFuncs m' = NumImportedFuncs m"
    "Exports m' = map (reindex_export (dce_map m)) (Exports m)"
    "StartFunc m' = map_option (reindexed (dce_map m)) (StartFunc m)"
    "Elements m' = map (reindex_elem (dce_map m)) (Elements m)"
    "Types m' = Types m" "Imports m' = Imports m" "PassthroughSections m' = PassthroughSections m"
    by simp_all
  show len: "length (Bodies m') = length (kept_idxs (dce_flags m))"
    using assms by (auto simp: rewritten_def dest: list_all2_lengthD)
  show "length (FuncTypes m') = length (Bodies m')"
    using assms unfolding len by (auto simp: rewritten_def dest: list_all2_lengthD)
qed

lemma roots_rewritten:
  assumes "rewritten m m'"
  shows "buildRootSet m' = reindexed (dce_map m) ` buildRootSet m"
proof -
  have k: "ex_Kind (reindex_export f e) = ex_Kind e" for f e by (simp add: reindex_export_def)
  have i: "ex_Index (reindex_export f e) = reindexed f (ex_Index e)" if "ex_Kind e = 0" for f e
    using that by (simp add: reindex_export_def)
  have e1: "set (map ex_Index (filter (\<lambda>e. ex_Kind e = 0) (map (reindex_export f) es))) =
      reindexed f ` set (map ex_Index (filter (\<lambda>e. ex_Kind e = 0) es))" for f es
  proof -
    have "filter (\<lambda>e. ex_Kind e = 0) (map (reindex_export f) es) =
        map (reindex_export f) (filter (\<lambda>e. ex_Kind e = 0) es)"
      by (simp add: filter_map comp_def k)
    then show ?thesis by (auto simp: i image_iff)
  qed
  have e2: "set (concat (map el_FuncIdxs (map (reindex_elem f) es))) =
      reindexed f ` set (concat (map el_FuncIdxs es))" for f es
    by (auto simp: reindex_elem_def)
  show ?thesis
    unfolding buildRootSet_def rewritten_fields [OF assms] image_Un option.set_map e1 e2 by (rule refl)
qed

lemma kept_idxs_length_le: "length (kept_idxs ks) \<le> length ks"
  by (simp add: length_kept_idxs rank_le)

lemma callees_rewritten:
  assumes fits: "dce_fits m" and r: "rewritten m m'" and v: "v \<in> dce_live m"
  shows "dce_callees m' (reindexed (dce_map m) v) = reindexed (dce_map m) ` dce_callees m v"
    and "scans m' (reindexed (dce_map m) v)"
proof -
  note F = rewritten_fields [OF r]
  let ?f = "reindexed (dce_map m)" and ?imp = "NumImportedFuncs m"
  have "dce_callees m' (?f v) = ?f ` dce_callees m v \<and> scans m' (?f v)"
  proof (cases "local_body m v")
    case None
    have fv: "?f v = v"
    proof (cases "v < ?imp")
      case True
      then show ?thesis by (simp add: reindexed_def dce_map_def buildFunctionRemap_def)
    next
      case False
      then have "length (Bodies m) \<le> unat (v - ?imp)" using None by (simp add: local_body_def split: if_splits)
      with False show ?thesis by (simp add: reindexed_def dce_map_def buildFunctionRemap_def)
    qed
    have "local_body m' v = None"
      using None F(1,2) kept_idxs_length_le [of "dce_flags m"] by (auto simp: local_body_def split: if_splits)
    with None fv show ?thesis by (simp add: dce_callees_def scans_def)
  next
    case (Some b)
    then obtain d where d: "d < length (Bodies m)" "v = ?imp + of_nat d" "b = Bodies m ! d"
      by (rule local_body_Some)
    have keep: "dce_flags m ! d" using flag_live [OF d(1)] d(2) v by simp
    let ?j = "rank (dce_flags m) d"
    have j: "?j < length (kept_idxs (dce_flags m))" "kept_idxs (dce_flags m) ! ?j = d"
      using kept_idxs_rank [of d "dce_flags m"] d(1) keep by auto
    have w: "rewriteBody (Bodies m ! d) (dce_map m) = Ok (Bodies m' ! ?j)"
      using r j F(2) by (auto simp: rewritten_def list_all2_conv_all_nth)
    from rewriteBody_calls [OF w] obtain T where T: "scanCalls b = Ok T" "scanCalls (Bodies m' ! ?j) = Ok (?f ` T)"
      using d(3) by blast
    have "dce_fits m'"
      using fits F(1,2) kept_idxs_length_le [of "dce_flags m"] by (simp add: dce_fits_def)
    then have "local_body m' (?imp + of_nat ?j) = Some (Bodies m' ! ?j)"
      using local_body_at [of m' ?j] F(1,2) j(1) by simp
    moreover have "?f v = ?imp + of_nat ?j" unfolding d(2) by (rule reindexed_local [OF fits d(1) keep])
    ultimately show ?thesis using Some T by (simp add: dce_callees_def scans_def)
  qed
  then show "dce_callees m' (?f v) = ?f ` dce_callees m v" and "scans m' (?f v)" by simp_all
qed

lemma live_rewritten:
  assumes "dce_fits m" and "rewritten m m'"
  shows "dce_live m' = reindexed (dce_map m) ` dce_live m"
  unfolding dce_live_def roots_rewritten [OF assms(2)]
  by (rule reachable_from_image) (rule callees_rewritten [OF assms], simp add: dce_live_def)

lemma all_kept:
  assumes fits: "dce_fits m" and r: "rewritten m m'"
  shows "list_all id (dce_flags m')"
proof -
  note F = rewritten_fields [OF r]
  let ?idx = "kept_idxs (dce_flags m)"
  have "dce_flags m' ! j" if j: "j < length (Bodies m')" for j
  proof -
    have j': "j < length ?idx" using j F(2) by simp
    note k = kept_idxs_nth [OF j']
    have d: "?idx ! j < length (Bodies m)" using k(2) by simp
    have "NumImportedFuncs m + of_nat (?idx ! j) \<in> dce_live m" using flag_live [OF d] k(3) by simp
    then have "NumImportedFuncs m + of_nat j \<in> dce_live m'"
      using reindexed_local [OF fits d k(3)] k(1) unfolding live_rewritten [OF assms] by force
    then show ?thesis using flag_live [OF j] F(1) by simp
  qed
  then show ?thesis by (simp add: list_all_length)
qed

text \<open>The pass looks only at these fields, so \<open>canon\<close> changes nothing for it.\<close>

lemma canon_same:
  "Bodies (canon m) = Bodies m" "NumImportedFuncs (canon m) = NumImportedFuncs m"
  "buildRootSet (canon m) = buildRootSet m" "local_body (canon m) = local_body m"
  by (auto simp: canon_def buildRootSet_def local_body_def)

lemma canon_live: "dce_live (canon m) = dce_live m" "dce_flags (canon m) = dce_flags m"
    "scans (canon m) = scans m"
proof -
  have "dce_callees (canon m) = dce_callees m" by (simp add: fun_eq_iff dce_callees_def canon_same)
  then show l: "dce_live (canon m) = dce_live m" by (simp add: dce_live_def canon_same)
  show "dce_flags (canon m) = dce_flags m" by (simp add: dce_flags_def kept_flags_def canon_same l)
  show "scans (canon m) = scans m" by (simp add: scans_def canon_same fun_eq_iff)
qed

lemma shaped_rewritten:
  assumes "rewritten m m'" and "shaped m"
  shows "shaped m'"
proof -
  have "elem_shape (reindex_elem f e) = elem_shape e" for f e by (simp add: elem_shape_def reindex_elem_def)
  with assms(2) show ?thesis
    by (simp add: shaped_def rewritten_fields [OF assms(1)] list_all_iff)
qed

lemma Eliminate_all_live:
  assumes it: "iteration iter" and m: "parseModule wasm spare = Ok m" and fits: "dce_fits m"
    and s: "\<forall>v \<in> dce_live m. scans m v" and all: "list_all id (dce_flags m)"
  shows "Eliminate iter wasm spare = Ok (wasm, \<lparr>TotalFunctions = dce_total m, RemovedFunctions = 0,
    OriginalSize = length wasm, OptimizedSize = length wasm\<rparr>)"
proof -
  have R: "markReachable iter m (buildRootSet m) = Ok (dce_live m)"
    unfolding dce_live_def by (rule markReachable_reachable [OF it]) (use s in \<open>simp add: dce_live_def\<close>)
  have none: "{i. i < length (Bodies m) \<and> \<not> dce_flags m ! i} = {}"
    using all by (auto simp: list_all_length)
  show ?thesis
    by (simp add: Eliminate_def m R reindex_live [OF fits refl] none dce_total_def)
qed

lemma Eliminate_again:
  assumes it: "iteration iter" and m: "parseModule wasm spare = Ok m" and fits: "dce_fits m" and shape: "shaped m"
    and e: "Eliminate iter wasm spare = Ok (out, st)" and removed: "RemovedFunctions st \<noteq> 0"
    and small: "length out < 2 ^ 32"
  shows "Eliminate iter out spare' = Ok (out, \<lparr>TotalFunctions = TotalFunctions st - RemovedFunctions st,
    RemovedFunctions = 0, OriginalSize = length out, OptimizedSize = length out\<rparr>)"
proof -
  from Eliminate_cases [OF e it] m fits removed obtain m' where m': "rewritten m m'" "out = assemble m'"
      and st: "RemovedFunctions st = length (filter Not (dce_flags m))" "TotalFunctions st = dce_total m"
      and s: "\<forall>v \<in> dce_live m. scans m v"
    by (metis (no_types, lifting) outcome.inject(1))
  note F = rewritten_fields [OF m'(1)]
  have p: "parseModule out spare' = Ok (canon m')"
    unfolding m'(2) using small m'(2) shaped_rewritten [OF m'(1) shape] by (intro parseModule_assemble) simp_all
  have fits': "dce_fits (canon m')"
    using fits kept_idxs_length_le [of "dce_flags m"] by (simp add: dce_fits_def canon_same F)
  have "\<forall>v \<in> dce_live (canon m'). scans (canon m') v"
    using callees_rewritten(2) [OF fits m'(1)] by (auto simp: canon_live live_rewritten [OF fits m'(1)])
  moreover have "list_all id (dce_flags (canon m'))" using all_kept [OF fits m'(1)] by (simp add: canon_live)
  moreover have "dce_total (canon m') = TotalFunctions st - RemovedFunctions st"
  proof -
    have "length (kept_idxs (dce_flags m)) + length (filter Not (dce_flags m)) = length (Bodies m)"
      using sum_length_filter_compl [of id "dce_flags m"] by (simp add: length_kept_idxs rank_def comp_def)
    then show ?thesis by (simp add: dce_total_def canon_same F st)
  qed
  ultimately show ?thesis using Eliminate_all_live [OF it p fits'] by simp
qed

section \<open>A module with a dead function and a data count section\<close>

definition dce_dead :: bytes where
  "dce_dead = dce_wasmMagic @ [1, 0, 0, 0] @ [1, 4, 1, 0x60, 0, 0] @ [3, 3, 2, 0, 0] @
     [7, 5, 1, 1, 97, 0, 1] @ [12, 1, 0] @ [10, 9, 2, 2, 0, 0x0b, 4, 0, 0x10, 1, 0x0b]"

definition dce_dead_module :: wasmModule where
  "dce_dead_module = \<lparr>Types = [[0x60, 0, 0]], Imports = [], FuncTypes = [0, 0],
     Exports = [\<lparr>ex_Name = [97], ex_Kind = 0, ex_Index = 1\<rparr>], StartFunc = None, Elements = [],
     Bodies = [[0, 0x0b], [0, 0x10, 1, 0x0b]],
     PassthroughSections = [\<lparr>ID = 12, Payload = [0]\<rparr>], NumImportedFuncs = 0\<rparr>"

definition dce_stripped :: bytes where
  "dce_stripped = dce_wasmMagic @ [1, 0, 0, 0] @ [1, 4, 1, 0x60, 0, 0] @ [3, 2, 1, 0] @
     [7, 5, 1, 1, 97, 0, 0] @ [10, 6, 1, 4, 0, 0x10, 0, 0x0b]"

definition dce_dead_module_bytes :: bytes where
  "dce_dead_module_bytes = dce_wasmMagic @ [1, 0, 0, 0] @ [1, 4, 1, 0x60, 0, 0] @ [3, 3, 2, 0, 0] @
     [7, 5, 1, 1, 97, 0, 1] @ [10, 9, 2, 2, 0, 0x0b, 4, 0, 0x10, 1, 0x0b]"

definition dce_dead_stats :: stats where
  "dce_dead_stats = \<lparr>TotalFunctions = 2, RemovedFunctions = 1,
     OriginalSize = 40, OptimizedSize = 33\<rparr>"

lemma dce_dead_parsed: "parseModule dce_dead [] = Ok dce_dead_module"
  by code_simp

lemma dce_dead_eliminated: "Eliminate by_key dce_dead [] = Ok (dce_stripped, dce_dead_stats)"
  by code_simp

lemma dce_dead_fits: "dce_fits dce_dead_module"
  by (simp add: dce_fits_def dce_dead_module_def)

lemma dce_dead_shaped: "shaped dce_dead_module"
  by code_simp

section \<open>The properties of the pass\<close>

text \<open>C3. When dce.Eliminate removes functions from a module whose entries are not cut off, the
  module it writes parses again; its roots, its reachable functions and the calls of every
  reachable function are the images, under the index map, of those of the input.\<close>

theorem Eliminate_output:
  assumes it: "iteration iter" and m: "parseModule wasm spare = Ok m" and fits: "dce_fits m" and shape: "shaped m"
    and e: "Eliminate iter wasm spare = Ok (out, st)" and removed: "RemovedFunctions st \<noteq> 0"
    and small: "length out < 2 ^ 32"
  shows "\<exists>m'. rewritten m m' \<and> parseModule out spare' = Ok (canon m') \<and>
    buildRootSet (canon m') = reindexed (dce_map m) ` buildRootSet m \<and>
    dce_live (canon m') = reindexed (dce_map m) ` dce_live m \<and>
    (\<forall>v \<in> dce_live m. dce_callees (canon m') (reindexed (dce_map m) v) =
      reindexed (dce_map m) ` dce_callees m v)"
proof -
  from Eliminate_cases [OF e it] m fits removed obtain m' where m': "rewritten m m'" "out = assemble m'"
    by (metis (no_types, lifting) outcome.inject(1))
  have "parseModule out spare' = Ok (canon m')"
    unfolding m'(2) using small m'(2) shaped_rewritten [OF m'(1) shape] by (intro parseModule_assemble) simp_all
  moreover have "dce_callees (canon m') = dce_callees m'"
    by (simp add: fun_eq_iff dce_callees_def canon_same)
  ultimately show ?thesis
    using m'(1) callees_rewritten(1) [OF fits m'(1)] live_rewritten [OF fits m'(1)] roots_rewritten [OF m'(1)]
    by (intro exI [of _ m']) (simp add: canon_same canon_live)
qed

lemma Eliminate_output_witness:
  "\<exists>m'. rewritten dce_dead_module m' \<and> parseModule dce_stripped [] = Ok (canon m') \<and>
    buildRootSet (canon m') = reindexed (dce_map dce_dead_module) ` {1}"
proof -
  have "buildRootSet dce_dead_module = {1}" by code_simp
  then show ?thesis
    using Eliminate_output [OF iteration_by_key dce_dead_parsed dce_dead_fits dce_dead_shaped dce_dead_eliminated, of "[]"]
    by (auto simp: dce_dead_stats_def dce_stripped_def dce_wasmMagic_def)
qed

text \<open>C4. For a parsed module that is well-shaped (no number of a type or import entry is cut off,
  the offset expression of every element segment ends with its first end byte) and whose sizes
  fit 32 bits: when dce.Eliminate has removed functions, a second run returns the module the
  first run wrote, unchanged, and counts nothing removed.\<close>

theorem Eliminate_idempotent:
  assumes "iteration iter" and "parseModule wasm spare = Ok m" and "dce_fits m" and "shaped m"
    and "Eliminate iter wasm spare = Ok (out, st)" and "RemovedFunctions st \<noteq> 0" and "length out < 2 ^ 32"
  shows "Eliminate iter out spare' = Ok (out, \<lparr>TotalFunctions = TotalFunctions st - RemovedFunctions st,
    RemovedFunctions = 0, OriginalSize = length out, OptimizedSize = length out\<rparr>)"
  by (rule Eliminate_again [OF assms])

lemma Eliminate_idempotent_witness:
  "Eliminate by_key dce_stripped [] = Ok (dce_stripped, \<lparr>TotalFunctions = 1, RemovedFunctions = 0,
     OriginalSize = 33, OptimizedSize = 33\<rparr>)"
  using Eliminate_idempotent [OF iteration_by_key dce_dead_parsed dce_dead_fits dce_dead_shaped dce_dead_eliminated, of "[]"]
  by (simp add: dce_dead_stats_def dce_stripped_def dce_wasmMagic_def)

text \<open>C5. For a well-shaped module (no number of a type or import entry is cut off, the offset
  expression of every element segment ends with its first end byte, the count of imported
  functions is that of the imports) that takes fewer than 2^32 bytes: parseModule reads from the
  bytes assemble wrote the module it was given, with the other sections in the order of their
  numbers and those above 11 left out.\<close>

theorem assemble_roundtrip:
  assumes "shaped m" and "length (assemble m) < 2 ^ 32"
  shows "parseModule (assemble m) spare = Ok (canon m)"
  by (rule parseModule_assemble [OF assms])

lemma assemble_roundtrip_witness:
  "parseModule (assemble dce_dead_module) [] = Ok (dce_dead_module\<lparr>PassthroughSections := []\<rparr>)"
proof -
  have "assemble dce_dead_module = dce_dead_module_bytes" by code_simp
  moreover have "canon dce_dead_module = dce_dead_module\<lparr>PassthroughSections := []\<rparr>"
    by (simp add: canon_def dce_dead_module_def)
  ultimately show ?thesis
    using assemble_roundtrip [OF dce_dead_shaped, of "[]"] by (simp add: dce_dead_module_bytes_def dce_wasmMagic_def)
qed

text \<open>A type section whose entry is cut off: the entry takes in three bytes of the section after it.\<close>

lemma type_entry_reads_on:
  "parseTypeSection [1, 0x60, 0, 0x83] [3, 3, 2, 0, 0] = Ok [[0x60, 0, 0x83, 3, 3, 2]]"
  by code_simp

text \<open>C11. When the marking of dce returns, it has marked exactly the functions reachable from the
  roots over the calls of the bodies.\<close>

theorem markReachable_reachability:
  assumes "iteration iter" and "markReachable iter m (buildRootSet m) = Ok R"
  shows "R = dce_live m"
  using markReachable_Ok(1) [OF assms(2,1)] by (simp add: dce_live_def)

lemma markReachable_reachability_witness: "dce_live dce_dead_module = {1}"
proof -
  have "markReachable by_key dce_dead_module (buildRootSet dce_dead_module) = Ok {1}" by code_simp
  from markReachable_reachability [OF iteration_by_key this] show ?thesis by simp
qed

text \<open>C12. The index map dce builds is the one wasmopt builds from the flags of the kept functions,
  and its dead set are the positions without flag, as long as the functions have 32-bit indices.\<close>

theorem buildReindexMap_equivalence:
  assumes "unat (NumImportedFuncs m) + length (Bodies m) \<le> 2 ^ 32"
  shows "buildReindexMap m R = (fst (buildFunctionRemap (NumImportedFuncs m) (kept_flags m R)),
    {i. i < length (Bodies m) \<and> \<not> kept_flags m R ! i})"
proof (rule prod_eqI)
  have le: "unat (NumImportedFuncs m) + length (Bodies m) \<le> 4294967296" using assms by simp
  then have "length (Bodies m) \<le> 4294967296" by simp
  then show "snd (buildReindexMap m R) = snd (fst (buildFunctionRemap (NumImportedFuncs m) (kept_flags m R)),
      {i. i < length (Bodies m) \<and> \<not> kept_flags m R ! i})"
    unfolding snd_conv by (rule buildReindexMap_dead)
  show "fst (buildReindexMap m R) = fst (fst (buildFunctionRemap (NumImportedFuncs m) (kept_flags m R)),
      {i. i < length (Bodies m) \<and> \<not> kept_flags m R ! i})"
    unfolding fst_conv by (rule buildReindexMap_remap [OF le])
qed

lemma buildReindexMap_equivalence_witness:
  "fst (buildReindexMap dce_dead_module {1}) 1 = Some 0 \<and> snd (buildReindexMap dce_dead_module {1}) = {0}"
proof -
  have "unat (NumImportedFuncs dce_dead_module) + length (Bodies dce_dead_module) \<le> 2 ^ 32"
    by (simp add: dce_dead_module_def)
  note e = buildReindexMap_equivalence [OF this, of "{1}"]
  have "kept_flags dce_dead_module {1} = [False, True]" "length (Bodies dce_dead_module) = 2"
    "fst (buildFunctionRemap (NumImportedFuncs dce_dead_module) [False, True]) 1 = Some 0"
    by code_simp+
  with e show ?thesis by (auto simp: less_Suc_eq numeral_2_eq_2)
qed

text \<open>C10. When rewriteBody returns, the body it was given and the body it wrote can both be
  scanned, and the functions the second calls are the images, under the index map, of those the
  first calls.\<close>

theorem rewriteBody_maps_calls:
  assumes "rewriteBody body reindexMap = Ok out"
  shows "\<exists>T. scanCalls body = Ok T \<and> scanCalls out = Ok (reindexed reindexMap ` T)"
  by (rule rewriteBody_calls [OF assms])

lemma rewriteBody_maps_calls_witness:
  "scanCalls [0, 0x41, 0x10, 0x10, 0, 0x0b] = Ok (reindexed [1 \<mapsto> 0] ` {1})"
proof -
  have "rewriteBody [0, 0x41, 0x10, 0x10, 0x81, 0x00, 0x0b] [1 \<mapsto> 0] = Ok [0, 0x41, 0x10, 0x10, 0, 0x0b]"
    "scanCalls [0, 0x41, 0x10, 0x10, 0x81, 0x00, 0x0b] = Ok {1}" by code_simp+
  with rewriteBody_maps_calls [OF this(1)] show ?thesis by simp
qed

text \<open>C13. On a body with a br_table of 2^32-1 labels neither scanCalls nor rewriteBody ever
  returns: the 32-bit counter of the loop never passes the count.\<close>

theorem br_table_diverges:
  "scanCalls (endless_body @ rest) = Diverge \<and> rewriteBody (endless_body @ rest) reindexMap = Diverge"
  by (simp add: endless_scan endless_rewrite)

text \<open>The unsigned writer of dce writes what the one of wasmopt writes, and each reader of dce,
  unsigned or signed, of 32 or 64 bits, reads back what its writer wrote, whatever follows.\<close>

theorem leb_codecs_agree:
  "encodeULEB128 v = encodeU32 v \<and>
   decodeULEB128 (encodeULEB128 v @ rest) = (v, length (encodeULEB128 v)) \<and>
   decodeSLEB128 (encodeSLEB128 w @ rest) = (w, length (encodeSLEB128 w)) \<and>
   decodeSLEB128_64 (encodeSLEB128_64 d @ rest) = (d, length (encodeSLEB128_64 d))"
  using decodeULEB128_encoded [of 0 "encodeULEB128 v @ rest" v rest]
  by (simp add: encodeULEB128_encodeU32 decodeSLEB128_encoded decodeSLEB128_64_encoded)

text \<open>assemble writes no section with a number other than 0 to 11: a data count section (12) is
  dropped from the module.\<close>

theorem assemble_drops_sections:
  "assemble m = assemble (m\<lparr>PassthroughSections :=
     filter (\<lambda>s. ID s \<in> {0, 4, 5, 6, 11}) (PassthroughSections m)\<rparr>)"
proof -
  have "emitPassthrough (m\<lparr>PassthroughSections := filter (\<lambda>s. ID s \<in> {0, 4, 5, 6, 11}) (PassthroughSections m)\<rparr>) i =
      emitPassthrough m i" if "i \<in> {0, 4, 5, 6, 11}" for i
  proof -
    have "filter (\<lambda>s. ID s = i) (filter (\<lambda>s. ID s \<in> {0, 4, 5, 6, 11}) ss) = filter (\<lambda>s. ID s = i) ss" for ss
      using that by (induction ss) auto
    from this [of "PassthroughSections m"] show ?thesis
      unfolding emitPassthrough_def by (simp del: filter_filter)
  qed
  then show ?thesis by (simp add: assemble_def)
qed

end
