(* ===== verification/GoText.thy ===== *)
theory GoText
  imports GoPrelude "HOL-Library.Sublist"
begin

text \<open>
  The functions of Go's \<open>strings\<close> package the components use, on ASCII strings (a string is the list
  of its bytes; the Unicode case and space tables are left out), and the reachable states of a
  component as a step relation: a locale for invariants.
\<close>

section \<open>ASCII strings\<close>

definition lower_char :: "char \<Rightarrow> char" where
  "lower_char c = (let n = of_char c :: nat in if 65 \<le> n \<and> n \<le> 90 then char_of (n + 32) else c)"

definition str_lower :: "string \<Rightarrow> string" where
  "str_lower s = map lower_char s"

definition is_space :: "char \<Rightarrow> bool" where
  "is_space c \<longleftrightarrow> (of_char c :: nat) \<in> {9, 10, 11, 12, 13, 32}"

definition trim_space :: "string \<Rightarrow> string" where
  "trim_space s = rev (dropWhile is_space (rev (dropWhile is_space s)))"

text \<open>\<open>strings.Contains\<close> and \<open>strings.HasPrefix\<close>.\<close>

fun str_contains :: "'a list \<Rightarrow> 'a list \<Rightarrow> bool" where
  "str_contains [] p = (p = [])"
| "str_contains (c # s) p = (take (length p) (c # s) = p \<or> str_contains s p)"

lemma str_contains_sublist: "str_contains s p \<longleftrightarrow> sublist p s"
proof (induction s)
  case Nil
  then show ?case by simp
next
  case (Cons c s)
  have "take (length p) (c # s) = p \<longleftrightarrow> prefix p (c # s)"
    by (metis append_eq_conv_conj append_take_drop_id prefix_def)
  with Cons show ?case by (simp add: sublist_Cons_right)
qed

definition has_prefix :: "'a list \<Rightarrow> 'a list \<Rightarrow> bool" where
  "has_prefix s p \<longleftrightarrow> take (length p) s = p"

section \<open>Reachable states\<close>

text \<open>A component is given by its initial states and its steps.\<close>

inductive reachable :: "('s \<Rightarrow> bool) \<Rightarrow> ('s \<Rightarrow> 's \<Rightarrow> bool) \<Rightarrow> 's \<Rightarrow> bool"
  for init :: "'s \<Rightarrow> bool" and step :: "'s \<Rightarrow> 's \<Rightarrow> bool" where
  start: "init s \<Longrightarrow> reachable init step s"
| step: "reachable init step s \<Longrightarrow> step s s' \<Longrightarrow> reachable init step s'"

locale machine =
  fixes init :: "'s \<Rightarrow> bool" and step :: "'s \<Rightarrow> 's \<Rightarrow> bool" and inv :: "'s \<Rightarrow> bool"
  assumes init_inv: "init s \<Longrightarrow> inv s"
    and step_inv: "inv s \<Longrightarrow> step s s' \<Longrightarrow> inv s'"
begin

lemma reachable_inv: "reachable init step s \<Longrightarrow> inv s"
  by (induction rule: reachable.induct) (auto intro: init_inv step_inv)

end

section \<open>Walks with a bound on the turns\<close>

text \<open>
  A loop whose next turn depends on its state alone: \<open>Inl\<close> goes on, \<open>Inr\<close> ends. When every state it
  goes on from is in a finite set, one turn more than that set has elements decides whether it ends.
\<close>

fun run :: "('s \<Rightarrow> 's + 'r) \<Rightarrow> nat \<Rightarrow> 's \<Rightarrow> 'r option" where
  "run step 0 s = None"
| "run step (Suc n) s = (case step s of Inl s' \<Rightarrow> run step n s' | Inr r \<Rightarrow> Some r)"

lemma run_more: "run step n s = Some r \<Longrightarrow> n \<le> m \<Longrightarrow> run step m s = Some r"
proof (induction step n s arbitrary: m rule: run.induct)
  case (2 step n s)
  then show ?case by (cases m) (auto split: sum.splits)
qed simp

lemma run_turns:
  assumes A: "finite A" "\<And>s s'. step s = Inl s' \<Longrightarrow> s \<in> A" and ends: "run step n s = Some r"
  shows "run step (Suc (card A)) s = Some r"
proof -
  define l where "l t = (LEAST n. run step n t \<noteq> None)" for t
  have l_step: "l t = Suc (l t')" if "step t = Inl t'" "run step k t' \<noteq> None" for t t' k
  proof -
    have "l t = Suc (LEAST n. run step (Suc n) t \<noteq> None)"
      unfolding l_def by (rule Least_Suc [of _ "Suc k"]) (use that in auto)
    with that(1) show ?thesis by (simp add: l_def)
  qed
  have visits: "\<exists>t\<in>A. l t = j" if "run step k t \<noteq> None" "2 \<le> j" "j \<le> l t" for k t j
    using that
  proof (induction k arbitrary: t)
    case (Suc k)
    show ?case
    proof (cases "step t")
      case (Inl t')
      with Suc.prems have t': "run step k t' \<noteq> None" by simp
      show ?thesis
      proof (cases "j = l t")
        case True
        with A(2) [OF Inl] show ?thesis by blast
      next
        case False
        with l_step [OF Inl t'] Suc.prems have "j \<le> l t'" by simp
        with Suc.IH [OF t' Suc.prems(2)] show ?thesis by blast
      qed
    next
      case (Inr r)
      then have "run step (Suc 0) t \<noteq> None" by simp
      then have "l t \<le> Suc 0" unfolding l_def by (rule Least_le)
      with Suc.prems show ?thesis by simp
    qed
  qed simp
  from ends have ne: "run step n s \<noteq> None" by simp
  then have "{2..l s} \<subseteq> l ` A" using visits [OF ne] by force
  then have "card {2..l s} \<le> card A" using A(1) by (rule surj_card_le [rotated])
  then have "l s \<le> Suc (card A)" by simp
  moreover have "run step (l s) s \<noteq> None" unfolding l_def using ne by (rule LeastI)
  ultimately obtain r' where "run step (Suc (card A)) s = Some r'" using run_more by fastforce
  moreover from this have "r' = r"
    using ends run_more [of step n s r "n + Suc (card A)"] run_more [of step "Suc (card A)" s r' "n + Suc (card A)"] by simp
  ultimately show ?thesis by simp
qed

end
