(* ===== verification/Navigation.thy ===== *)
theory Navigation
  imports GoText
begin

text \<open>
  internal/trace: the execution trace with its cursor, its lazily built snapshots and its event
  filters (navigation.go, event_sequencer.go, event_type.go). The states of a trace are values: no
  code of the package changes a state's maps after \<open>AddState\<close>. Values of type \<open>interface{}\<close> and
  pointers to the structs of other packages are of the type parameter \<open>'v\<close>. \<open>now\<close> is the clock.
  The fields of the trace that no operation here reads (the diagnostic and decoded events, the
  annotations, the cached call graph) are left out, as are the JSON functions.
\<close>

section \<open>Sequence numbers\<close>

record sequencer =
  nextSeqID :: u64
  parentStack :: "u64 list"

definition NewEventSequencer :: sequencer where
  "NewEventSequencer = \<lparr>nextSeqID = 1, parentStack = []\<rparr>"

definition NextSequenceID :: "sequencer \<Rightarrow> u64 \<times> sequencer" where
  "NextSequenceID s = (nextSeqID s, s\<lparr>nextSeqID := nextSeqID s + 1\<rparr>)"

definition CurrentParent :: "sequencer \<Rightarrow> u64" where
  "CurrentParent s = (if length (parentStack s) = 0 then 0 else last (parentStack s))"

definition PushParent :: "u64 \<Rightarrow> sequencer \<Rightarrow> sequencer" where
  "PushParent parentID s = s\<lparr>parentStack := parentStack s @ [parentID]\<rparr>"

definition PopParent :: "sequencer \<Rightarrow> sequencer" where
  "PopParent s = (if length (parentStack s) > 0 then s\<lparr>parentStack := butlast (parentStack s)\<rparr> else s)"

definition Reset :: "sequencer \<Rightarrow> sequencer" where
  "Reset s = s\<lparr>nextSeqID := 1, parentStack := []\<rparr>"

text \<open>The two assigning loops, on the sequence and parent numbers of the events.\<close>

fun AssignSequenceIDs :: "(u64 \<times> u64) list \<Rightarrow> sequencer \<Rightarrow> (u64 \<times> u64) list \<times> sequencer" where
  "AssignSequenceIDs [] s = ([], s)"
| "AssignSequenceIDs ((i, p) # es) s =
     (let (i', s) = (if i = 0 then NextSequenceID s else (i, s)); (es', s) = AssignSequenceIDs es s
      in ((i', p) # es', s))"

fun AssignSequenceIDsWithParent :: "(u64 \<times> u64) list \<Rightarrow> sequencer \<Rightarrow> (u64 \<times> u64) list \<times> sequencer" where
  "AssignSequenceIDsWithParent [] s = ([], s)"
| "AssignSequenceIDsWithParent ((i, p) # es) s =
     (let (i', s) = (if i = 0 then NextSequenceID s else (i, s));
          p' = (if p = 0 then CurrentParent s else p);
          (es', s) = AssignSequenceIDsWithParent es s
      in ((i', p') # es', s))"

section \<open>The trace\<close>

record 'v exec_state =
  Step :: int
  Timestamp :: nat
  Operation :: string
  EventType :: string
  ContractID :: string
  Function :: string
  ContractMetadata :: "'v option"
  Arguments :: "'v list"
  RawArguments :: "string list"
  ReturnValue :: "'v option"
  RawReturnValue :: string
  ErrorText :: string
  HostState :: "(string \<rightharpoonup> 'v) option"
  Memory :: "(string \<rightharpoonup> 'v) option"
  WasmInstruction :: string
  SourceFile :: string
  SourceLine :: int
  SourceColumn :: int
  ConfidenceLevel :: string
  ConfidenceReason :: string
  GitHubLink :: string
  Cost :: "'v option"
  SequenceID :: u64
  ParentSequenceID :: u64

record 'v snapshot =
  SnapStep :: int
  SnapTimestamp :: nat
  SnapHostState :: "(string \<rightharpoonup> 'v) option"
  SnapMemory :: "(string \<rightharpoonup> 'v) option"
  CallStack :: "string list"
  built :: bool

record 'v trace =
  TransactionHash :: string
  StartTime :: nat
  States :: "'v exec_state list"
  Snapshots :: "'v snapshot list"
  CurrentStep :: int
  SnapshotInterval :: int
  sequencer_of :: "sequencer option"

datatype nav_error = LastStep | FirstStep | StepOutOfRange int | JumpOutOfRange int int
  | InvalidCurrentStep int | NoMoreSteps string | NoEarlierSteps string

definition NewExecutionTrace :: "string \<Rightarrow> int \<Rightarrow> nat \<Rightarrow> 'v trace" where
  "NewExecutionTrace txHash snapshotInterval now =
     \<lparr>TransactionHash = txHash, StartTime = now, States = [], Snapshots = [], CurrentStep = 0,
      SnapshotInterval = (if snapshotInterval \<le> 0 then 100 else snapshotInterval),
      sequencer_of = Some NewEventSequencer\<rparr>"

abbreviation total_steps :: "'v trace \<Rightarrow> int" where
  "total_steps t \<equiv> int (length (States t))"

abbreviation state_at :: "'v trace \<Rightarrow> int \<Rightarrow> 'v exec_state" where
  "state_at t i \<equiv> States t ! nat i"

text \<open>Copying and updating maps: a nil map is like an empty one.\<close>

definition copyMap :: "(string \<rightharpoonup> 'v) option \<Rightarrow> (string \<rightharpoonup> 'v)" where
  "copyMap original = (case original of None \<Rightarrow> Map.empty | Some m \<Rightarrow> m)"

definition accumulate :: "(string \<rightharpoonup> 'v) \<Rightarrow> (string \<rightharpoonup> 'v) option \<Rightarrow> (string \<rightharpoonup> 'v)" where
  "accumulate m changes = (case changes of None \<Rightarrow> m | Some c \<Rightarrow> m ++ c)"

definition apply_state ::
  "(string \<rightharpoonup> 'v) \<times> (string \<rightharpoonup> 'v) \<Rightarrow> 'v exec_state \<Rightarrow> (string \<rightharpoonup> 'v) \<times> (string \<rightharpoonup> 'v)" where
  "apply_state maps st = (accumulate (fst maps) (HostState st), accumulate (snd maps) (Memory st))"

text \<open>
  The loop both reconstructions share: the states from \<open>start\<close> to \<open>step\<close> are applied to the maps,
  and the other fields of the result are those of the target, as far as the code copies them.
\<close>

definition replay :: "'v trace \<Rightarrow> int \<Rightarrow> int \<Rightarrow> (string \<rightharpoonup> 'v) \<times> (string \<rightharpoonup> 'v) \<Rightarrow> (string \<rightharpoonup> 'v) \<times> (string \<rightharpoonup> 'v)" where
  "replay t start step maps = foldl apply_state maps (map (\<lambda>i. state_at t i) [start..step])"

definition reconstructed :: "'v trace \<Rightarrow> int \<Rightarrow> (string \<rightharpoonup> 'v) \<times> (string \<rightharpoonup> 'v) \<Rightarrow> 'v exec_state" where
  "reconstructed t step maps = (let st = state_at t step in
     \<lparr>Step = step, Timestamp = Timestamp st, Operation = Operation st, EventType = '''',
      ContractID = ContractID st, Function = Function st, ContractMetadata = ContractMetadata st,
      Arguments = Arguments st, RawArguments = RawArguments st, ReturnValue = ReturnValue st,
      RawReturnValue = RawReturnValue st, ErrorText = ErrorText st,
      HostState = Some (fst maps), Memory = Some (snd maps),
      WasmInstruction = '''', SourceFile = '''', SourceLine = 0, SourceColumn = 0,
      ConfidenceLevel = '''', ConfidenceReason = '''', GitHubLink = '''', Cost = None,
      SequenceID = 0, ParentSequenceID = 0\<rparr>)"

definition reconstructStateUpTo :: "'v trace \<Rightarrow> int \<Rightarrow> (nav_error, 'v exec_state) outcome" where
  "reconstructStateUpTo t step =
     (if step < 0 \<or> step \<ge> total_steps t then Err (StepOutOfRange step)
      else Ok (reconstructed t step (replay t 0 step (Map.empty, Map.empty))))"

text \<open>Building the snapshot at an index the caller has checked.\<close>

definition ensureSnapshot :: "'v trace \<Rightarrow> nat \<Rightarrow> 'v trace" where
  "ensureSnapshot t idx = (let s = Snapshots t ! idx in
     if built s then t
     else let s' = (case reconstructStateUpTo t (SnapStep s) of
           Ok r \<Rightarrow> s\<lparr>SnapHostState := Some (copyMap (HostState r)), SnapMemory := Some (copyMap (Memory r))\<rparr>
         | _ \<Rightarrow> s)
       in t\<lparr>Snapshots := (Snapshots t)[idx := s'\<lparr>built := True\<rparr>]\<rparr>)"

definition getCurrentCallStack :: "'v trace \<Rightarrow> string list" where
  "getCurrentCallStack t =
     foldl (\<lambda>stack st. if Function st \<noteq> '''' then
         (let entry = ContractID st @ ''::'' @ Function st in
          if length stack = 0 \<or> last stack \<noteq> entry then stack @ [entry] else stack)
       else stack) [] (map (\<lambda>i. state_at t i) [0..min (CurrentStep t) (total_steps t - 1)])"

text \<open>\<open>AddState\<close>; the remainder by the interval panics when the interval is 0.\<close>

definition AddState :: "nat \<Rightarrow> 'v exec_state \<Rightarrow> 'v trace \<Rightarrow> 'v trace may_panic" where
  "AddState now st t =
     (let st = st\<lparr>Step := total_steps t, Timestamp := now\<rparr>;
          (st, sq) = (case sequencer_of t of
              Some s \<Rightarrow> if SequenceID st = 0 then
                  (let (i, s') = NextSequenceID s in (st\<lparr>SequenceID := i\<rparr>, Some s'))
                else (st, Some s)
            | None \<Rightarrow> (st, None));
          st = (case sq of
              Some s \<Rightarrow> if ParentSequenceID st = 0 then st\<lparr>ParentSequenceID := CurrentParent s\<rparr> else st
            | None \<Rightarrow> st);
          t = t\<lparr>States := States t @ [st], sequencer_of := sq\<rparr>
      in if SnapshotInterval t = 0 then Panic
         else if Step st mod \<bar>SnapshotInterval t\<bar> = 0 then
           Ok (t\<lparr>Snapshots := Snapshots t @ [\<lparr>SnapStep = Step st, SnapTimestamp = Timestamp st,
               SnapHostState = None, SnapMemory = None, CallStack = getCurrentCallStack t,
               built = False\<rparr>]\<rparr>)
         else Ok t)"

section \<open>Moving the cursor\<close>

definition StepForward :: "'v trace \<Rightarrow> (nav_error, 'v trace \<times> 'v exec_state) outcome" where
  "StepForward t =
     (if CurrentStep t \<ge> total_steps t - 1 then Err LastStep
      else obind (at_int (States t) (CurrentStep t + 1)) (\<lambda>st.
        Ok (t\<lparr>CurrentStep := CurrentStep t + 1\<rparr>, st)))"

definition StepBackward :: "'v trace \<Rightarrow> (nav_error, 'v trace \<times> 'v exec_state) outcome" where
  "StepBackward t =
     (if CurrentStep t \<le> 0 then Err FirstStep
      else obind (at_int (States t) (CurrentStep t - 1)) (\<lambda>st.
        Ok (t\<lparr>CurrentStep := CurrentStep t - 1\<rparr>, st)))"

definition JumpToStep :: "int \<Rightarrow> 'v trace \<Rightarrow> (nav_error, 'v trace \<times> 'v exec_state) outcome" where
  "JumpToStep step t =
     (if step < 0 \<or> step \<ge> total_steps t then Err (JumpOutOfRange step (total_steps t - 1))
      else Ok (t\<lparr>CurrentStep := step\<rparr>, state_at t step))"

definition GetCurrentState :: "'v trace \<Rightarrow> (nav_error, 'v exec_state) outcome" where
  "GetCurrentState t =
     (if CurrentStep t < 0 \<or> CurrentStep t \<ge> total_steps t then Err (InvalidCurrentStep (CurrentStep t))
      else Ok (state_at t (CurrentStep t)))"

text \<open>The last snapshot at or before a step, looked for from the end.\<close>

fun nearestSnapshot :: "'v snapshot list \<Rightarrow> int \<Rightarrow> nat \<Rightarrow> nat option" where
  "nearestSnapshot snaps step 0 = None"
| "nearestSnapshot snaps step (Suc i) =
     (if SnapStep (snaps ! i) \<le> step then Some i else nearestSnapshot snaps step i)"

definition ReconstructStateAt :: "int \<Rightarrow> 'v trace \<Rightarrow> (nav_error, 'v trace \<times> 'v exec_state) outcome" where
  "ReconstructStateAt step t =
     (if step < 0 \<or> step \<ge> total_steps t then Err (StepOutOfRange step)
      else case nearestSnapshot (Snapshots t) step (length (Snapshots t)) of
        None \<Rightarrow> Ok (t, reconstructed t step (replay t 0 step (Map.empty, Map.empty)))
      | Some idx \<Rightarrow>
          let t = ensureSnapshot t idx; base = Snapshots t ! idx in
          if SnapStep base < 0 then Panic
          else Ok (t, reconstructed t step
            (replay t (SnapStep base) step (copyMap (SnapHostState base), copyMap (SnapMemory base)))))"

record nav_info =
  info_total_steps :: int
  info_current_step :: int
  can_step_back :: bool
  can_step_forward :: bool
  snapshots_count :: int

definition GetNavigationInfo :: "'v trace \<Rightarrow> nav_info" where
  "GetNavigationInfo t = \<lparr>info_total_steps = total_steps t, info_current_step = CurrentStep t,
     can_step_back = CurrentStep t > 0, can_step_forward = CurrentStep t < total_steps t - 1,
     snapshots_count = int (length (Snapshots t))\<rparr>"

section \<open>Event types and filters\<close>

definition known_host_functions :: "string list" where
  "known_host_functions = [''require_auth'', ''put_ledger_entry'', ''get_ledger_entry'',
     ''del_ledger_entry'', ''get_contract_instance'', ''get_contract_code'',
     ''get_ledger_key_durability'', ''invoke_contract'', ''create_contract'', ''deployer'', ''builtin'']"

definition isKnownHostFunction :: "string \<Rightarrow> bool" where
  "isKnownHostFunction fn \<longleftrightarrow> list_ex (\<lambda>h. fn = h \<or> has_prefix fn (h @ '' '')) known_host_functions"

definition normalizeEventType :: "string \<Rightarrow> string" where
  "normalizeEventType s = (let s = str_lower (trim_space s) in
     if s \<in> set [''trap'', ''traps''] then ''trap''
     else if s \<in> set [''contract_call'', ''contract call'', ''contractcall''] then ''contract_call''
     else if s \<in> set [''host_function'', ''host function'', ''host_fn'', ''hostfn''] then ''host_function''
     else if s \<in> set [''auth'', ''auth_event'', ''auth event''] then ''auth''
     else ''other'')"

definition ClassifyEventType :: "'v exec_state \<Rightarrow> string" where
  "ClassifyEventType st =
     (if EventType st \<noteq> '''' then normalizeEventType (EventType st)
      else let op = str_lower (trim_space (Operation st)); fn = str_lower (trim_space (Function st));
               err = str_lower (trim_space (ErrorText st)) in
        if ErrorText st \<noteq> '''' \<and> (str_contains err ''trap'' \<or> str_contains err ''panic'') then ''trap''
        else if str_contains op ''trap'' then ''trap''
        else if str_contains fn ''require_auth'' \<or> str_contains fn ''authorize'' \<or>
          str_contains op ''auth'' \<or> str_contains op ''require_auth'' then ''auth''
        else if str_contains op ''host'' \<or> str_contains op ''host_fn'' \<or>
          str_contains op ''host function'' \<or> isKnownHostFunction fn then ''host_function''
        else if str_contains op ''contract_call'' \<or> str_contains op ''contract_init'' \<or>
          (str_contains op ''invoke'' \<and> \<not> str_contains op ''host'') then ''contract_call''
        else if ContractID st \<noteq> '''' \<and> Function st \<noteq> '''' \<and> ErrorText st = '''' then ''contract_call''
        else ''other'')"

definition StepMatchesFilter :: "'v trace \<Rightarrow> int \<Rightarrow> string \<Rightarrow> bool" where
  "StepMatchesFilter t i flt \<longleftrightarrow>
     0 \<le> i \<and> i < total_steps t \<and> (flt = '''' \<or> ClassifyEventType (state_at t i) = flt)"

text \<open>The searching loops, upwards and downwards; only positions inside the trace match.\<close>

definition FilteredStepForward :: "string \<Rightarrow> 'v trace \<Rightarrow> (nav_error, 'v trace \<times> 'v exec_state) outcome" where
  "FilteredStepForward flt t =
     (if flt = '''' then StepForward t
      else case find (\<lambda>i. StepMatchesFilter t i flt) [CurrentStep t + 1..total_steps t - 1] of
        Some i \<Rightarrow> Ok (t\<lparr>CurrentStep := i\<rparr>, state_at t i)
      | None \<Rightarrow> Err (NoMoreSteps flt))"

definition FilteredStepBackward :: "string \<Rightarrow> 'v trace \<Rightarrow> (nav_error, 'v trace \<times> 'v exec_state) outcome" where
  "FilteredStepBackward flt t =
     (if flt = '''' then StepBackward t
      else case find (\<lambda>i. StepMatchesFilter t i flt) (rev [0..CurrentStep t - 1]) of
        Some i \<Rightarrow> Ok (t\<lparr>CurrentStep := i\<rparr>, state_at t i)
      | None \<Rightarrow> Err (NoEarlierSteps flt))"

definition FilteredStepCount :: "string \<Rightarrow> 'v trace \<Rightarrow> int" where
  "FilteredStepCount flt t =
     (if flt = '''' then total_steps t
      else int (length (filter (\<lambda>i. StepMatchesFilter t i flt) [0..total_steps t - 1])))"

definition FilteredCurrentIndex :: "string \<Rightarrow> 'v trace \<Rightarrow> int" where
  "FilteredCurrentIndex flt t =
     (if CurrentStep t < 0 \<or> CurrentStep t \<ge> total_steps t then 0
      else if flt = '''' then CurrentStep t + 1
      else if \<not> StepMatchesFilter t (CurrentStep t) flt then 0
      else int (length (filter (\<lambda>i. StepMatchesFilter t i flt) [0..CurrentStep t])))"

section \<open>Replaying from a snapshot\<close>

text \<open>
  The contract between the snapshots and the replay: applying the changes of a state twice in a row
  is applying them once, so that a replay may start again with the state a snapshot was taken at.
\<close>

locale checkpointed =
  fixes change :: "'s \<Rightarrow> 'e \<Rightarrow> 's"
  assumes again: "change (change s e) e = change s e"
begin

lemma replay_from_checkpoint:
  assumes "k \<le> n" and "n < length es"
  shows "foldl change (foldl change s (take (Suc k) es)) (take (Suc n - k) (drop k es)) =
    foldl change s (take (Suc n) es)"
proof -
  have k: "take (Suc k) es = take k es @ [es ! k]" using assms by (simp add: take_Suc_conv_app_nth)
  have d: "take (Suc n - k) (drop k es) = es ! k # take (n - k) (drop (Suc k) es)"
    using assms by (metis Cons_nth_drop_Suc Suc_diff_le le_less_trans take_Suc_Cons)
  have "take (Suc n) es = take (Suc k) es @ take (n - k) (drop (Suc k) es)"
    using assms take_add [of "Suc k" "n - k" es] by simp
  then show ?thesis by (simp add: k d again)
qed

end

lemma accumulate_again: "accumulate (accumulate m c) c = accumulate m c"
  by (auto simp: accumulate_def map_add_def fun_eq_iff split: option.split)

interpretation trace_replay: checkpointed apply_state
  by unfold_locales (simp add: apply_state_def accumulate_again)

lemma states_between:
  "0 \<le> a \<Longrightarrow> a \<le> b \<Longrightarrow> b < total_steps t \<Longrightarrow>
     map (\<lambda>i. state_at t i) [a..b] = take (Suc (nat b) - nat a) (drop (nat a) (States t))"
proof -
  assume ab: "0 \<le> a" "a \<le> b" "b < total_steps t"
  show ?thesis
  proof (rule nth_equalityI)
    show "length (map (\<lambda>i. state_at t i) [a..b]) = length (take (Suc (nat b) - nat a) (drop (nat a) (States t)))"
      using ab by simp
    fix i assume "i < length (map (\<lambda>i. state_at t i) [a..b])"
    with ab have "i < Suc (nat b) - nat a" "nat (a + int i) = nat a + i" by simp_all
    then show "map (\<lambda>i. state_at t i) [a..b] ! i = take (Suc (nat b) - nat a) (drop (nat a) (States t)) ! i"
      using ab by simp
  qed
qed

lemma replay_checkpoint:
  assumes "0 \<le> k" and "k \<le> n" and "n < total_steps t"
  shows "replay t k n (replay t 0 k maps) = replay t 0 n maps"
proof -
  have k: "map (\<lambda>i. state_at t i) [0..k] = take (Suc (nat k)) (States t)"
    using states_between [of 0 k t] assms by simp
  have n: "map (\<lambda>i. state_at t i) [0..n] = take (Suc (nat n)) (States t)"
    using states_between [of 0 n t] assms by simp
  have kn: "map (\<lambda>i. state_at t i) [k..n] = take (Suc (nat n) - nat k) (drop (nat k) (States t))"
    using states_between [of k n t] assms by simp
  show ?thesis
    unfolding replay_def k n kn by (rule trace_replay.replay_from_checkpoint) (use assms in auto)
qed

section \<open>The states a trace goes through\<close>

definition from_start :: "'v trace \<Rightarrow> int \<Rightarrow> (string \<rightharpoonup> 'v) \<times> (string \<rightharpoonup> 'v)" where
  "from_start t n = replay t 0 n (Map.empty, Map.empty)"

definition snap_ok :: "'v trace \<Rightarrow> 'v snapshot \<Rightarrow> bool" where
  "snap_ok t s \<longleftrightarrow> 0 \<le> SnapStep s \<and> SnapStep s < total_steps t \<and>
     (built s \<longrightarrow> SnapHostState s = Some (fst (from_start t (SnapStep s))) \<and>
       SnapMemory s = Some (snd (from_start t (SnapStep s))))"

definition cursor_ok :: "'v trace \<Rightarrow> bool" where
  "cursor_ok t \<longleftrightarrow> 0 \<le> CurrentStep t \<and>
     (CurrentStep t < total_steps t \<or> (States t = [] \<and> CurrentStep t = 0))"

definition nav_inv :: "'v trace \<Rightarrow> bool" where
  "nav_inv t \<longleftrightarrow> cursor_ok t \<and> SnapshotInterval t > 0 \<and> list_all (snap_ok t) (Snapshots t)"

inductive nav_step :: "'v trace \<Rightarrow> 'v trace \<Rightarrow> bool" where
  add: "AddState now st t = Ok t' \<Longrightarrow> nav_step t t'"
| forward: "StepForward t = Ok (t', st) \<Longrightarrow> nav_step t t'"
| backward: "StepBackward t = Ok (t', st) \<Longrightarrow> nav_step t t'"
| jump: "JumpToStep n t = Ok (t', st) \<Longrightarrow> nav_step t t'"
| filtered_forward: "FilteredStepForward flt t = Ok (t', st) \<Longrightarrow> nav_step t t'"
| filtered_backward: "FilteredStepBackward flt t = Ok (t', st) \<Longrightarrow> nav_step t t'"
| reconstruct: "ReconstructStateAt n t = Ok (t', st) \<Longrightarrow> nav_step t t'"

inductive_cases nav_stepE: "nav_step t t'"

definition nav_init :: "'v trace \<Rightarrow> bool" where
  "nav_init t \<longleftrightarrow> (\<exists>txHash interval now. t = NewExecutionTrace txHash interval now)"

text \<open>What the operations do to the fields of a trace.\<close>

lemma replay_cong: "States t' = States t \<Longrightarrow> replay t' a b = replay t a b"
  by (simp add: replay_def fun_eq_iff)

lemma from_start_cong: "States t' = States t \<Longrightarrow> from_start t' n = from_start t n"
  by (simp add: from_start_def replay_cong [of t' t])

lemma replay_append: "States t' = States t @ [x] \<Longrightarrow> b < total_steps t \<Longrightarrow> replay t' 0 b = replay t 0 b"
  unfolding replay_def by (intro ext arg_cong [where f = "foldl apply_state _"] map_cong) (auto simp: nth_append)

lemma snap_ok_cong: "States t' = States t \<Longrightarrow> snap_ok t' = snap_ok t"
  by (simp add: snap_ok_def fun_eq_iff from_start_cong [of t' t])

lemma snap_ok_moved: "snap_ok (t\<lparr>CurrentStep := c\<rparr>) = snap_ok t" "snap_ok (t\<lparr>Snapshots := ss\<rparr>) = snap_ok t"
  by (rule snap_ok_cong, simp)+

lemma snap_ok_append: "States t' = States t @ [x] \<Longrightarrow> snap_ok t s \<Longrightarrow> snap_ok t' s"
  by (auto simp: snap_ok_def from_start_def replay_append)

lemma AddState_Ok:
  assumes "AddState now st t = Ok t'"
  obtains x snaps where "States t' = States t @ [x]" and "Step x = total_steps t" and "CurrentStep t' = CurrentStep t"
    and "SnapshotInterval t' = SnapshotInterval t" and "Snapshots t' = Snapshots t @ snaps"
    and "list_all (\<lambda>s. SnapStep s = total_steps t \<and> \<not> built s) snaps"
  using assms unfolding AddState_def
  by (auto simp: Let_def split_beta NextSequenceID_def split: option.splits if_splits)

lemma find_Some: "find P xs = Some x \<Longrightarrow> x \<in> set xs \<and> P x"
  by (auto simp: find_Some_iff)

lemma move_Ok:
  "StepForward t = Ok (t', st) \<Longrightarrow> t' = t\<lparr>CurrentStep := CurrentStep t + 1\<rparr> \<and> CurrentStep t < total_steps t - 1"
  "StepBackward t = Ok (t', st) \<Longrightarrow> t' = t\<lparr>CurrentStep := CurrentStep t - 1\<rparr> \<and> CurrentStep t > 0"
  "JumpToStep n t = Ok (t', st) \<Longrightarrow> t' = t\<lparr>CurrentStep := n\<rparr> \<and> 0 \<le> n \<and> n < total_steps t"
  by (auto simp: StepForward_def StepBackward_def JumpToStep_def obind_eq_Ok at_int_def split: if_splits)

lemma filtered_Ok:
  "FilteredStepForward flt t = Ok (t', st) \<Longrightarrow> cursor_ok t \<Longrightarrow>
     t' = t\<lparr>CurrentStep := CurrentStep t'\<rparr> \<and> CurrentStep t < CurrentStep t' \<and> CurrentStep t' < total_steps t"
  "FilteredStepBackward flt t = Ok (t', st) \<Longrightarrow> cursor_ok t \<Longrightarrow>
     t' = t\<lparr>CurrentStep := CurrentStep t'\<rparr> \<and> 0 \<le> CurrentStep t' \<and> CurrentStep t' < CurrentStep t"
  by (auto simp: FilteredStepForward_def FilteredStepBackward_def cursor_ok_def
      split: if_splits option.splits dest!: move_Ok find_Some)

lemma nearestSnapshot_Some:
  "nearestSnapshot snaps n k = Some i \<Longrightarrow> i < k \<and> SnapStep (snaps ! i) \<le> n"
  by (induction k) (auto split: if_splits)

lemma ensureSnapshot_Ok:
  assumes inv: "list_all (snap_ok t) (Snapshots t)" and i: "i < length (Snapshots t)"
  shows "ensureSnapshot t i = t\<lparr>Snapshots := Snapshots (ensureSnapshot t i)\<rparr>"
    and "list_all (snap_ok t) (Snapshots (ensureSnapshot t i))"
    and "SnapStep (Snapshots (ensureSnapshot t i) ! i) = SnapStep (Snapshots t ! i)"
    and "built (Snapshots (ensureSnapshot t i) ! i)"
proof -
  let ?s = "Snapshots t ! i"
  have ok: "snap_ok t ?s" using inv i by (auto simp: list_all_length)
  let ?new = "?s\<lparr>SnapHostState := Some (fst (from_start t (SnapStep ?s))),
      SnapMemory := Some (snd (from_start t (SnapStep ?s))), built := True\<rparr>"
  have e: "ensureSnapshot t i = (if built ?s then t else t\<lparr>Snapshots := (Snapshots t)[i := ?new]\<rparr>)"
    using ok by (simp add: ensureSnapshot_def Let_def reconstructStateUpTo_def snap_ok_def reconstructed_def
        copyMap_def from_start_def)
  show "ensureSnapshot t i = t\<lparr>Snapshots := Snapshots (ensureSnapshot t i)\<rparr>"
    and "SnapStep (Snapshots (ensureSnapshot t i) ! i) = SnapStep ?s"
    and "built (Snapshots (ensureSnapshot t i) ! i)"
    using i by (simp_all add: e)
  have "snap_ok t ?new" using ok by (simp add: snap_ok_def)
  then show "list_all (snap_ok t) (Snapshots (ensureSnapshot t i))"
    using inv i by (auto simp: e list_all_length nth_list_update)
qed

text \<open>The state reconstructed with snapshots is the one reconstructed from the start.\<close>

lemma ReconstructStateAt_eq:
  assumes inv: "nav_inv t"
  shows "ReconstructStateAt n t = obind (reconstructStateUpTo t n) (\<lambda>r.
      Ok (case nearestSnapshot (Snapshots t) n (length (Snapshots t)) of
        None \<Rightarrow> t | Some i \<Rightarrow> ensureSnapshot t i, r))"
proof (cases "n < 0 \<or> n \<ge> total_steps t")
  case True
  then show ?thesis by (auto simp: ReconstructStateAt_def reconstructStateUpTo_def)
next
  case False
  show ?thesis
  proof (cases "nearestSnapshot (Snapshots t) n (length (Snapshots t))")
    case None
    with False show ?thesis by (simp add: ReconstructStateAt_def reconstructStateUpTo_def)
  next
    case (Some i)
    then have i: "i < length (Snapshots t)" "SnapStep (Snapshots t ! i) \<le> n"
      using nearestSnapshot_Some by auto
    have sn: "list_all (snap_ok t) (Snapshots t)" using inv by (simp add: nav_inv_def)
    note E = ensureSnapshot_Ok [OF sn i(1)]
    let ?t = "ensureSnapshot t i" and ?k = "SnapStep (Snapshots t ! i)"
    have st: "States ?t = States t" by (subst E(1)) simp
    have len: "i < length (Snapshots ?t)"
      using i(1) by (simp add: ensureSnapshot_def Let_def)
    then have "snap_ok t (Snapshots ?t ! i)" using E(2) by (auto simp: list_all_length)
    then have base: "SnapHostState (Snapshots ?t ! i) = Some (fst (from_start t ?k))"
        "SnapMemory (Snapshots ?t ! i) = Some (snd (from_start t ?k))" "0 \<le> ?k"
      using E(3,4) by (simp_all add: snap_ok_def)
    have "replay ?t ?k n (from_start t ?k) = from_start t n"
      unfolding from_start_def replay_cong [OF st] using False i(2) base(3) by (intro replay_checkpoint) auto
    then show ?thesis
      using False Some base E(3) st
      by (simp add: ReconstructStateAt_def reconstructStateUpTo_def Let_def copyMap_def reconstructed_def
          from_start_def)
  qed
qed

interpretation nav: machine nav_init nav_step nav_inv
proof
  fix t :: "'a trace" assume "nav_init t"
  then show "nav_inv t" by (auto simp: nav_init_def NewExecutionTrace_def nav_inv_def cursor_ok_def)
next
  fix t t' :: "'a trace" assume inv: "nav_inv t" and "nav_step t t'"
  from this(2) show "nav_inv t'"
  proof (cases rule: nav_step.cases)
    case (add now st)
    then obtain x snaps where x: "States t' = States t @ [x]" "CurrentStep t' = CurrentStep t"
      "SnapshotInterval t' = SnapshotInterval t" "Snapshots t' = Snapshots t @ snaps"
      "list_all (\<lambda>s. SnapStep s = total_steps t \<and> \<not> built s) snaps"
      by (rule AddState_Ok)
    have "list_all (snap_ok t') (Snapshots t)"
      using inv snap_ok_append [OF x(1)] by (auto simp: nav_inv_def list_all_iff)
    moreover have "list_all (snap_ok t') snaps" using x(1,5) by (auto simp: list_all_iff snap_ok_def)
    ultimately show ?thesis using inv x by (auto simp: nav_inv_def cursor_ok_def)
  next
    case (forward st)
    with inv show ?thesis by (auto simp: nav_inv_def cursor_ok_def snap_ok_moved dest!: move_Ok)
  next
    case (backward st)
    with inv show ?thesis by (auto simp: nav_inv_def cursor_ok_def snap_ok_moved dest!: move_Ok)
  next
    case (jump n st)
    with inv show ?thesis by (auto simp: nav_inv_def cursor_ok_def snap_ok_moved dest!: move_Ok)
  next
    case (filtered_forward flt st)
    then obtain c where "t' = t\<lparr>CurrentStep := c\<rparr>" "CurrentStep t < c" "c < total_steps t"
      using filtered_Ok(1) inv by (metis nav_inv_def)
    with inv show ?thesis by (auto simp: nav_inv_def cursor_ok_def snap_ok_moved)
  next
    case (filtered_backward flt st)
    then obtain c where "t' = t\<lparr>CurrentStep := c\<rparr>" "0 \<le> c" "c < CurrentStep t"
      using filtered_Ok(2) inv by (metis nav_inv_def)
    with inv show ?thesis by (auto simp: nav_inv_def cursor_ok_def snap_ok_moved)
  next
    case (reconstruct n st)
    show ?thesis
    proof (cases "nearestSnapshot (Snapshots t) n (length (Snapshots t))")
      case None
      with reconstruct inv show ?thesis by (auto simp: ReconstructStateAt_eq)
    next
      case (Some i)
      then have i: "i < length (Snapshots t)" using nearestSnapshot_Some by auto
      have t': "t' = ensureSnapshot t i" using reconstruct inv Some by (auto simp: ReconstructStateAt_eq)
      have sn: "list_all (snap_ok t) (Snapshots t)" using inv by (simp add: nav_inv_def)
      note E = ensureSnapshot_Ok [OF sn i]
      have "States t' = States t" "CurrentStep t' = CurrentStep t" "SnapshotInterval t' = SnapshotInterval t"
        unfolding t' by (subst E(1), simp)+
      with inv E(2) show ?thesis
        by (auto simp: nav_inv_def cursor_ok_def snap_ok_cong [OF \<open>States t' = States t\<close>] simp flip: t')
    qed
  qed
qed

section \<open>Filtered steps\<close>

definition matches_up_to :: "string \<Rightarrow> 'v trace \<Rightarrow> int \<Rightarrow> nat" where
  "matches_up_to flt t k = length (filter (\<lambda>i. StepMatchesFilter t i flt) [0..k])"

lemma StepMatchesFilter_moved [simp]: "StepMatchesFilter (t\<lparr>CurrentStep := c\<rparr>) i flt = StepMatchesFilter t i flt"
  by (simp add: StepMatchesFilter_def)

lemma find_upto:
  assumes "find P [a..b] = Some i"
  shows "a \<le> i" and "i \<le> b" and "P i" and "\<And>j. a \<le> j \<Longrightarrow> j < i \<Longrightarrow> \<not> P j"
proof -
  from assms obtain k where k: "k < length [a..b]" "i = [a..b] ! k" "P i" "\<forall>j<k. \<not> P ([a..b] ! j)"
    by (auto simp: find_Some_iff)
  then have i: "i = a + int k" by simp
  show "a \<le> i" "i \<le> b" "P i" using i k by simp_all
  fix j assume "a \<le> j" "j < i"
  then have "nat (j - a) < k" using i by simp
  with k(1,4) \<open>a \<le> j\<close> show "\<not> P j" by (auto dest!: spec [of _ "nat (j - a)"])
qed

lemma find_downto:
  assumes "find P (rev [a..b]) = Some i"
  shows "a \<le> i" and "i \<le> b" and "P i" and "\<And>j. i < j \<Longrightarrow> j \<le> b \<Longrightarrow> \<not> P j"
proof -
  from assms obtain k where k: "k < length [a..b]" "i = rev [a..b] ! k" "P i" "\<forall>j<k. \<not> P (rev [a..b] ! j)"
    by (auto simp: find_Some_iff)
  then have i: "i = b - int k" by (simp add: rev_nth)
  show "a \<le> i" "i \<le> b" "P i" using i k by simp_all
  fix j assume j: "i < j" "j \<le> b"
  then have "nat (b - j) < k" using i by simp
  with k(1,4) j i show "\<not> P j" by (auto simp: rev_nth dest!: spec [of _ "nat (b - j)"])
qed

lemma find_downto_Some:
  assumes "a \<le> i" and "i \<le> b" and "P i" and "\<And>j. i < j \<Longrightarrow> j \<le> b \<Longrightarrow> \<not> P j"
  shows "find P (rev [a..b]) = Some i"
proof (cases "find P (rev [a..b])")
  case None
  with assms(1-3) show ?thesis by (auto simp: find_None_iff)
next
  case (Some j)
  note d = find_downto [OF Some]
  show ?thesis using d assms Some by (metis linorder_neqE_linordered_idom)
qed

lemma matches_next:
  assumes "k < i" and "0 \<le> k + 1" and "StepMatchesFilter t i flt" and "\<And>j. k < j \<Longrightarrow> j < i \<Longrightarrow> \<not> StepMatchesFilter t j flt"
  shows "matches_up_to flt t i = Suc (matches_up_to flt t k)"
proof -
  have "[0..i] = [0..k] @ [k + 1..i - 1] @ [i]"
    using assms(1,2) upto_split1 [of 0 "k + 1" i] upto_rec2 [of "k + 1" i] by simp
  moreover have "filter (\<lambda>i. StepMatchesFilter t i flt) [k + 1..i - 1] = []"
    using assms(4) by (auto simp: filter_empty_conv)
  ultimately show ?thesis using assms(3) by (simp add: matches_up_to_def)
qed

lemma FilteredStepForward_Ok:
  assumes f: "FilteredStepForward flt t = Ok (t', st)" and ok: "cursor_ok t"
  shows "t' = t\<lparr>CurrentStep := CurrentStep t'\<rparr> \<and> CurrentStep t < CurrentStep t' \<and> StepMatchesFilter t (CurrentStep t') flt \<and>
    (\<forall>j. CurrentStep t < j \<and> j < CurrentStep t' \<longrightarrow> \<not> StepMatchesFilter t j flt)"
proof (cases "flt = []")
  case True
  with f have "t' = t\<lparr>CurrentStep := CurrentStep t + 1\<rparr> \<and> CurrentStep t < total_steps t - 1"
    by (simp add: FilteredStepForward_def move_Ok(1))
  with ok True show ?thesis by (auto simp: StepMatchesFilter_def cursor_ok_def)
next
  case False
  with f obtain i where i: "find (\<lambda>i. StepMatchesFilter t i flt) [CurrentStep t + 1..total_steps t - 1] = Some i"
      "t' = t\<lparr>CurrentStep := i\<rparr>"
    by (auto simp: FilteredStepForward_def split: option.splits)
  from find_upto [OF i(1)] i(2) show ?thesis by auto
qed

lemma FilteredCurrentIndex_matches:
  assumes "StepMatchesFilter t (CurrentStep t) flt"
  shows "FilteredCurrentIndex flt t = int (matches_up_to flt t (CurrentStep t))"
proof (cases "flt = []")
  case True
  then have "matches_up_to flt t (CurrentStep t) = length [0..CurrentStep t]"
    using assms unfolding matches_up_to_def
    by (intro arg_cong [where f = length] filter_True) (auto simp: StepMatchesFilter_def)
  with True assms show ?thesis by (auto simp: FilteredCurrentIndex_def StepMatchesFilter_def)
next
  case False
  with assms show ?thesis
    by (auto simp: FilteredCurrentIndex_def matches_up_to_def StepMatchesFilter_def)
qed

lemma filtered_back_again:
  assumes f: "FilteredStepForward flt t = Ok (t', st)" and ok: "cursor_ok t"
    and m: "StepMatchesFilter t (CurrentStep t) flt"
  shows "FilteredStepBackward flt t' = Ok (t, state_at t (CurrentStep t))"
proof (cases "flt = []")
  case True
  with f have "t' = t\<lparr>CurrentStep := CurrentStep t + 1\<rparr> \<and> CurrentStep t < total_steps t - 1"
    by (simp add: FilteredStepForward_def move_Ok(1))
  with ok True show ?thesis
    by (auto simp: FilteredStepBackward_def StepBackward_def cursor_ok_def at_int_def)
next
  case False
  obtain c where c: "t' = t\<lparr>CurrentStep := c\<rparr>" "CurrentStep t < c" "\<forall>j. CurrentStep t < j \<and> j < c \<longrightarrow> \<not> StepMatchesFilter t j flt"
    using FilteredStepForward_Ok [OF f ok] by metis
  have "find (\<lambda>i. StepMatchesFilter t i flt) (rev [0..c - 1]) = Some (CurrentStep t)"
    using c(2,3) m ok by (intro find_downto_Some) (auto simp: cursor_ok_def)
  then show ?thesis using False by (simp add: FilteredStepBackward_def c(1))
qed

section \<open>Sequence numbers of a trace\<close>

fun add_all :: "(nat \<times> 'v exec_state) list \<Rightarrow> 'v trace \<Rightarrow> 'v trace may_panic" where
  "add_all [] t = Ok t"
| "add_all ((now, st) # sts) t = obind (AddState now st t) (add_all sts)"

lemma AddState_fresh:
  assumes "SequenceID st = 0" and "sequencer_of t = Some s" and "SnapshotInterval t > 0"
  shows "\<exists>t' x. AddState now st t = Ok t' \<and> States t' = States t @ [x] \<and> SequenceID x = nextSeqID s \<and>
    Step x = total_steps t \<and> sequencer_of t' = Some (s\<lparr>nextSeqID := nextSeqID s + 1\<rparr>) \<and> SnapshotInterval t' > 0"
  using assms by (simp add: AddState_def NextSequenceID_def Let_def)

lemma add_all_sequence:
  "list_all (\<lambda>(_, st). SequenceID st = 0) sts \<Longrightarrow> sequencer_of t = Some s \<Longrightarrow> SnapshotInterval t > 0 \<Longrightarrow>
     \<exists>t'. add_all sts t = Ok t' \<and> map SequenceID (States t') =
       map SequenceID (States t) @ map (\<lambda>i. nextSeqID s + of_nat i) [0..<length sts]"
proof (induction sts arbitrary: t s)
  case Nil
  then show ?case by simp
next
  case (Cons p sts)
  obtain now st where p: "p = (now, st)" by (cases p)
  with Cons.prems obtain t1 x where t1: "AddState now st t = Ok t1" "States t1 = States t @ [x]"
      "SequenceID x = nextSeqID s" "sequencer_of t1 = Some (s\<lparr>nextSeqID := nextSeqID s + 1\<rparr>)" "SnapshotInterval t1 > 0"
    using AddState_fresh [of st t s now] by auto
  obtain t' where "add_all sts t1 = Ok t'" "map SequenceID (States t') = map SequenceID (States t1) @
       map (\<lambda>i. nextSeqID s + 1 + of_nat i) [0..<length sts]"
    using Cons.IH [OF _ t1(4,5)] Cons.prems(1) by auto
  moreover have "map (\<lambda>i. nextSeqID s + of_nat i) [0..<Suc (length sts)] =
      nextSeqID s # map (\<lambda>i. nextSeqID s + 1 + of_nat i) [0..<length sts]"
    by (simp add: upt_conv_Cons map_Suc_upt [symmetric] comp_def add.assoc del: upt_Suc map_Suc_upt)
  ultimately show ?case using t1 p by simp
qed

section \<open>The properties of a trace\<close>

text \<open>A trace of two states with a snapshot before each.\<close>

definition blank_state :: "nat exec_state" where
  "blank_state = \<lparr>Step = 0, Timestamp = 0, Operation = [], EventType = [],
      ContractID = [], Function = [], ContractMetadata = None,
      Arguments = [], RawArguments = [], ReturnValue = None,
      RawReturnValue = [], ErrorText = [], HostState = None, Memory = None,
      WasmInstruction = [], SourceFile = [], SourceLine = 0, SourceColumn = 0,
      ConfidenceLevel = [], ConfidenceReason = [], GitHubLink = [], Cost = None,
      SequenceID = 0, ParentSequenceID = 0\<rparr>"

definition first_state :: "nat exec_state" where
  "first_state = blank_state\<lparr>EventType := ''auth'', HostState := Some [''a'' \<mapsto> 1]\<rparr>"

definition second_state :: "nat exec_state" where
  "second_state = blank_state\<lparr>EventType := ''auth'', HostState := Some [''b'' \<mapsto> 2]\<rparr>"

definition empty_trace :: "nat trace" where
  "empty_trace = NewExecutionTrace [] 1 0"

definition one_trace :: "nat trace" where
  "one_trace = (case AddState 1 first_state empty_trace of Ok t \<Rightarrow> t | _ \<Rightarrow> empty_trace)"

definition two_trace :: "nat trace" where
  "two_trace = (case AddState 2 second_state one_trace of Ok t \<Rightarrow> t | _ \<Rightarrow> one_trace)"

lemma two_trace_reachable: "reachable nav_init nav_step two_trace"
proof -
  have "reachable nav_init nav_step empty_trace"
    by (rule reachable.start) (auto simp: nav_init_def empty_trace_def)
  moreover have one: "AddState 1 first_state empty_trace = Ok one_trace"
    by (simp add: one_trace_def AddState_def empty_trace_def NewExecutionTrace_def NewEventSequencer_def
        NextSequenceID_def Let_def split: if_splits)
  moreover have "AddState 2 second_state one_trace = Ok two_trace"
    by (simp add: two_trace_def one_trace_def AddState_def empty_trace_def NewExecutionTrace_def NewEventSequencer_def
        NextSequenceID_def Let_def split: if_splits)
  ultimately show ?thesis by (meson nav_step.add reachable.step)
qed

text \<open>C14. In every reachable trace, the state reconstructed from the nearest snapshot, built on
  demand, is the state reconstructed by replaying all steps from the first, errors included.\<close>

theorem snapshots_equivalence:
  assumes "reachable nav_init nav_step t"
  shows "obind (ReconstructStateAt n t) (\<lambda>(t', r). Ok r) = reconstructStateUpTo t n"
  using ReconstructStateAt_eq [OF nav.reachable_inv [OF assms], of n] by (cases "reconstructStateUpTo t n") auto

lemma snapshots_equivalence_witness:
  "(case ReconstructStateAt 1 two_trace of Ok (t', r) \<Rightarrow> map_option (\<lambda>m. (m ''a'', m ''b'')) (HostState r) | _ \<Rightarrow> None) =
     Some (Some 1, Some 2)"
proof -
  have "(case reconstructStateUpTo two_trace 1 of Ok r \<Rightarrow> map_option (\<lambda>m. (m ''a'', m ''b'')) (HostState r) | _ \<Rightarrow> None) =
     Some (Some 1, Some 2)" by code_simp
  note this [unfolded snapshots_equivalence [OF two_trace_reachable, of 1, symmetric]]
  then show ?thesis
    by (cases "ReconstructStateAt 1 two_trace") (auto split: prod.splits)
qed

text \<open>C15. In every reachable trace the cursor is a position of the trace (0 when it is empty), the
  current state is the one at the cursor, and no operation indexes out of range or divides by
  zero.\<close>

theorem navigation_safe:
  assumes "reachable nav_init nav_step t"
  shows "cursor_ok t \<and> returns (StepForward t) \<and> returns (StepBackward t) \<and> returns (AddState now st t) \<and>
    returns (ReconstructStateAt n t) \<and>
    GetCurrentState t = (if States t = [] then Err (InvalidCurrentStep 0) else Ok (state_at t (CurrentStep t)))"
proof -
  have inv: "nav_inv t" by (rule nav.reachable_inv [OF assms])
  have "returns (StepForward t)" "returns (StepBackward t)" "returns (AddState now st t)"
    "returns (ReconstructStateAt n t)"
    using inv by (auto simp: nav_inv_def cursor_ok_def StepForward_def StepBackward_def at_int_def AddState_def
        ReconstructStateAt_eq [OF inv] reconstructStateUpTo_def Let_def split_beta split: option.split intro!: nopanic)
  with inv show ?thesis by (auto simp: nav_inv_def cursor_ok_def GetCurrentState_def)
qed

lemma navigation_safe_witness:
  "GetCurrentState two_trace = Ok (state_at two_trace (CurrentStep two_trace)) \<and> returns (StepForward two_trace)"
proof -
  have "States two_trace \<noteq> []" by code_simp
  with navigation_safe [OF two_trace_reachable] show ?thesis by auto
qed

text \<open>After a filtered step forward the index shown among the matching steps is one more than
  the number of matches up to the old position; from a matching position the filtered step back
  undoes the step.\<close>

theorem filtered_step:
  assumes "reachable nav_init nav_step t" and "FilteredStepForward flt t = Ok (t', st)"
  shows "FilteredCurrentIndex flt t' = 1 + int (matches_up_to flt t (CurrentStep t)) \<and>
    (StepMatchesFilter t (CurrentStep t) flt \<longrightarrow>
      FilteredStepBackward flt t' = Ok (t, state_at t (CurrentStep t)))"
proof -
  have ok: "cursor_ok t" using nav.reachable_inv [OF assms(1)] by (simp add: nav_inv_def)
  obtain c where c: "t' = t\<lparr>CurrentStep := c\<rparr>" "CurrentStep t < c" "StepMatchesFilter t c flt"
      "\<forall>j. CurrentStep t < j \<and> j < c \<longrightarrow> \<not> StepMatchesFilter t j flt"
    using FilteredStepForward_Ok [OF assms(2) ok] by metis
  have "matches_up_to flt t c = Suc (matches_up_to flt t (CurrentStep t))"
    using c ok by (intro matches_next) (auto simp: cursor_ok_def)
  then have "FilteredCurrentIndex flt t' = 1 + int (matches_up_to flt t (CurrentStep t))"
    using FilteredCurrentIndex_matches [of t' flt] c(1,3) by (simp add: matches_up_to_def)
  with filtered_back_again [OF assms(2) ok] show ?thesis by blast
qed

lemma filtered_step_witness:
  "map_option CurrentStep (case FilteredStepForward ''auth'' two_trace of Ok (t', st) \<Rightarrow>
     (case FilteredStepBackward ''auth'' t' of Ok (t'', st') \<Rightarrow> Some t'' | _ \<Rightarrow> None) | _ \<Rightarrow> None) = Some 0"
proof -
  have m: "StepMatchesFilter two_trace (CurrentStep two_trace) ''auth''" "CurrentStep two_trace = 0" by code_simp+
  have "(case FilteredStepForward ''auth'' two_trace of Ok _ \<Rightarrow> True | _ \<Rightarrow> False)" by code_simp
  then obtain t' st where f: "FilteredStepForward ''auth'' two_trace = Ok (t', st)"
    by (cases "FilteredStepForward ''auth'' two_trace") auto
  from filtered_step [OF two_trace_reachable f] m f show ?thesis by simp
qed

text \<open>States added to a new trace without sequence numbers get the numbers 1, 2, 3, ... in the
  order they were added, and adding them never panics.\<close>

theorem sequence_numbers:
  assumes "list_all (\<lambda>(_, st). SequenceID st = 0) sts"
  shows "\<exists>t'. add_all sts (NewExecutionTrace txHash interval now) = Ok t' \<and>
    map SequenceID (States t') = map of_nat [1..<Suc (length sts)]"
proof -
  have "map (\<lambda>i. 1 + of_nat i) [0..<length sts] = (map of_nat [1..<Suc (length sts)] :: u64 list)"
    by (simp add: map_Suc_upt [symmetric] comp_def del: map_Suc_upt upt_Suc)
  then show ?thesis
    using add_all_sequence [OF assms, of "NewExecutionTrace txHash interval now" NewEventSequencer]
    by (simp add: NewExecutionTrace_def NewEventSequencer_def)
qed

lemma sequence_numbers_witness:
  "\<exists>t'. add_all [(1, first_state), (2, second_state)] empty_trace = Ok t' \<and> map SequenceID (States t') = [1, 2]"
  using sequence_numbers [of "[(1, first_state), (2, second_state)]" "[]" 1 0]
  by (simp add: empty_trace_def first_state_def second_state_def blank_state_def upt_rec)

end
