(* ===== verification/ProviderPool.thy ===== *)
theory ProviderPool
  imports GoText
begin

text \<open>
  internal/rpc/provider_pool.go: the ordered pool of RPC endpoints with health tracking, retries and
  failover, and \<open>ClassifyFailureCause\<close> of failure_cause.go. Times and durations are integers
  (nanoseconds), the zero time is \<open>None\<close>; counters are unbounded. One call of \<open>Do\<close> runs alone: what
  it meets in its attempts (the result of the request for a URL, the parent context, the clock) is
  an environment, one record per attempt. An error is its text and what \<open>errors.Is\<close> says of it.
\<close>

section \<open>Errors and their causes\<close>

record go_error =
  err_text :: string
  is_canceled :: bool
  is_deadline :: bool

datatype cause = CauseNone | CauseTimeout | CauseConnectionRefused | CauseDNS | CauseUnreachable
  | CauseRateLimited | CauseServerError | CauseClientError | CauseContextCanceled | CauseEOF | CauseUnknown

definition isRetryableStatusCode :: "int \<Rightarrow> bool" where
  "isRetryableStatusCode code \<longleftrightarrow> code \<in> set [429, 408, 500, 502, 503, 504]"

definition isRetryableError :: "go_error option \<Rightarrow> bool" where
  "isRetryableError err = (case err of None \<Rightarrow> False | Some e \<Rightarrow>
     if is_canceled e then False
     else if is_deadline e then True
     else let msg = str_lower (err_text e) in
       str_contains msg ''connection refused'' \<or> str_contains msg ''connection reset'' \<or>
       str_contains msg ''no such host'' \<or> str_contains msg ''i/o timeout'' \<or>
       str_contains msg ''eof'' \<or> str_contains msg ''timeout'' \<or> str_contains msg ''temporary failure'')"

definition ClassifyFailureCause :: "go_error option \<Rightarrow> int \<Rightarrow> cause" where
  "ClassifyFailureCause err code = (case err of None \<Rightarrow> CauseNone | Some e \<Rightarrow>
     if is_canceled e then CauseContextCanceled
     else if is_deadline e then CauseTimeout
     else if code > 0 \<and> code = 429 then CauseRateLimited
     else if code > 0 \<and> code = 408 then CauseTimeout
     else if code > 0 \<and> code \<ge> 500 then CauseServerError
     else if code > 0 \<and> code \<ge> 400 then CauseClientError
     else let msg = str_lower (err_text e) in
       if str_contains msg ''connection refused'' then CauseConnectionRefused
       else if str_contains msg ''no such host'' \<or> str_contains msg ''dns'' \<or> str_contains msg ''lookup''
         then CauseDNS
       else if str_contains msg ''no route to host'' \<or> str_contains msg ''network unreachable'' \<or>
         str_contains msg ''network is unreachable'' then CauseUnreachable
       else if str_contains msg ''connection reset'' \<or> str_contains msg ''eof'' then CauseEOF
       else if str_contains msg ''i/o timeout'' \<or> str_contains msg ''timeout'' then CauseTimeout
       else CauseUnknown)"

section \<open>The pool\<close>

datatype provider_status = Healthy | Degraded | Down

fun status_string :: "provider_status \<Rightarrow> string" where
  "status_string Healthy = ''healthy''"
| "status_string Degraded = ''degraded''"
| "status_string Down = ''down''"

record provider_state =
  URL :: string
  Status :: provider_status
  ConsecutiveFailures :: int
  LastFailureAt :: "int option"
  LastSuccessAt :: "int option"
  TotalRequests :: int
  TotalFailures :: int

record pool_config =
  MaxRetries :: int
  RequestDeadline :: int
  InitialBackoff :: int
  MaxBackoff :: int
  DegradedThreshold :: int
  DownThreshold :: int
  RecoveryInterval :: int
  PinnedURL :: string

record pool =
  config :: pool_config
  states :: "provider_state list"

definition DefaultPoolConfig :: pool_config where
  "DefaultPoolConfig = \<lparr>MaxRetries = 3, RequestDeadline = 15000000000, InitialBackoff = 500000000,
     MaxBackoff = 10000000000, DegradedThreshold = 2, DownThreshold = 5,
     RecoveryInterval = 30000000000, PinnedURL = ''''\<rparr>"

definition or_default :: "int \<Rightarrow> int \<Rightarrow> int" where
  "or_default x d = (if x \<le> 0 then d else x)"

definition NewProviderPool :: "string list \<Rightarrow> pool_config \<Rightarrow> pool" where
  "NewProviderPool urls c =
     \<lparr>config = \<lparr>MaxRetries = or_default (MaxRetries c) 3, RequestDeadline = RequestDeadline c,
        InitialBackoff = or_default (InitialBackoff c) 500000000,
        MaxBackoff = or_default (MaxBackoff c) 10000000000,
        DegradedThreshold = or_default (DegradedThreshold c) 2,
        DownThreshold = or_default (DownThreshold c) 5,
        RecoveryInterval = or_default (RecoveryInterval c) 30000000000, PinnedURL = PinnedURL c\<rparr>,
      states = map (\<lambda>u. \<lparr>URL = u, Status = Healthy, ConsecutiveFailures = 0,
        LastFailureAt = None, LastSuccessAt = None, TotalRequests = 0, TotalFailures = 0\<rparr>) urls\<rparr>"

definition ProviderURLs :: "pool \<Rightarrow> string list" where
  "ProviderURLs p = map URL (states p)"

definition IsPinned :: "pool \<Rightarrow> bool" where
  "IsPinned p \<longleftrightarrow> PinnedURL (config p) \<noteq> ''''"

text \<open>A loop over the providers that changes the first with the URL and returns.\<close>

fun at_url :: "string \<Rightarrow> (provider_state \<Rightarrow> provider_state) \<Rightarrow> provider_state list \<Rightarrow> provider_state list" where
  "at_url u f [] = []"
| "at_url u f (s # ss) = (if URL s = u then f s # ss else s # at_url u f ss)"

definition succeeded :: "int \<Rightarrow> provider_state \<Rightarrow> provider_state" where
  "succeeded now s = s\<lparr>ConsecutiveFailures := 0, LastSuccessAt := Some now,
     TotalRequests := TotalRequests s + 1, Status := Healthy\<rparr>"

definition failed :: "pool_config \<Rightarrow> int \<Rightarrow> provider_state \<Rightarrow> provider_state" where
  "failed c now s =
     (let s = s\<lparr>ConsecutiveFailures := ConsecutiveFailures s + 1, LastFailureAt := Some now,
        TotalFailures := TotalFailures s + 1, TotalRequests := TotalRequests s + 1\<rparr>
      in if ConsecutiveFailures s \<ge> DownThreshold c then s\<lparr>Status := Down\<rparr>
         else if ConsecutiveFailures s \<ge> DegradedThreshold c then s\<lparr>Status := Degraded\<rparr>
         else s)"

definition RecordSuccess :: "int \<Rightarrow> string \<Rightarrow> pool \<Rightarrow> pool" where
  "RecordSuccess now url p = p\<lparr>states := at_url url (succeeded now) (states p)\<rparr>"

definition RecordFailure :: "int \<Rightarrow> string \<Rightarrow> pool \<Rightarrow> pool" where
  "RecordFailure now url p = p\<lparr>states := at_url url (failed (config p) now) (states p)\<rparr>"

text \<open>Healthy providers, then degraded ones, then those down for the recovery interval.\<close>

definition recovered :: "pool_config \<Rightarrow> int \<Rightarrow> provider_state \<Rightarrow> bool" where
  "recovered c now s = (case LastFailureAt s of None \<Rightarrow> False | Some t \<Rightarrow> now - t \<ge> RecoveryInterval c)"

definition orderedCandidates :: "int \<Rightarrow> pool \<Rightarrow> provider_state list" where
  "orderedCandidates now p =
     filter (\<lambda>s. Status s = Healthy) (states p) @
     filter (\<lambda>s. Status s = Degraded) (states p) @
     filter (\<lambda>s. Status s = Down \<and> recovered (config p) now s) (states p)"

section \<open>Requests\<close>

record attempt =
  a_URL :: string
  Retryable :: bool
  a_Err :: "go_error option"
  Latency :: int
  HTTPStatusCode :: int
  Cause :: cause

record diagnostics =
  Attempts :: "attempt list"
  SucceededURL :: string
  TotalDuration :: int

datatype pool_error = ContextError go_error | NonRetryable string int go_error
  | AllNodesFailed "(string \<times> go_error) list" | PinnedFailed string go_error

text \<open>
  The environment of an attempt: the error of the parent context, the result of the request to a URL,
  its latency, the clock when the attempt is recorded and when the candidates are looked up again,
  the context's error if it ends during the wait before the next attempt, and the time since the start.
\<close>

record attempt_env =
  ctx_err :: "go_error option"
  request :: "string \<Rightarrow> int \<times> go_error option"
  latency :: int
  record_now :: int
  wait_err :: "go_error option"
  candidates_now :: int
  elapsed :: int

record do_result =
  res_pool :: pool
  res_diag :: diagnostics
  res_err :: "pool_error option"
  res_waits :: "int list"

definition diag :: "attempt list \<Rightarrow> string \<Rightarrow> attempt_env \<Rightarrow> diagnostics" where
  "diag attempts succeededURL e = \<lparr>Attempts = attempts, SucceededURL = succeededURL, TotalDuration = elapsed e\<rparr>"

text \<open>The end of \<open>Do\<close>: \<open>AllNodesFailedError\<close> with the failed attempts.\<close>

definition all_failed :: "attempt list \<Rightarrow> pool_error" where
  "all_failed attempts = AllNodesFailed (concat (map (\<lambda>a. case a_Err a of None \<Rightarrow> [] | Some e \<Rightarrow> [(a_URL a, e)]) attempts))"

text \<open>One attempt at a URL: its record and the pool after it.\<close>

definition try_url :: "attempt_env \<Rightarrow> string \<Rightarrow> pool \<Rightarrow> attempt \<times> pool" where
  "try_url e url p =
     (let (code, err) = request e url;
          retryable = (err \<noteq> None \<and> (isRetryableError err \<or> (code > 0 \<and> isRetryableStatusCode code)));
          rec = \<lparr>a_URL = url, Retryable = retryable, a_Err = err, Latency = latency e,
            HTTPStatusCode = code, Cause = ClassifyFailureCause err code\<rparr>
      in (rec, if err = None then RecordSuccess (record_now e) url p else RecordFailure (record_now e) url p))"

text \<open>
  The loop; the first argument is \<open>attemptsLeft\<close>, \<open>i\<close> the attempt. The list of candidates is not
  empty when an attempt is made: the remainder by its length panics otherwise.
\<close>

fun do_loop ::
  "nat \<Rightarrow> (nat \<Rightarrow> attempt_env) \<Rightarrow> nat \<Rightarrow> int \<Rightarrow> provider_state list \<Rightarrow> attempt list \<Rightarrow> int list \<Rightarrow> pool
     \<Rightarrow> do_result may_panic" where
  "do_loop 0 env i backoff candidates attempts waits p =
     Ok \<lparr>res_pool = p, res_diag = diag attempts '''' (env i), res_err = Some (all_failed attempts), res_waits = waits\<rparr>"
| "do_loop (Suc attemptsLeft) env i backoff candidates attempts waits p =
     (if candidates = [] then Panic
      else let e = env i; url = URL (candidates ! (i mod length candidates)) in
      case ctx_err e of
        Some err \<Rightarrow> Ok \<lparr>res_pool = p, res_diag = diag attempts '''' e, res_err = Some (ContextError err), res_waits = waits\<rparr>
      | None \<Rightarrow>
        let (rec, p) = try_url e url p; attempts = attempts @ [rec] in
        case a_Err rec of
          None \<Rightarrow> Ok \<lparr>res_pool = p, res_diag = diag attempts url e, res_err = None, res_waits = waits\<rparr>
        | Some err \<Rightarrow>
          if \<not> Retryable rec then
            Ok \<lparr>res_pool = p, res_diag = diag attempts '''' e,
              res_err = Some (NonRetryable url (HTTPStatusCode rec) err), res_waits = waits\<rparr>
          else if attemptsLeft = 0 then
            Ok \<lparr>res_pool = p, res_diag = diag attempts '''' e, res_err = Some (all_failed attempts), res_waits = waits\<rparr>
          else case wait_err e of
            Some werr \<Rightarrow> Ok \<lparr>res_pool = p, res_diag = diag attempts '''' e,
              res_err = Some (ContextError werr), res_waits = waits @ [backoff]\<rparr>
          | None \<Rightarrow>
            let next = min (backoff * 2) (MaxBackoff (config p)); cands = orderedCandidates (candidates_now e) p in
            if cands = [] then
              Ok \<lparr>res_pool = p, res_diag = diag attempts '''' e, res_err = Some (all_failed attempts),
                res_waits = waits @ [backoff]\<rparr>
            else do_loop attemptsLeft env (i + 1) next cands attempts (waits @ [backoff]) p)"

definition doPinned :: "attempt_env \<Rightarrow> pool \<Rightarrow> do_result" where
  "doPinned e p =
     (let url = PinnedURL (config p); (code, err) = request e url;
          rec = \<lparr>a_URL = url, Retryable = False, a_Err = err, Latency = latency e,
            HTTPStatusCode = code, Cause = CauseNone\<rparr>
      in case err of
        Some er \<Rightarrow> \<lparr>res_pool = RecordFailure (record_now e) url p, res_diag = diag [rec] '''' e,
          res_err = Some (PinnedFailed url er), res_waits = []\<rparr>
      | None \<Rightarrow> \<lparr>res_pool = RecordSuccess (record_now e) url p, res_diag = diag [rec] url e,
          res_err = None, res_waits = []\<rparr>)"

definition Do :: "int \<Rightarrow> (nat \<Rightarrow> attempt_env) \<Rightarrow> pool \<Rightarrow> do_result may_panic" where
  "Do now env p =
     (if IsPinned p then Ok (doPinned (env 0) p)
      else let candidates = orderedCandidates now p in
        if length candidates = 0 then
          Ok \<lparr>res_pool = p, res_diag = \<lparr>Attempts = [], SucceededURL = '''', TotalDuration = 0\<rparr>,
            res_err = Some (AllNodesFailed []), res_waits = []\<rparr>
        else do_loop (nat (MaxRetries (config p))) env 0 (InitialBackoff (config p)) candidates [] [] p)"

text \<open>\<open>FormatDiagnostics\<close>: whole milliseconds, and a dash of three bytes.\<close>

definition millis :: "int \<Rightarrow> int" where
  "millis d = (if d \<ge> 0 then d div 1000000 else - ((- d) div 1000000))"

definition dash :: string where
  "dash = [CHR 0xE2, CHR 0x80, CHR 0x94]"

definition newline :: string where
  "newline = [CHR 0x0A]"

definition format_status :: "attempt \<Rightarrow> string" where
  "format_status a = (case a_Err a of
     Some _ \<Rightarrow> (if Retryable a then ''FAIL (retryable, '' @ fmt_int (millis (Latency a)) @ ''ms)''
         else ''FAIL (non-retryable, '' @ fmt_int (millis (Latency a)) @ ''ms)'') @
       (if HTTPStatusCode a > 0 then '', HTTP '' @ fmt_int (HTTPStatusCode a) else '''')
   | None \<Rightarrow> ''OK ('' @ fmt_int (millis (Latency a)) @ ''ms)'')"

fun format_attempts :: "nat \<Rightarrow> attempt list \<Rightarrow> string" where
  "format_attempts i [] = ''''"
| "format_attempts i (a # as) = ''  ['' @ fmt_nat (i + 1) @ ''] '' @ a_URL a @ '' '' @ dash @ '' '' @
     format_status a @ newline @ format_attempts (i + 1) as"

definition FormatDiagnostics :: "diagnostics \<Rightarrow> string" where
  "FormatDiagnostics d =
     (if length (Attempts d) = 0 then ''No provider attempts recorded.''
      else ''Provider failover summary ('' @ fmt_nat (length (Attempts d)) @ '' attempt(s), '' @
        fmt_int (millis (TotalDuration d)) @ ''ms total):'' @ newline @
        format_attempts 0 (Attempts d) @
        (if SucceededURL d \<noteq> '''' then ''  Succeeded via: '' @ SucceededURL d @ newline
         else ''  All providers failed.'' @ newline))"

section \<open>Health\<close>

text \<open>The abstract health of a provider: a function of its failures in a row.\<close>

definition status_of :: "pool_config \<Rightarrow> int \<Rightarrow> provider_status" where
  "status_of c n = (if n \<ge> DownThreshold c then Down else if n \<ge> DegradedThreshold c then Degraded else Healthy)"

definition provider_ok :: "pool_config \<Rightarrow> provider_state \<Rightarrow> bool" where
  "provider_ok c s \<longleftrightarrow> Status s = status_of c (ConsecutiveFailures s) \<and> 0 \<le> ConsecutiveFailures s \<and>
     ConsecutiveFailures s \<le> TotalFailures s \<and> TotalFailures s \<le> TotalRequests s"

definition pool_inv :: "pool \<Rightarrow> bool" where
  "pool_inv p \<longleftrightarrow> MaxRetries (config p) > 0 \<and> DegradedThreshold (config p) > 0 \<and> DownThreshold (config p) > 0 \<and>
     list_all (provider_ok (config p)) (states p)"

lemma at_url_all: "list_all P ss \<Longrightarrow> (\<And>s. P s \<Longrightarrow> P (f s)) \<Longrightarrow> list_all P (at_url u f ss)"
  by (induction ss) auto

lemma at_url_URLs: "(\<And>s. URL (f s) = URL s) \<Longrightarrow> map URL (at_url u f ss) = map URL ss"
  by (induction ss) auto

lemma succeeded_ok: "DegradedThreshold c > 0 \<Longrightarrow> DownThreshold c > 0 \<Longrightarrow> provider_ok c s \<Longrightarrow> provider_ok c (succeeded now s)"
  by (simp add: provider_ok_def succeeded_def status_of_def)

lemma failed_ok: "provider_ok c s \<Longrightarrow> provider_ok c (failed c now s)"
  by (auto simp: provider_ok_def failed_def status_of_def Let_def split: if_splits)

lemma record_fields [simp]:
  "config (RecordSuccess now u p) = config p" "config (RecordFailure now u p) = config p"
  "map URL (states (RecordSuccess now u p)) = map URL (states p)"
  "map URL (states (RecordFailure now u p)) = map URL (states p)"
  by (auto simp: RecordSuccess_def RecordFailure_def succeeded_def failed_def Let_def intro!: at_url_URLs)

lemma RecordSuccess_inv: "pool_inv p \<Longrightarrow> pool_inv (RecordSuccess now u p)"
  by (simp add: pool_inv_def) (auto simp: RecordSuccess_def intro!: at_url_all succeeded_ok)

lemma RecordFailure_inv: "pool_inv p \<Longrightarrow> pool_inv (RecordFailure now u p)"
  by (simp add: pool_inv_def) (auto simp: RecordFailure_def intro!: at_url_all failed_ok)

section \<open>One request\<close>

lemma candidates_URLs: "set (map URL (orderedCandidates now p)) \<subseteq> set (map URL (states p))"
  by (auto simp: orderedCandidates_def)

lemma try_url_facts:
  assumes "try_url e url p = (rec, p')"
  shows "a_URL rec = url" and "config p' = config p" and "map URL (states p') = map URL (states p)"
    and "pool_inv p \<Longrightarrow> pool_inv p'"
  using assms by (auto simp: try_url_def Let_def RecordSuccess_inv RecordFailure_inv split: prod.splits if_splits)

text \<open>What a run of the loop adds to the attempts and the waits it was given.\<close>

definition loop_ok :: "nat \<Rightarrow> int \<Rightarrow> attempt list \<Rightarrow> int list \<Rightarrow> pool \<Rightarrow> do_result \<Rightarrow> bool" where
  "loop_ok k b attempts waits p r \<longleftrightarrow> (\<exists>new ws. Attempts (res_diag r) = attempts @ new \<and> res_waits r = waits @ ws \<and>
     length new \<le> k \<and> length ws \<le> k - 1 \<and> list_all (\<lambda>w. w \<le> max b (MaxBackoff (config p))) ws \<and>
     set (map a_URL new) \<subseteq> set (map URL (states p)) \<and>
     list_all (\<lambda>a. Retryable a \<and> a_Err a \<noteq> None) (butlast new) \<and>
     (res_err r = None \<longleftrightarrow> new \<noteq> [] \<and> a_Err (last new) = None) \<and>
     SucceededURL (res_diag r) = (if res_err r = None then a_URL (last new) else '''') \<and>
     config (res_pool r) = config p \<and> map URL (states (res_pool r)) = map URL (states p) \<and>
     (pool_inv p \<longrightarrow> pool_inv (res_pool r)))"

lemma loop_ok_stop:
  "Attempts (res_diag r) = attempts \<Longrightarrow> res_waits r = waits \<Longrightarrow> res_err r \<noteq> None \<Longrightarrow> SucceededURL (res_diag r) = '''' \<Longrightarrow>
     res_pool r = p \<Longrightarrow> loop_ok k b attempts waits p r"
  unfolding loop_ok_def by (intro exI [of _ "[]"]) auto

lemma loop_ok_last:
  assumes "try_url e url p = (rec, p')" and "url \<in> set (map URL (states p))"
    and "Attempts (res_diag r) = attempts @ [rec]" and "res_waits r = waits @ ws" and "length ws \<le> k"
    and "list_all (\<lambda>w. w \<le> b) ws" and "res_err r = None \<longleftrightarrow> a_Err rec = None"
    and "SucceededURL (res_diag r) = (if a_Err rec = None then url else '''')" and "res_pool r = p'"
  shows "loop_ok (Suc k) b attempts waits p r"
proof -
  note F = try_url_facts [OF assms(1)]
  have "list_all (\<lambda>w. w \<le> max b (MaxBackoff (config p))) ws" using assms(6) by (auto simp: list_all_iff)
  with F assms show ?thesis
    unfolding loop_ok_def by (intro exI [of _ "[rec]"] exI [of _ ws]) auto
qed

lemma loop_ok_more:
  assumes t: "try_url e url p = (rec, p')" and u: "url \<in> set (map URL (states p))"
    and rec: "Retryable rec" "a_Err rec \<noteq> None" and k: "k > 0"
    and r: "loop_ok k (min (b * 2) (MaxBackoff (config p))) (attempts @ [rec]) (waits @ [b]) p' r"
  shows "loop_ok (Suc k) b attempts waits p r"
proof -
  note F = try_url_facts [OF t]
  from r obtain new ws where n: "Attempts (res_diag r) = (attempts @ [rec]) @ new" "res_waits r = (waits @ [b]) @ ws"
     "length new \<le> k" "length ws \<le> k - 1"
     "list_all (\<lambda>w. w \<le> max (min (b * 2) (MaxBackoff (config p))) (MaxBackoff (config p'))) ws"
     "set (map a_URL new) \<subseteq> set (map URL (states p'))"
     "list_all (\<lambda>a. Retryable a \<and> a_Err a \<noteq> None) (butlast new)"
     "res_err r = None \<longleftrightarrow> new \<noteq> [] \<and> a_Err (last new) = None"
     "SucceededURL (res_diag r) = (if res_err r = None then a_URL (last new) else '''')"
     "config (res_pool r) = config p'" "map URL (states (res_pool r)) = map URL (states p')"
     "pool_inv p' \<longrightarrow> pool_inv (res_pool r)"
    unfolding loop_ok_def by (elim exE conjE) (rule that)
  have "set (map a_URL new) \<subseteq> set (map URL (states p))" using n(6) unfolding F(3) .
  moreover have "list_all (\<lambda>w. w \<le> max b (MaxBackoff (config p))) (b # ws)"
    using n(5) F(2) by (auto simp: list_all_iff)
  moreover have "list_all (\<lambda>a. Retryable a \<and> a_Err a \<noteq> None) (butlast (rec # new))" using n(7) rec by simp
  ultimately show ?thesis
    using n F u rec k unfolding loop_ok_def
    by (intro exI [of _ "rec # new"] exI [of _ "b # ws"]) auto
qed

lemma do_loop_ok:
  "candidates \<noteq> [] \<Longrightarrow> set (map URL candidates) \<subseteq> set (map URL (states p)) \<Longrightarrow>
     \<exists>r. do_loop k env i b candidates attempts waits p = Ok r \<and> loop_ok k b attempts waits p r"
proof (induction k arbitrary: i b candidates attempts waits p)
  case 0
  show ?case by (auto simp: diag_def intro!: loop_ok_stop)
next
  case (Suc k)
  let ?e = "env i" and ?url = "URL (candidates ! (i mod length candidates))"
  obtain rec p' where t: "try_url ?e ?url p = (rec, p')" by (cases "try_url ?e ?url p")
  have "i mod length candidates < length candidates" using Suc.prems(1) by simp
  then have u: "?url \<in> set (map URL (states p))" using Suc.prems(2) by (auto simp: image_subset_iff)
  note F = try_url_facts [OF t]
  show ?case
  proof (cases "ctx_err ?e")
    case (Some err)
    with Suc.prems(1) show ?thesis by (auto simp: diag_def intro!: loop_ok_stop)
  next
    case ctx: None
    show ?thesis
    proof (cases "a_Err rec")
      case None
      with ctx t u Suc.prems(1) show ?thesis
        by (auto simp: diag_def intro!: loop_ok_last [OF t, where ws = "[]"])
    next
      case (Some err)
      let ?cands = "orderedCandidates (candidates_now ?e) p'"
      consider (stop) "\<not> Retryable rec \<or> k = 0"
        | (cancelled) werr where "Retryable rec" "k > 0" "wait_err ?e = Some werr"
        | (none) "Retryable rec" "k > 0" "wait_err ?e = None" "?cands = []"
        | (more) "Retryable rec" "k > 0" "wait_err ?e = None" "?cands \<noteq> []"
        by (cases "wait_err ?e") auto
      then show ?thesis
      proof cases
        case stop
        with ctx t u Some Suc.prems(1) show ?thesis
          by (cases "Retryable rec") (auto simp: diag_def Let_def intro!: loop_ok_last [OF t, where ws = "[]"])
      next
        case cancelled
        with ctx t u Some Suc.prems(1) show ?thesis
          by (auto simp: diag_def intro!: loop_ok_last [OF t, where ws = "[b]"])
      next
        case none
        with ctx t u Some Suc.prems(1) show ?thesis
          by (auto simp: diag_def Let_def intro!: loop_ok_last [OF t, where ws = "[b]"])
      next
        case more
        have "set (map URL ?cands) \<subseteq> set (map URL (states p'))" by (rule candidates_URLs)
        from Suc.IH [OF more(4) this, of "i + 1" "min (b * 2) (MaxBackoff (config p'))" "attempts @ [rec]" "waits @ [b]"]
        obtain r where r: "do_loop k env (i + 1) (min (b * 2) (MaxBackoff (config p'))) ?cands (attempts @ [rec]) (waits @ [b]) p' = Ok r"
          "loop_ok k (min (b * 2) (MaxBackoff (config p))) (attempts @ [rec]) (waits @ [b]) p' r"
          unfolding F(2) by blast
        have "do_loop (Suc k) env i b candidates attempts waits p = Ok r"
          using more ctx t Some Suc.prems(1) r(1) by (simp add: Let_def)
        with loop_ok_more [OF t u more(1) _ more(2) r(2)] Some show ?thesis by simp
      qed
    qed
  qed
qed

section \<open>A pool in use\<close>

inductive pool_step :: "pool \<Rightarrow> pool \<Rightarrow> bool" where
  success: "pool_step p (RecordSuccess now url p)"
| failure: "pool_step p (RecordFailure now url p)"
| request: "Do now env p = Ok r \<Longrightarrow> pool_step p (res_pool r)"

inductive_cases pool_stepE: "pool_step p p'"

definition pool_init :: "pool \<Rightarrow> bool" where
  "pool_init p \<longleftrightarrow> (\<exists>urls c. p = NewProviderPool urls c)"

lemma or_default_pos: "d > 0 \<Longrightarrow> or_default x d > 0"
  by (simp add: or_default_def)

lemma Do_Ok:
  assumes "\<not> IsPinned p"
  shows "\<exists>r. Do now env p = Ok r \<and>
    loop_ok (nat (MaxRetries (config p))) (InitialBackoff (config p)) [] [] p r"
proof (cases "orderedCandidates now p = []")
  case True
  then show ?thesis using assms by (auto simp: Do_def intro!: loop_ok_stop)
next
  case False
  from do_loop_ok [OF False candidates_URLs] show ?thesis using assms False by (auto simp: Do_def)
qed

lemma Do_pinned:
  assumes "IsPinned p"
  shows "\<exists>r a. Do now env p = Ok r \<and> Attempts (res_diag r) = [a] \<and> a_URL a = PinnedURL (config p) \<and>
    res_waits r = [] \<and> (res_err r = None \<longleftrightarrow> a_Err a = None) \<and>
    (res_pool r = RecordSuccess (record_now (env 0)) (PinnedURL (config p)) p \<or>
     res_pool r = RecordFailure (record_now (env 0)) (PinnedURL (config p)) p)"
  using assms by (auto simp: Do_def doPinned_def diag_def Let_def split: prod.split option.split)

interpretation pool: machine pool_init pool_step pool_inv
proof
  fix p assume "pool_init p"
  then obtain urls c where "p = NewProviderPool urls c" by (auto simp: pool_init_def)
  moreover have "0 < or_default (MaxRetries c) 3" "0 < or_default (DegradedThreshold c) 2"
    "0 < or_default (DownThreshold c) 5" by (simp_all add: or_default_pos)
  ultimately show "pool_inv p"
    by (simp add: NewProviderPool_def pool_inv_def list_all_iff provider_ok_def status_of_def)
next
  fix p p' assume inv: "pool_inv p" and "pool_step p p'"
  from this(2) show "pool_inv p'"
  proof (cases rule: pool_step.cases)
    case (success now url)
    with inv show ?thesis by (simp add: RecordSuccess_inv)
  next
    case (failure now url)
    with inv show ?thesis by (simp add: RecordFailure_inv)
  next
    case (request now env r)
    show ?thesis
    proof (cases "IsPinned p")
      case True
      with Do_pinned [OF True, of now env] request inv show ?thesis
        by (auto simp: RecordSuccess_inv RecordFailure_inv)
    next
      case False
      with Do_Ok [OF False, of now env] request inv show ?thesis by (auto simp: loop_ok_def)
    qed
  qed
qed

section \<open>The properties of the pool\<close>

text \<open>C16. In every reachable pool the status of each provider is the one its failures in a row give
  against the thresholds, and its failures in a row, failures and requests are ordered.\<close>

theorem provider_health:
  assumes "reachable pool_init pool_step p"
  shows "list_all (\<lambda>s. Status s = status_of (config p) (ConsecutiveFailures s) \<and> 0 \<le> ConsecutiveFailures s \<and>
    ConsecutiveFailures s \<le> TotalFailures s \<and> TotalFailures s \<le> TotalRequests s) (states p)"
  using pool.reachable_inv [OF assms] by (auto simp: pool_inv_def provider_ok_def list_all_iff)

definition pool_ab :: pool where
  "pool_ab = NewProviderPool [''a'', ''b''] (DefaultPoolConfig\<lparr>MaxRetries := 2\<rparr>)"

definition pool_a1 :: pool where
  "pool_a1 = RecordFailure 0 ''a'' pool_ab"

lemma pool_a1_reachable: "reachable pool_init pool_step pool_a1"
proof -
  have "reachable pool_init pool_step pool_ab"
    by (rule reachable.start) (auto simp: pool_init_def pool_ab_def)
  then show ?thesis unfolding pool_a1_def by (rule reachable.step) (rule pool_step.failure)
qed

lemma provider_health_witness:
  "list_all (\<lambda>s. Status s = status_of (config pool_a1) (ConsecutiveFailures s)) (states pool_a1) \<and>
   map ConsecutiveFailures (states pool_a1) = [1, 0]"
proof -
  have "map ConsecutiveFailures (states pool_a1) = [1, 0]" by code_simp
  with provider_health [OF pool_a1_reachable] show ?thesis by (simp add: list_all_iff)
qed

text \<open>C17. A request on a reachable pool that is not pinned returns, after at most MaxRetries
  attempts, all at URLs of the pool, with fewer waits than that, none above the larger of the
  two backoffs; all attempts but the last failed and were retryable, and the request succeeds
  exactly when its last attempt did.\<close>

theorem Do_bounded:
  assumes "reachable pool_init pool_step p" and "\<not> IsPinned p"
  shows "\<exists>r. Do now env p = Ok r \<and>
    int (length (Attempts (res_diag r))) \<le> MaxRetries (config p) \<and>
    set (map a_URL (Attempts (res_diag r))) \<subseteq> set (ProviderURLs p) \<and>
    list_all (\<lambda>a. Retryable a \<and> a_Err a \<noteq> None) (butlast (Attempts (res_diag r))) \<and>
    list_all (\<lambda>w. w \<le> max (InitialBackoff (config p)) (MaxBackoff (config p))) (res_waits r) \<and>
    int (length (res_waits r)) < MaxRetries (config p) \<and>
    (res_err r = None \<longleftrightarrow> Attempts (res_diag r) \<noteq> [] \<and> a_Err (last (Attempts (res_diag r))) = None)"
proof -
  have inv: "MaxRetries (config p) > 0" using pool.reachable_inv [OF assms(1)] by (simp add: pool_inv_def)
  from Do_Ok [OF assms(2), of now env] obtain r where r: "Do now env p = Ok r"
      "loop_ok (nat (MaxRetries (config p))) (InitialBackoff (config p)) [] [] p r" by blast
  with inv show ?thesis
    by (intro exI [of _ r]) (auto simp: loop_ok_def ProviderURLs_def)
qed

definition timeout_error :: go_error where
  "timeout_error = \<lparr>err_text = ''i/o timeout'', is_canceled = False, is_deadline = False\<rparr>"

text \<open>Requests to \<open>a\<close> time out, those to \<open>b\<close> succeed.\<close>

definition only_b :: "nat \<Rightarrow> attempt_env" where
  "only_b i = \<lparr>ctx_err = None, request = (\<lambda>u. if u = ''b'' then (200, None) else (0, Some timeout_error)),
     latency = 1000000, record_now = int i, wait_err = None, candidates_now = int i, elapsed = int i\<rparr>"

lemma Do_bounded_witness:
  "\<exists>r. Do 0 only_b pool_a1 = Ok r \<and> int (length (Attempts (res_diag r))) \<le> 2 \<and>
     set (map a_URL (Attempts (res_diag r))) \<subseteq> {''a'', ''b''}"
proof -
  have "\<not> IsPinned pool_a1" "MaxRetries (config pool_a1) = 2" "set (ProviderURLs pool_a1) = {''a'', ''b''}"
    by code_simp+
  with Do_bounded [OF pool_a1_reachable, of 0 only_b] show ?thesis by auto
qed

text \<open>A request on a pinned pool makes one attempt, at the pinned URL, without waiting, and
  changes no other provider.\<close>

theorem pinned_no_switch:
  assumes "IsPinned p"
  shows "\<exists>r a. Do now env p = Ok r \<and> Attempts (res_diag r) = [a] \<and> a_URL a = PinnedURL (config p) \<and>
    res_waits r = [] \<and> (res_err r = None \<longleftrightarrow> a_Err a = None) \<and>
    filter (\<lambda>s. URL s \<noteq> PinnedURL (config p)) (states (res_pool r)) =
      filter (\<lambda>s. URL s \<noteq> PinnedURL (config p)) (states p)"
proof -
  have other: "filter (\<lambda>s. URL s \<noteq> u) (at_url u f ss) = filter (\<lambda>s. URL s \<noteq> u) ss"
    if "\<And>s. URL (f s) = URL s" for u f ss
    using that by (induction ss) auto
  have rec: "filter (\<lambda>s. URL s \<noteq> u) (states (RecordSuccess t u p)) = filter (\<lambda>s. URL s \<noteq> u) (states p)"
    "filter (\<lambda>s. URL s \<noteq> u) (states (RecordFailure t u p)) = filter (\<lambda>s. URL s \<noteq> u) (states p)" for t u
    by (auto simp: RecordSuccess_def RecordFailure_def succeeded_def failed_def Let_def intro!: other)
  from Do_pinned [OF assms, of now env] show ?thesis using rec by metis
qed

definition pool_pinned :: pool where
  "pool_pinned = NewProviderPool [''a'', ''b''] (DefaultPoolConfig\<lparr>PinnedURL := ''a''\<rparr>)"

lemma pinned_no_switch_witness:
  "\<exists>r a. Do 0 only_b pool_pinned = Ok r \<and> Attempts (res_diag r) = [a] \<and> a_URL a = ''a''"
proof -
  have "IsPinned pool_pinned" "PinnedURL (config pool_pinned) = ''a''" by code_simp+
  with pinned_no_switch [OF this(1), of 0 only_b] show ?thesis by auto
qed

text \<open>
  Two healthy providers and two attempts: when the first provider has already failed once and fails
  again, the second attempt goes to it as well, and the request fails although the other provider
  would have answered. (On a fresh pool the second attempt goes to the other provider.)
\<close>

theorem healthy_provider_skipped:
  "(case Do 0 only_b pool_a1 of Ok r \<Rightarrow> Some (map a_URL (Attempts (res_diag r)), res_err r) | _ \<Rightarrow> None) =
     Some ([''a'', ''a''], Some (AllNodesFailed [(''a'', timeout_error), (''a'', timeout_error)])) \<and>
   map Status (states pool_a1) = [Healthy, Healthy]"
proof
  show "map Status (states pool_a1) = [Healthy, Healthy]" by code_simp
  show "(case Do 0 only_b pool_a1 of Ok r \<Rightarrow> Some (map a_URL (Attempts (res_diag r)), res_err r) | _ \<Rightarrow> None) =
     Some ([''a'', ''a''], Some (AllNodesFailed [(''a'', timeout_error), (''a'', timeout_error)]))"
    by code_simp
qed

definition unreachable_error :: go_error where
  "unreachable_error = \<lparr>err_text = ''connect: network is unreachable'', is_canceled = False, is_deadline = False\<rparr>"

theorem unreachable_not_retryable:
  "ClassifyFailureCause (Some unreachable_error) 0 = CauseUnreachable \<and>
   \<not> isRetryableError (Some unreachable_error)"
  by code_simp

end
