(* ===== verification/FailureReport.thy ===== *)
theory FailureReport
  imports ProviderPool "HOL-Library.Multiset"
begin

text \<open>
  internal/rpc/failure_cause.go: the summary of the attempts of a request, with the causes and the
  hints shown to the user, and its text. The hints are collected by a loop over a Go map, whose
  order is a parameter: a function that permutes the keys. Text is UTF-8: the dash, the rule and the
  bullet are written as their bytes. \<open>FormatAllNodesFailedText\<close> is left out: it prints durations.
\<close>

section \<open>Causes and hints\<close>

fun cause_string :: "cause \<Rightarrow> string" where
  "cause_string CauseNone = ''''"
| "cause_string CauseTimeout = ''timeout''"
| "cause_string CauseConnectionRefused = ''connection_refused''"
| "cause_string CauseDNS = ''dns_failure''"
| "cause_string CauseUnreachable = ''network_unreachable''"
| "cause_string CauseRateLimited = ''rate_limited''"
| "cause_string CauseServerError = ''server_error''"
| "cause_string CauseClientError = ''client_error''"
| "cause_string CauseContextCanceled = ''context_canceled''"
| "cause_string CauseEOF = ''connection_reset''"
| "cause_string CauseUnknown = ''unknown''"

definition FailureCauseRemediationHint :: "cause \<Rightarrow> string" where
  "FailureCauseRemediationHint c = (case c of
     CauseTimeout \<Rightarrow> ''The endpoint did not respond in time. Try a different endpoint with --rpc-url, or increase --rpc-timeout if supported.''
   | CauseConnectionRefused \<Rightarrow> ''The endpoint actively refused the connection. Verify the URL is correct and the RPC node is running.''
   | CauseDNS \<Rightarrow> ''The hostname could not be resolved. Check your network connection and confirm the endpoint URL is spelled correctly.''
   | CauseUnreachable \<Rightarrow> ''The network or host was unreachable. Check your internet connection, firewall rules, and VPN settings.''
   | CauseRateLimited \<Rightarrow> ''The RPC endpoint is rate-limiting your requests. Wait briefly before retrying, or switch to a different endpoint with --rpc-url.''
   | CauseServerError \<Rightarrow> ''The RPC server returned an internal error. The node may be overloaded or temporarily unavailable '' @ dash @ '' retry in a few moments.''
   | CauseClientError \<Rightarrow> ''The RPC server rejected the request (4xx). Check your authentication token (--rpc-token / GLASSBOX_RPC_TOKEN) and confirm the endpoint supports the requested method.''
   | CauseEOF \<Rightarrow> ''The connection was closed by the server before a response was received. The node may be restarting '' @ dash @ '' retry shortly.''
   | CauseContextCanceled \<Rightarrow> ''The request was cancelled before it completed. If this was not intentional, retry the command.''
   | _ \<Rightarrow> ''An unclassified network error occurred. Use --verbose for more detail, or run '' @ [CHR 0x27] @ ''glassbox doctor'' @ [CHR 0x27] @ '' for a full environment check.'')"

section \<open>The summary\<close>

record attempt_summary =
  s_URL :: string
  LatencyMs :: int
  s_Code :: int
  s_Cause :: cause
  s_Retryable :: bool
  Success :: bool

record rpc_summary =
  TotalAttempts :: nat
  TotalDurationMs :: int
  s_Attempts :: "attempt_summary list"
  SucceededVia :: string
  PrimaryFailedVia :: cause
  UsedFallback :: bool
  AllFailed :: bool
  RemediationHints :: "string list"

definition attempt_summary_of :: "attempt \<Rightarrow> attempt_summary" where
  "attempt_summary_of a = \<lparr>s_URL = a_URL a, LatencyMs = millis (Latency a), s_Code = HTTPStatusCode a,
     s_Cause = ClassifyFailureCause (a_Err a) (HTTPStatusCode a), s_Retryable = Retryable a,
     Success = (a_Err a = None)\<rparr>"

text \<open>The body of the loop at attempt \<open>i\<close>; \<open>seen\<close> holds the keys of \<open>seenCauses\<close>.\<close>

definition add_attempt :: "nat \<Rightarrow> attempt \<Rightarrow> rpc_summary \<times> cause list \<Rightarrow> rpc_summary \<times> cause list" where
  "add_attempt i a x = (case x of (s, seen) \<Rightarrow>
     let t = attempt_summary_of a; ok = Success t; c = s_Cause t in
     (s\<lparr>s_Attempts := s_Attempts s @ [t],
        PrimaryFailedVia := (if i = 0 \<and> \<not> ok then c else PrimaryFailedVia s),
        UsedFallback := (if i > 0 \<and> ok then True else UsedFallback s)\<rparr>,
      if \<not> ok \<and> c \<notin> set seen then seen @ [c] else seen))"

fun add_attempts :: "nat \<Rightarrow> attempt list \<Rightarrow> rpc_summary \<times> cause list \<Rightarrow> rpc_summary \<times> cause list" where
  "add_attempts i [] x = x"
| "add_attempts i (a # as) x = add_attempts (i + 1) as (add_attempt i a x)"

definition BuildRPCFailureSummary :: "(cause list \<Rightarrow> cause list) \<Rightarrow> diagnostics \<Rightarrow> rpc_summary" where
  "BuildRPCFailureSummary order d =
     (let (s, seen) = add_attempts 0 (Attempts d)
        (\<lparr>TotalAttempts = length (Attempts d), TotalDurationMs = millis (TotalDuration d), s_Attempts = [],
          SucceededVia = SucceededURL d, PrimaryFailedVia = CauseNone, UsedFallback = False,
          AllFailed = (SucceededURL d = ''''), RemediationHints = []\<rparr>, [])
      in s\<lparr>RemediationHints := filter (\<lambda>h. h \<noteq> '''') (map FailureCauseRemediationHint (order seen))\<rparr>)"

section \<open>Its text\<close>

definition rule_char :: string where
  "rule_char = [CHR 0xE2, CHR 0x94, CHR 0x80]"

definition bullet :: string where
  "bullet = [CHR 0xE2, CHR 0x80, CHR 0xA2]"

definition attempt_line :: "nat \<Rightarrow> attempt_summary \<Rightarrow> string" where
  "attempt_line i a =
     (let label = (if i > 0 then ''fallback #'' @ fmt_nat i else ''primary'') in
      if Success a then ''    ['' @ label @ ''] '' @ s_URL a @ '' '' @ dash @ '' OK ('' @ fmt_int (LatencyMs a) @ ''ms)'' @ newline
      else let status = (if s_Code a > 0 then '', HTTP '' @ fmt_int (s_Code a) else '''') in
        ''    ['' @ label @ ''] '' @ s_URL a @ '' '' @ dash @ '' FAILED: '' @ cause_string (s_Cause a) @ status @
        '' ('' @ fmt_int (LatencyMs a) @ ''ms)'' @ newline)"

fun attempt_lines :: "nat \<Rightarrow> attempt_summary list \<Rightarrow> string" where
  "attempt_lines i [] = ''''"
| "attempt_lines i (a # as) = attempt_line i a @ attempt_lines (i + 1) as"

definition FormatRPCFailureSummaryText :: "rpc_summary \<Rightarrow> string" where
  "FormatRPCFailureSummaryText s =
     ''RPC Diagnostic Report'' @ newline @ concat (replicate 21 rule_char) @ newline @
     ''  Attempts : '' @ fmt_nat (TotalAttempts s) @ ''  |  Duration: '' @ fmt_int (TotalDurationMs s) @ ''ms'' @ newline @
     (if SucceededVia s \<noteq> '''' then ''  Result   : succeeded via '' @ SucceededVia s @
        (if UsedFallback s then '' (fallback endpoint used)'' else '''') @ newline
      else ''  Result   : all endpoints failed'' @ newline) @
     (if length (s_Attempts s) > 0 then newline @ ''  Endpoint attempts:'' @ newline @ attempt_lines 0 (s_Attempts s)
      else '''') @
     (if length (RemediationHints s) > 0 then newline @ ''  Suggestions:'' @ newline @
        concat (map (\<lambda>h. ''    '' @ bullet @ '' '' @ h @ newline) (RemediationHints s))
      else '''')"

section \<open>What the summary says\<close>

definition failing_causes :: "attempt list \<Rightarrow> cause set" where
  "failing_causes as = {ClassifyFailureCause (a_Err a) (HTTPStatusCode a) | a. a \<in> set as \<and> a_Err a \<noteq> None}"

lemma failing_causes_simps [simp]:
  "failing_causes [] = {}"
  "failing_causes (a # as) = (if a_Err a = None then failing_causes as
     else insert (ClassifyFailureCause (a_Err a) (HTTPStatusCode a)) (failing_causes as))"
  by (auto simp: failing_causes_def)

lemma add_attempts_spec:
  "add_attempts i as (s, seen) = (s', seen') \<Longrightarrow>
     s_Attempts s' = s_Attempts s @ map attempt_summary_of as \<and>
     TotalAttempts s' = TotalAttempts s \<and> SucceededVia s' = SucceededVia s \<and> AllFailed s' = AllFailed s \<and>
     UsedFallback s' = (UsedFallback s \<or> list_ex (\<lambda>a. a_Err a = None) (drop (1 - i) as)) \<and>
     PrimaryFailedVia s' = (case as of a # _ \<Rightarrow>
        if i = 0 \<and> a_Err a \<noteq> None then ClassifyFailureCause (a_Err a) (HTTPStatusCode a) else PrimaryFailedVia s
      | [] \<Rightarrow> PrimaryFailedVia s) \<and>
     set seen' = set seen \<union> failing_causes as \<and> (distinct seen \<longrightarrow> distinct seen')"
proof (induction as arbitrary: i s seen)
  case Nil
  then show ?case by simp
next
  case (Cons a as)
  let ?c = "ClassifyFailureCause (a_Err a) (HTTPStatusCode a)"
  obtain t q where tq: "add_attempt i a (s, seen) = (t, q)" by (cases "add_attempt i a (s, seen)")
  with Cons.prems have "add_attempts (i + 1) as (t, q) = (s', seen')" by simp
  note IH = Cons.IH [OF this]
  have t: "s_Attempts t = s_Attempts s @ [attempt_summary_of a]" "TotalAttempts t = TotalAttempts s"
    "SucceededVia t = SucceededVia s" "AllFailed t = AllFailed s"
    "UsedFallback t = (UsedFallback s \<or> i > 0 \<and> a_Err a = None)"
    "PrimaryFailedVia t = (if i = 0 \<and> a_Err a \<noteq> None then ?c else PrimaryFailedVia s)"
    "q = (if a_Err a \<noteq> None \<and> ?c \<notin> set seen then seen @ [?c] else seen)"
    using tq unfolding add_attempt_def Let_def by (auto simp: attempt_summary_of_def split: if_splits)
  have "set q \<union> failing_causes as = set seen \<union> failing_causes (a # as)" "distinct seen \<longrightarrow> distinct q"
    using t(7) by auto
  moreover have "(UsedFallback t \<or> list_ex (\<lambda>a. a_Err a = None) (drop (1 - (i + 1)) as)) =
      (UsedFallback s \<or> list_ex (\<lambda>a. a_Err a = None) (drop (1 - i) (a # as)))"
    by (cases i) (auto simp: t(5))
  moreover have "PrimaryFailedVia s' = PrimaryFailedVia t" using IH by (simp split: list.splits)
  ultimately show ?case using IH t(1-4,6) by simp
qed

lemma ClassifyFailureCause_None: "ClassifyFailureCause e code = CauseNone \<longleftrightarrow> e = None"
  by (auto simp: ClassifyFailureCause_def Let_def split: option.splits if_splits)

lemma failing_causes_not_None: "CauseNone \<notin> failing_causes as"
  by (induction as) (auto simp: ClassifyFailureCause_None eq_commute [of CauseNone])

lemma hint_nonempty: "FailureCauseRemediationHint c \<noteq> ''''"
  by (cases c) (simp_all add: FailureCauseRemediationHint_def)

lemma hint_inj: "inj_on FailureCauseRemediationHint (UNIV - {CauseNone})"
proof (rule inj_onI)
  fix c d assume "c \<in> UNIV - {CauseNone}" "d \<in> UNIV - {CauseNone}"
    and "FailureCauseRemediationHint c = FailureCauseRemediationHint d"
  then show "c = d"
    by (cases c; cases d) (simp_all add: FailureCauseRemediationHint_def)
qed

lemma Build_spec:
  assumes perm: "\<And>cs. mset (order cs) = mset cs"
  shows "s_Attempts (BuildRPCFailureSummary order d) = map attempt_summary_of (Attempts d)"
    and "TotalAttempts (BuildRPCFailureSummary order d) = length (Attempts d)"
    and "SucceededVia (BuildRPCFailureSummary order d) = SucceededURL d"
    and "AllFailed (BuildRPCFailureSummary order d) = (SucceededURL d = '''')"
    and "UsedFallback (BuildRPCFailureSummary order d) = list_ex (\<lambda>a. a_Err a = None) (drop 1 (Attempts d))"
    and "set (RemediationHints (BuildRPCFailureSummary order d)) = FailureCauseRemediationHint ` failing_causes (Attempts d)"
    and "distinct (RemediationHints (BuildRPCFailureSummary order d))"
proof -
  let ?s = "\<lparr>TotalAttempts = length (Attempts d), TotalDurationMs = millis (TotalDuration d), s_Attempts = [],
          SucceededVia = SucceededURL d, PrimaryFailedVia = CauseNone, UsedFallback = False,
          AllFailed = (SucceededURL d = ''''), RemediationHints = []\<rparr>"
  obtain t q where tq: "add_attempts 0 (Attempts d) (?s, []) = (t, q)" by (cases "add_attempts 0 (Attempts d) (?s, [])")
  note A = add_attempts_spec [OF this]
  have B: "BuildRPCFailureSummary order d = t\<lparr>RemediationHints := map FailureCauseRemediationHint (order q)\<rparr>"
    using tq by (simp add: BuildRPCFailureSummary_def hint_nonempty)
  have q: "set (order q) = failing_causes (Attempts d)" "distinct (order q)"
    using A mset_eq_setD [OF perm, of q] perm [THEN mset_eq_imp_distinct_iff, of q] by auto
  from A B q(1) show "s_Attempts (BuildRPCFailureSummary order d) = map attempt_summary_of (Attempts d)"
    "TotalAttempts (BuildRPCFailureSummary order d) = length (Attempts d)"
    "SucceededVia (BuildRPCFailureSummary order d) = SucceededURL d"
    "AllFailed (BuildRPCFailureSummary order d) = (SucceededURL d = '''')"
    "UsedFallback (BuildRPCFailureSummary order d) = list_ex (\<lambda>a. a_Err a = None) (drop 1 (Attempts d))"
    "set (RemediationHints (BuildRPCFailureSummary order d)) = FailureCauseRemediationHint ` failing_causes (Attempts d)"
    by simp_all
  have "inj_on FailureCauseRemediationHint (set (order q))"
    by (rule inj_on_subset [OF hint_inj]) (auto simp: q(1) failing_causes_not_None)
  with B q(2) show "distinct (RemediationHints (BuildRPCFailureSummary order d))" by (simp add: distinct_map)
qed

text \<open>C18. The summary of a request on a pool that is not pinned and has no empty URL says that all
  failed exactly when the request returned an error, sets UsedFallback exactly when the request
  succeeded after more than one attempt (also when that was a retry of the primary provider),
  and holds one hint for each cause of failure, whatever the order of the map.\<close>

theorem failure_summary:
  assumes perm: "\<And>cs. mset (order cs) = mset cs" and p: "\<not> IsPinned p" "'''' \<notin> set (ProviderURLs p)"
    and r: "Do now env p = Ok r"
  shows "length (s_Attempts (BuildRPCFailureSummary order (res_diag r))) = TotalAttempts (BuildRPCFailureSummary order (res_diag r)) \<and>
    AllFailed (BuildRPCFailureSummary order (res_diag r)) = (res_err r \<noteq> None) \<and>
    UsedFallback (BuildRPCFailureSummary order (res_diag r)) =
      (res_err r = None \<and> TotalAttempts (BuildRPCFailureSummary order (res_diag r)) > 1) \<and>
    set (RemediationHints (BuildRPCFailureSummary order (res_diag r))) =
      FailureCauseRemediationHint ` failing_causes (Attempts (res_diag r)) \<and>
    distinct (RemediationHints (BuildRPCFailureSummary order (res_diag r)))"
proof -
  note B = Build_spec [of order, OF perm]
  from Do_Ok [OF p(1), of now env] r
  have l: "loop_ok (nat (MaxRetries (config p))) (InitialBackoff (config p)) [] [] p r" by simp
  then obtain new where n: "Attempts (res_diag r) = new" "set (map a_URL new) \<subseteq> set (map URL (states p))"
      "list_all (\<lambda>a. Retryable a \<and> a_Err a \<noteq> None) (butlast new)"
      "res_err r = None \<longleftrightarrow> new \<noteq> [] \<and> a_Err (last new) = None"
      "SucceededURL (res_diag r) = (if res_err r = None then a_URL (last new) else '''')"
    by (auto simp: loop_ok_def)
  have "a_URL (last new) \<noteq> ''''" if "new \<noteq> []"
  proof -
    have "a_URL (last new) \<in> set (map a_URL new)" using that by simp
    then show ?thesis using n(2) p(2) by (auto simp: ProviderURLs_def)
  qed
  then have all: "SucceededURL (res_diag r) = '''' \<longleftrightarrow> res_err r \<noteq> None" using n(4,5) by auto
  have fb: "list_ex (\<lambda>a. a_Err a = None) (drop 1 new) \<longleftrightarrow> res_err r = None \<and> length new > 1"
  proof (cases "length new > 1")
    case True
    then obtain a m z where new: "new = a # m @ [z]"
      by (cases new; cases "tl new" rule: rev_cases) auto
    have "\<not> list_ex (\<lambda>a. a_Err a = None) m" using n(3) by (auto simp: new butlast_append list_all_iff list_ex_iff)
    then show ?thesis using n(4) by (auto simp: new)
  qed (simp add: drop_all)
  show ?thesis using all fb n(1) by (simp add: B)
qed

definition pool_b :: pool where
  "pool_b = NewProviderPool [''b''] DefaultPoolConfig"

text \<open>The first request times out, the second succeeds.\<close>

definition second_ok :: "nat \<Rightarrow> attempt_env" where
  "second_ok i = (only_b i)\<lparr>request := (\<lambda>u. if i > 0 then (200, None) else (0, Some timeout_error))\<rparr>"

lemma failure_summary_witness:
  "\<exists>r. Do 0 second_ok pool_b = Ok r \<and> UsedFallback (BuildRPCFailureSummary rev (res_diag r)) = (res_err r = None) \<and>
     AllFailed (BuildRPCFailureSummary rev (res_diag r)) = (res_err r \<noteq> None)"
proof -
  have p: "\<not> IsPinned pool_b" "'''' \<notin> set (ProviderURLs pool_b)" by code_simp+
  obtain r where r: "Do 0 second_ok pool_b = Ok r" using Do_Ok [OF p(1)] by blast
  have "(case Do 0 second_ok pool_b of Ok r \<Rightarrow> TotalAttempts (BuildRPCFailureSummary rev (res_diag r)) > 1 | _ \<Rightarrow> False)"
    by code_simp
  with failure_summary [of rev, OF _ p r] r show ?thesis by simp
qed

text \<open>A single provider that succeeds on its second try is shown as the use of a fallback endpoint.\<close>

lemma retry_shown_as_fallback:
  "ProviderURLs pool_b = [''b''] \<and>
   (case Do 0 second_ok pool_b of
      Ok r \<Rightarrow> UsedFallback (BuildRPCFailureSummary id (res_diag r)) \<and>
        map (take 18) (map (attempt_line 1) (drop 1 (s_Attempts (BuildRPCFailureSummary id (res_diag r))))) = [''    [fallback #1] '']
    | _ \<Rightarrow> False)"
  by code_simp

end
