(* ===== verification/StderrBuffer.thy ===== *)
theory StderrBuffer
  imports GoText
begin

text \<open>
  internal/simulator/lifecycle.go, the buffer that captures the standard error of the simulator:
  every write is searched for sensitive words, which are replaced, and the buffer keeps the first
  \<open>limit\<close> bytes. Byte slices are strings.
\<close>

section \<open>Search and replacement\<close>

definition bytesEqual :: "string \<Rightarrow> string \<Rightarrow> bool" where
  "bytesEqual a b \<longleftrightarrow> length a = length b \<and> list_all (\<lambda>i. a ! i = b ! i) [0..<length a]"

text \<open>\<open>for i := 0; i <= len(s)-len(sep); i++\<close>: no round when \<open>sep\<close> is longer.\<close>

definition bytesIndex :: "string \<Rightarrow> string \<Rightarrow> nat option" where
  "bytesIndex s sep = find (\<lambda>i. bytesEqual (take (length sep) (drop i s)) sep) [0..<length s + 1 - length sep]"

lemma bytesEqual_eq [simp]: "bytesEqual a b \<longleftrightarrow> a = b"
  by (auto simp: bytesEqual_def list_all_iff intro: nth_equalityI)

lemma bytesIndex_bound: "bytesIndex s sep = Some i \<Longrightarrow> i + length sep \<le> length s"
  by (auto simp: bytesIndex_def find_Some_iff)

lemma bytesIndex_shrinks:
  "bytesIndex s sep = Some i \<Longrightarrow> sep \<noteq> [] \<Longrightarrow> length s - (i + length sep) < length s"
  by (drule bytesIndex_bound) (cases sep; simp)

function bytesReplaceAll :: "string \<Rightarrow> string \<Rightarrow> string \<Rightarrow> string" where
  "bytesReplaceAll s old new =
     (if length old = 0 then s
      else case bytesIndex s old of
        None \<Rightarrow> s
      | Some i \<Rightarrow> take i s @ new @ bytesReplaceAll (drop (i + length old) s) old new)"
  by pat_completeness auto
termination by (relation "measure (\<lambda>(s, _). length s)") (auto intro: bytesIndex_shrinks)

declare bytesReplaceAll.simps [simp del]

definition patterns :: "string list" where
  "patterns = [''secret'', ''password'', ''token'', ''api_key'', ''private_key'']"

definition mark :: string where
  "mark = ''[REDACTED]''"

definition redact :: "string \<Rightarrow> string" where
  "redact s = foldl (\<lambda>result pattern. bytesReplaceAll result pattern mark) s patterns"

section \<open>The buffer\<close>

record redacting_buffer =
  data :: string
  limit :: int

text \<open>\<open>make([]byte, 0, limit)\<close> panics for a negative limit.\<close>

definition newRedactingBuffer :: "int \<Rightarrow> redacting_buffer may_panic" where
  "newRedactingBuffer l = (if l < 0 then Panic else Ok \<lparr>data = [], limit = l\<rparr>)"

definition Write :: "string \<Rightarrow> redacting_buffer \<Rightarrow> redacting_buffer \<times> nat" where
  "Write p rb =
     (let redacted = redact p in
      if int (length (data rb) + length redacted) > limit rb then
        let remaining = limit rb - int (length (data rb)) in
        (if remaining > 0 then rb\<lparr>data := data rb @ take (nat remaining) redacted\<rparr> else rb, length p)
      else (rb\<lparr>data := data rb @ redacted\<rparr>, length p))"

section \<open>What replacement leaves\<close>

text \<open>A word cannot straddle a text with which it shares no character.\<close>

lemma sublist_middle:
  assumes "sublist p (xs @ ys @ zs)" and "p \<noteq> []" and "ys \<noteq> []" and "set ys \<inter> set p = {}"
  shows "sublist p xs \<or> sublist p zs"
proof -
  have no_overlap: "q = []" if "set q \<subseteq> set p" "set q \<subseteq> set ys" for q
    using that assms(4) by (cases q) auto
  have pre: "q = []" if "prefix q (ys @ zs)" "set q \<subseteq> set p" for q
    using that assms(3,4) by (cases q; cases ys) auto
  from assms(1) consider "sublist p xs" | "sublist p (ys @ zs)"
    | q r where "p = q @ r" "suffix q xs" "prefix r (ys @ zs)"
    unfolding sublist_append [of p xs] by blast
  then show ?thesis
  proof cases
    case 2
    then consider "sublist p ys" | "sublist p zs" | q r where "p = q @ r" "suffix q ys" "prefix r zs"
      unfolding sublist_append [of p ys] by blast
    then show ?thesis
    proof cases
      case 1
      with no_overlap [of p] assms(2) show ?thesis by (auto dest: set_mono_sublist)
    next
      case 3
      with no_overlap [of q] have "q = []" by (auto dest: set_mono_suffix)
      with 3 show ?thesis by auto
    qed auto
  next
    case 3
    with pre [of r] have "r = []" by auto
    with 3 show ?thesis by auto
  qed auto
qed

lemma bytesIndex_None: "bytesIndex s p = None \<longleftrightarrow> \<not> sublist p s"
proof
  assume n: "bytesIndex s p = None"
  show "\<not> sublist p s"
  proof
    assume "sublist p s"
    then obtain xs ys where s: "s = xs @ p @ ys" by (auto simp: sublist_def)
    then have "length xs < length s + 1 - length p" "take (length p) (drop (length xs) s) = p" by auto
    with n show False by (auto simp: bytesIndex_def find_None_iff)
  qed
next
  assume n: "\<not> sublist p s"
  have "take (length p) (drop i s) \<noteq> p" for i
    using n by (metis append_take_drop_id sublist_appendI)
  then show "bytesIndex s p = None" by (auto simp: bytesIndex_def find_None_iff)
qed

lemma bytesIndex_first:
  assumes "bytesIndex s p = Some i" and "p \<noteq> []"
  shows "\<not> sublist p (take i s)"
proof
  assume "sublist p (take i s)"
  then obtain xs ys where t: "take i s = xs @ p @ ys" by (auto simp: sublist_def)
  from assms(1) have i: "i + length p \<le> length s" by (rule bytesIndex_bound)
  then have "length (take i s) = i" by simp
  with t assms(2) have "length xs < i" by (cases p) auto
  have "s = xs @ p @ ys @ drop i s" using append_take_drop_id [of i s] t by simp
  then have "take (length p) (drop (length xs) s) = p" by (metis append_eq_conv_conj)
  moreover from assms(1) have "\<And>j. j < i \<Longrightarrow> take (length p) (drop j s) \<noteq> p"
    by (auto simp: bytesIndex_def find_Some_iff)
  ultimately show False using \<open>length xs < i\<close> by blast
qed

lemma bytesReplaceAll_removes:
  assumes "old \<noteq> []" and "new \<noteq> []" and "set new \<inter> set old = {}"
  shows "\<not> sublist old (bytesReplaceAll s old new)"
  using assms
proof (induction s old new rule: bytesReplaceAll.induct)
  case (1 s old new)
  show ?case
  proof (cases "bytesIndex s old")
    case None
    then have "\<not> sublist old s" unfolding bytesIndex_None .
    moreover have "bytesReplaceAll s old new = s" using None by (subst bytesReplaceAll.simps) simp
    ultimately show ?thesis by argo
  next
    case (Some i)
    with 1 have "\<not> sublist old (bytesReplaceAll (drop (i + length old) s) old new)" by simp
    with Some 1 sublist_middle [of old "take i s" new] bytesIndex_first show ?thesis
      by (auto simp: bytesReplaceAll.simps [of s])
  qed
qed

lemma bytesReplaceAll_keeps_out:
  assumes "p \<noteq> []" and "new \<noteq> []" and "set new \<inter> set p = {}" and "\<not> sublist p s"
  shows "\<not> sublist p (bytesReplaceAll s old new)"
  using assms
proof (induction s old new rule: bytesReplaceAll.induct)
  case (1 s old new)
  show ?case
  proof (cases "length old = 0 \<or> bytesIndex s old = None")
    case True
    with 1 show ?thesis by (auto simp: bytesReplaceAll.simps [of s])
  next
    case False
    then obtain i where i: "old \<noteq> []" "bytesIndex s old = Some i" by auto
    have "\<not> sublist p (drop (i + length old) s)" "\<not> sublist p (take i s)"
      using 1(5) by (meson sublist_drop sublist_take sublist_order.order_trans)+
    with 1 i sublist_middle [of p "take i s" new] show ?thesis
      by (auto simp: bytesReplaceAll.simps [of s])
  qed
qed

lemma foldl_replace_clean:
  assumes "w \<in> set ps" and "new \<noteq> []" and "\<And>p. p \<in> set ps \<Longrightarrow> p \<noteq> [] \<and> set new \<inter> set p = {}"
  shows "\<not> sublist w (foldl (\<lambda>r p. bytesReplaceAll r p new) s ps)"
  using assms(1,3)
proof (induction ps rule: rev_induct)
  case (snoc p ps)
  let ?s = "foldl (\<lambda>r p. bytesReplaceAll r p new) s ps"
  have w: "w \<noteq> []" "set new \<inter> set w = {}" using snoc.prems by blast+
  show ?case
  proof (cases "w = p")
    case True
    with bytesReplaceAll_removes [OF w(1) assms(2) w(2), of ?s] show ?thesis by simp
  next
    case False
    with snoc have "\<not> sublist w ?s" by auto
    from bytesReplaceAll_keeps_out [OF w(1) assms(2) w(2) this, of p] show ?thesis by simp
  qed
qed simp

lemma redact_clean: "w \<in> set patterns \<Longrightarrow> \<not> sublist w (redact s)"
  unfolding redact_def by (rule foldl_replace_clean) (auto simp: patterns_def mark_def)

fun write_all :: "string list \<Rightarrow> redacting_buffer \<Rightarrow> redacting_buffer \<times> nat list" where
  "write_all [] rb = (rb, [])"
| "write_all (p # ps) rb = (let (rb', n) = Write p rb; (rb'', ns) = write_all ps rb' in (rb'', n # ns))"

lemma take_take_append: "take m (take m xs @ ys) = take m (xs @ ys)"
  by (cases "m \<le> length xs") auto

lemma write_all_data:
  assumes "int (length (data rb)) \<le> limit rb"
  shows "data (fst (write_all ps rb)) = take (nat (limit rb)) (data rb @ concat (map redact ps)) \<and>
    snd (write_all ps rb) = map length ps"
  using assms
proof (induction ps arbitrary: rb)
  case Nil
  then show ?case by simp
next
  case (Cons p ps)
  obtain rb' n where w: "Write p rb = (rb', n)" by (cases "Write p rb")
  have "limit rb' = limit rb" "int (length (data rb')) \<le> limit rb" "n = length p"
    and d: "data rb' = take (nat (limit rb)) (data rb @ redact p)"
    using w Cons.prems by (auto simp: Write_def Let_def nat_diff_distrib split: if_splits)
  with Cons.IH [of rb'] w have "data (fst (write_all (p # ps) rb)) =
      take (nat (limit rb)) (take (nat (limit rb)) (data rb @ redact p) @ concat (map redact ps))"
    "snd (write_all (p # ps) rb) = map length (p # ps)"
    by (auto simp: split: prod.splits)
  then show ?case unfolding take_take_append by (simp only: append_assoc list.map concat.simps)
qed

text \<open>C21. A new buffer holds after any writes the first limit bytes of the redacted writes, each
  write reports its full length, and no redacted write contains a sensitive word.\<close>

theorem stderr_redacted:
  assumes "newRedactingBuffer l = Ok rb"
  shows "data (fst (write_all ps rb)) = take (nat l) (concat (map redact ps)) \<and>
    snd (write_all ps rb) = map length ps \<and>
    list_all (\<lambda>p. list_all (\<lambda>w. \<not> str_contains (redact p) w) patterns) ps"
proof -
  from assms have "rb = \<lparr>data = [], limit = l\<rparr>" "l \<ge> 0" by (auto simp: newRedactingBuffer_def split: if_splits)
  with write_all_data [of rb ps] show ?thesis
    by (simp add: list_all_iff str_contains_sublist redact_clean)
qed

lemma stderr_redacted_witness:
  "newRedactingBuffer 16 = Ok \<lparr>data = [], limit = 16\<rparr> \<and>
   data (fst (write_all [''my token'', ''secret!''] \<lparr>data = [], limit = 16\<rparr>)) = ''my [REDACTED][RE''"
proof -
  have n: "newRedactingBuffer 16 = Ok \<lparr>data = [], limit = 16\<rparr>" by (simp add: newRedactingBuffer_def)
  have "take (nat 16) (concat (map redact [''my token'', ''secret!''])) = ''my [REDACTED][RE''" by code_simp
  with n stderr_redacted [OF n, of "[''my token'', ''secret!'']"] show ?thesis by simp
qed

text \<open>A word that arrives in two writes is not found.\<close>

lemma split_secret_kept: "concat (map redact [''sec'', ''ret'']) = ''secret''"
  by code_simp

end
