(* ===== verification/Lifecycle.thy ===== *)
theory Lifecycle
  imports StderrBuffer
begin

text \<open>
  internal/simulator/lifecycle.go: the life of a simulator process, and the use runner.go makes of
  it. A method that holds the mutex throughout is one function; \<open>WaitForReady\<close>, \<open>Wait\<close> and
  \<open>Terminate\<close> release it while they wait and are a check and a finish, with what they met in between
  as an argument; the method composes them. The operating system is in the arguments: whether the
  process starts and with which PID, how it ends, whether it can be killed, the clock, what the
  removal of a file returns. An error is a value that keeps what the text of the error is made of.
\<close>

section \<open>States\<close>

datatype process_state = NotStarted | Starting | ReadyState | Running | Terminating | Terminated | Failed

fun state_code :: "process_state \<Rightarrow> int" where
  "state_code NotStarted = 0"
| "state_code Starting = 1"
| "state_code ReadyState = 2"
| "state_code Running = 3"
| "state_code Terminating = 4"
| "state_code Terminated = 5"
| "state_code Failed = 6"

fun state_string :: "process_state \<Rightarrow> string" where
  "state_string NotStarted = ''NotStarted''"
| "state_string Starting = ''Starting''"
| "state_string ReadyState = ''Ready''"
| "state_string Running = ''Running''"
| "state_string Terminating = ''Terminating''"
| "state_string Terminated = ''Terminated''"
| "state_string Failed = ''Failed''"

lemma state_code_inj [simp]: "state_code s = state_code t \<longleftrightarrow> s = t"
  by (cases s; cases t) simp_all

text \<open>The states in the order of their constants.\<close>

instantiation process_state :: linorder
begin

definition less_eq_process_state :: "process_state \<Rightarrow> process_state \<Rightarrow> bool" where
  "less_eq_process_state s t \<longleftrightarrow> state_code s \<le> state_code t"

definition less_process_state :: "process_state \<Rightarrow> process_state \<Rightarrow> bool" where
  "less_process_state s t \<longleftrightarrow> state_code s < state_code t"

instance
  by standard (auto simp: less_eq_process_state_def less_process_state_def)

end

section \<open>The process and its manager\<close>

text \<open>How a process ends, as \<open>syscall.WaitStatus\<close>: \<open>ExitStatus\<close> is -1 for one that was signalled.\<close>

datatype wait_status = Exited int | Signaled int

fun ExitStatus :: "wait_status \<Rightarrow> int" where
  "ExitStatus (Exited code) = code"
| "ExitStatus (Signaled signal) = - 1"

datatype wait_result = WaitOk | WaitExit wait_status | WaitError string

datatype ready_result = ReadyTimeout | ReadyError string | IsReady | ReadyCancelled string

datatype lc_error = InvalidTransition process_state process_state | InvalidForWait process_state
  | InvalidForTerminate process_state | ProcessNotStarted | StartFailed string
  | ReadinessTimedOut int | ReadinessFailed string | ContextEnded string
  | ProcessExited wait_status | WaitFailed string

text \<open>
  The fields of \<open>exec.Cmd\<close> the code reads: the streams, with whether they have a \<open>Close\<close> method,
  and the process, with its PID.
\<close>

record command =
  Stdin :: "bool option"
  Stdout :: "bool option"
  Stderr :: "bool option"
  Process :: "int option"

record process_config =
  cfg_BinaryPath :: string
  cfg_TempDir :: string
  cfg_Timeout :: int
  MaxStderrSize :: int

record lifecycle =
  binaryPath :: string
  tempDir :: string
  timeout :: int
  pl_state :: process_state
  cmd :: "command option"
  startTime :: "int option"
  exitCode :: int
  exitError :: "lc_error option"
  stderrBuffer :: redacting_buffer
  tempFiles :: "string list"
  stateAtomic :: int
  closed :: bool

record cleanup_result =
  ProcessKilled :: bool
  ChildrenKilled :: nat
  TempFilesRemoved :: "string list"
  PipesClosed :: nat
  Errors :: "string list"

definition NewProcessLifecycle :: "process_config \<Rightarrow> lifecycle may_panic" where
  "NewProcessLifecycle c =
     (let size = (if MaxStderrSize c = 0 then 1 * 1024 * 1024 else MaxStderrSize c);
          t = (if cfg_Timeout c = 0 then 30000000000 else cfg_Timeout c)
      in obind (newRedactingBuffer size) (\<lambda>buf.
        Ok \<lparr>binaryPath = cfg_BinaryPath c, tempDir = cfg_TempDir c, timeout = t, pl_state = NotStarted,
          cmd = None, startTime = None, exitCode = 0, exitError = None, stderrBuffer = buf,
          tempFiles = [], stateAtomic = 0, closed = False\<rparr>))"

definition setState :: "process_state \<Rightarrow> lifecycle \<Rightarrow> lifecycle" where
  "setState s pl = pl\<lparr>pl_state := s, stateAtomic := state_code s\<rparr>"

definition fail_with :: "lc_error \<Rightarrow> lifecycle \<Rightarrow> lifecycle" where
  "fail_with e pl = (setState Failed pl)\<lparr>exitError := Some e\<rparr>"

section \<open>Operations\<close>

text \<open>\<open>started\<close> is the PID, or the error of \<open>cmd.Start\<close>; the buffer has no \<open>Close\<close> method.\<close>

definition Start :: "(command \<Rightarrow> command) \<Rightarrow> int \<Rightarrow> string + int \<Rightarrow> lifecycle \<Rightarrow> lifecycle \<times> lc_error option" where
  "Start setupCmd now started pl =
     (if pl_state pl \<noteq> NotStarted then (pl, Some (InvalidTransition (pl_state pl) Starting))
      else
        let c = (setupCmd \<lparr>Stdin = None, Stdout = None, Stderr = None, Process = None\<rparr>)\<lparr>Stderr := Some False\<rparr>;
            pl = setState Starting (pl\<lparr>cmd := Some c, startTime := Some now\<rparr>)
        in case started of
          Inl err \<Rightarrow> (fail_with (StartFailed err) pl, Some (StartFailed err))
        | Inr pid \<Rightarrow>
            let pl = pl\<lparr>cmd := Some (c\<lparr>Process := Some pid\<rparr>)\<rparr> in
            (if tempDir pl \<noteq> '''' then pl\<lparr>tempFiles := tempFiles pl @ [tempDir pl]\<rparr> else pl, None))"

definition MarkRunning :: "lifecycle \<Rightarrow> lifecycle \<times> lc_error option" where
  "MarkRunning pl =
     (if pl_state pl \<noteq> ReadyState then (pl, Some (InvalidTransition (pl_state pl) Running))
      else (setState Running pl, None))"

definition has_process :: "lifecycle \<Rightarrow> bool" where
  "has_process pl \<longleftrightarrow> (case cmd pl of None \<Rightarrow> False | Some c \<Rightarrow> Process c \<noteq> None)"

definition closes :: "bool option \<Rightarrow> nat" where
  "closes s = (if s = Some True then 1 else 0)"

definition remove_error :: "string \<Rightarrow> string \<Rightarrow> string" where
  "remove_error f e = ''failed to remove temp file '' @ f @ '': '' @ e"

text \<open>\<open>killed\<close> and \<open>exits\<close>: whether the kill succeeds and the process is gone within five seconds.\<close>

definition Cleanup :: "bool \<Rightarrow> bool \<Rightarrow> (string \<Rightarrow> string option) \<Rightarrow> lifecycle \<Rightarrow> lifecycle \<times> cleanup_result" where
  "Cleanup killed exits rm pl =
     (if closed pl then (pl, \<lparr>ProcessKilled = False, ChildrenKilled = 0, TempFilesRemoved = [], PipesClosed = 0, Errors = []\<rparr>)
      else
        let live = (has_process pl \<and> pl_state pl \<in> {Running, ReadyState, Starting}) in
        (pl\<lparr>closed := True\<rparr>,
         \<lparr>ProcessKilled = live \<and> killed, ChildrenKilled = 0,
          TempFilesRemoved = filter (\<lambda>f. rm f = None) (tempFiles pl),
          PipesClosed = (case cmd pl of None \<Rightarrow> 0 | Some c \<Rightarrow> closes (Stdin c) + closes (Stdout c) + closes (Stderr c)),
          Errors = (if live \<and> \<not> exits then [''process did not exit within 5 seconds after kill''] else []) @
            concat (map (\<lambda>f. case rm f of None \<Rightarrow> [] | Some e \<Rightarrow> [remove_error f e]) (tempFiles pl))\<rparr>))"

definition ready_check :: "lifecycle \<Rightarrow> lc_error option" where
  "ready_check pl = (if pl_state pl \<noteq> Starting then Some (InvalidTransition (pl_state pl) ReadyState) else None)"

definition ready_finish :: "ready_result \<Rightarrow> lifecycle \<Rightarrow> lifecycle" where
  "ready_finish r pl = (case r of
     ReadyTimeout \<Rightarrow> fail_with (ReadinessTimedOut (timeout pl)) pl
   | ReadyError e \<Rightarrow> fail_with (ReadinessFailed e) pl
   | ReadyCancelled e \<Rightarrow> fail_with (ContextEnded e) pl
   | IsReady \<Rightarrow> setState ReadyState pl)"

definition WaitForReady ::
  "ready_result \<Rightarrow> bool \<Rightarrow> bool \<Rightarrow> (string \<Rightarrow> string option) \<Rightarrow> lifecycle \<Rightarrow> lifecycle \<times> lc_error option" where
  "WaitForReady r killed exits rm pl = (case ready_check pl of
     Some e \<Rightarrow> (pl, Some e)
   | None \<Rightarrow>
       let pl = ready_finish r pl in
       if r = IsReady then (pl, None)
       else let pl = fst (Cleanup killed exits rm pl) in (pl, exitError pl))"

definition wait_check :: "lifecycle \<Rightarrow> lc_error option" where
  "wait_check pl =
     (if pl_state pl \<noteq> Running \<and> pl_state pl \<noteq> Terminating then Some (InvalidForWait (pl_state pl))
      else if \<not> has_process pl then Some ProcessNotStarted
      else None)"

definition wait_finish :: "wait_result \<Rightarrow> lifecycle \<Rightarrow> lifecycle" where
  "wait_finish r pl = (case r of
     WaitOk \<Rightarrow> (setState Terminated pl)\<lparr>exitCode := 0\<rparr>
   | WaitExit st \<Rightarrow> (fail_with (ProcessExited st) pl)\<lparr>exitCode := ExitStatus st\<rparr>
   | WaitError e \<Rightarrow> fail_with (WaitFailed e) pl)"

definition Wait :: "wait_result \<Rightarrow> lifecycle \<Rightarrow> lifecycle \<times> lc_error option" where
  "Wait r pl = (case wait_check pl of
     Some e \<Rightarrow> (pl, Some e)
   | None \<Rightarrow> let pl = wait_finish r pl in (pl, exitError pl))"

definition terminate_check :: "lifecycle \<Rightarrow> lc_error option" where
  "terminate_check pl =
     (if pl_state pl \<noteq> Running \<and> pl_state pl \<noteq> ReadyState \<and> pl_state pl \<noteq> Starting
      then Some (InvalidForTerminate (pl_state pl)) else None)"

definition terminate_finish :: "bool \<Rightarrow> lifecycle \<Rightarrow> lifecycle" where
  "terminate_finish exits pl = setState (if exits then Terminated else Failed) pl"

definition Terminate :: "bool \<Rightarrow> lifecycle \<Rightarrow> lifecycle \<times> lc_error option" where
  "Terminate exits pl = (case terminate_check pl of
     Some e \<Rightarrow> (pl, Some e)
   | None \<Rightarrow>
       let pl = setState Terminating pl in
       if \<not> has_process pl then (pl, None) else (terminate_finish exits pl, None))"

definition GetState :: "lifecycle \<Rightarrow> int" where
  "GetState pl = stateAtomic pl"

definition GetPID :: "lifecycle \<Rightarrow> int" where
  "GetPID pl = (case cmd pl of None \<Rightarrow> 0 | Some c \<Rightarrow> (case Process c of None \<Rightarrow> 0 | Some pid \<Rightarrow> pid))"

definition GetUptime :: "int \<Rightarrow> lifecycle \<Rightarrow> int" where
  "GetUptime now pl = (case startTime pl of None \<Rightarrow> 0 | Some t \<Rightarrow> now - t)"

section \<open>Exit codes\<close>

datatype sim_code = CodeSimulatorError | CodeValidationFailed | CodeSimulatorNotFound | CodeSimulatorCrashed

datatype exit_error = Canceled | SimError sim_code string | PlainError string

definition truncateStderr :: "string \<Rightarrow> string" where
  "truncateStderr stderr = (if length stderr \<le> 500 then stderr else take 500 stderr @ ''...'')"

definition translateUnixExitCode :: "int \<Rightarrow> string \<Rightarrow> exit_error option" where
  "translateUnixExitCode code stderr =
     (if code = 0 then None
      else if code = 1 then Some (SimError CodeSimulatorError (''simulator execution failed: '' @ truncateStderr stderr))
      else if code = 2 then Some (SimError CodeValidationFailed (''invalid input or configuration: '' @ truncateStderr stderr))
      else if code = 127 then Some (SimError CodeSimulatorNotFound ''simulator binary not found or not executable'')
      else if code = 130 then Some Canceled
      else if code = 137 then Some (SimError CodeSimulatorCrashed ''simulator was forcefully terminated (SIGKILL)'')
      else if code = 143 then Some Canceled
      else if code > 128 then Some (SimError CodeSimulatorCrashed
        (''simulator terminated by signal '' @ fmt_int (code - 128) @ '': '' @ truncateStderr stderr))
      else Some (SimError CodeSimulatorError
        (''simulator exited with code '' @ fmt_int code @ '': '' @ truncateStderr stderr)))"

definition translateWindowsExitCode :: "int \<Rightarrow> string \<Rightarrow> exit_error option" where
  "translateWindowsExitCode code stderr =
     (if code = 0 then None
      else if code = 1 then Some (SimError CodeSimulatorError (''simulator execution failed: '' @ truncateStderr stderr))
      else if code = 2 then Some (SimError CodeValidationFailed (''invalid input or configuration: '' @ truncateStderr stderr))
      else Some (SimError CodeSimulatorError
        (''simulator exited with code '' @ fmt_int code @ '': '' @ truncateStderr stderr)))"

definition TranslateExitCode :: "string \<Rightarrow> lifecycle \<Rightarrow> exit_error option" where
  "TranslateExitCode goos pl =
     (let code = exitCode pl; stderr = data (stderrBuffer pl) in
      if goos = ''linux'' \<or> goos = ''darwin'' then translateUnixExitCode code stderr
      else if goos = ''windows'' then translateWindowsExitCode code stderr
      else Some (PlainError (''simulator exited with code '' @ fmt_int code @ '': '' @ stderr)))"

section \<open>The use in Runner.Run\<close>

text \<open>
  What meets the manager during a run of the simulator: the clock and the start of the process, how
  it ends, the error of the context after that, and the clean up when the function returns.
\<close>

record run_env =
  env_now :: int
  env_started :: "string + int"
  env_wait :: wait_result
  env_ctx :: "string option"
  env_killed :: bool
  env_exits :: bool
  env_remove :: "string \<Rightarrow> string option"

datatype run_error = StartCrash lc_error | BadTransition lc_error | RunCancelled string
  | Translated "exit_error option"

definition runner_config :: "string \<Rightarrow> process_config" where
  "runner_config path = \<lparr>cfg_BinaryPath = path, cfg_TempDir = '''', cfg_Timeout = 30000000000,
     MaxStderrSize = 1 * 1024 * 1024\<rparr>"

text \<open>From the manager to the end of the process: the error it returns, none if the output is read.\<close>

definition run_with :: "string \<Rightarrow> run_env \<Rightarrow> lifecycle \<Rightarrow> lifecycle \<times> run_error option" where
  "run_with goos env pl =
     (let (pl, err) = Start (\<lambda>c. c\<lparr>Stdin := Some False, Stdout := Some False\<rparr>) (env_now env) (env_started env) pl in
      case err of Some e \<Rightarrow> (pl, Some (StartCrash e))
      | None \<Rightarrow> let (pl, err) = MarkRunning pl in
        case err of Some e \<Rightarrow> (fst (Cleanup (env_killed env) (env_exits env) (env_remove env) pl), Some (BadTransition e))
        | None \<Rightarrow> let (pl, err) = Wait (env_wait env) pl in
          case err of Some e \<Rightarrow> (pl, Some (case env_ctx env of
              Some c \<Rightarrow> RunCancelled c | None \<Rightarrow> Translated (TranslateExitCode goos pl)))
          | None \<Rightarrow> (pl, None))"

definition run_process :: "string \<Rightarrow> run_env \<Rightarrow> string \<Rightarrow> (lifecycle \<times> run_error option) may_panic" where
  "run_process goos env path =
     obind (NewProcessLifecycle (runner_config path)) (\<lambda>pl.
       let (pl, err) = run_with goos env pl in
       Ok (fst (Cleanup (env_killed env) (env_exits env) (env_remove env) pl), err))"

section \<open>Operations one after another\<close>

inductive lc_step :: "lifecycle \<Rightarrow> lifecycle \<Rightarrow> bool" where
  start: "lc_step pl (fst (Start setupCmd now started pl))"
| ready: "lc_step pl (fst (WaitForReady r killed exits rm pl))"
| running: "lc_step pl (fst (MarkRunning pl))"
| wait: "lc_step pl (fst (Wait r pl))"
| terminate: "lc_step pl (fst (Terminate exits pl))"
| cleanup: "lc_step pl (fst (Cleanup killed exits rm pl))"

definition lc_init :: "lifecycle \<Rightarrow> bool" where
  "lc_init pl \<longleftrightarrow> (\<exists>c. NewProcessLifecycle c = Ok pl)"

definition lc_inv :: "lifecycle \<Rightarrow> bool" where
  "lc_inv pl \<longleftrightarrow> stateAtomic pl = state_code (pl_state pl) \<and>
     (pl_state pl \<notin> {NotStarted, Failed} \<longrightarrow> has_process pl) \<and>
     (pl_state pl = NotStarted \<longrightarrow> cmd pl = None \<and> tempFiles pl = []) \<and>
     (exitError pl \<noteq> None \<or> exitCode pl \<noteq> 0 \<longrightarrow> pl_state pl = Failed) \<and>
     set (tempFiles pl) \<subseteq> {tempDir pl}"

lemma setState_fields [simp]:
  "pl_state (setState s pl) = s" "stateAtomic (setState s pl) = state_code s" "cmd (setState s pl) = cmd pl"
  "exitError (setState s pl) = exitError pl" "exitCode (setState s pl) = exitCode pl"
  "tempFiles (setState s pl) = tempFiles pl" "tempDir (setState s pl) = tempDir pl"
  "stderrBuffer (setState s pl) = stderrBuffer pl" "has_process (setState s pl) = has_process pl"
  by (simp_all add: setState_def has_process_def)

lemma fail_with_fields [simp]:
  "pl_state (fail_with e pl) = Failed" "stateAtomic (fail_with e pl) = state_code Failed" "cmd (fail_with e pl) = cmd pl"
  "exitError (fail_with e pl) = Some e" "exitCode (fail_with e pl) = exitCode pl"
  "tempFiles (fail_with e pl) = tempFiles pl" "tempDir (fail_with e pl) = tempDir pl"
  "stderrBuffer (fail_with e pl) = stderrBuffer pl" "has_process (fail_with e pl) = has_process pl"
  by (simp_all add: fail_with_def has_process_def)

lemma Cleanup_fields [simp]:
  "pl_state (fst (Cleanup k e rm pl)) = pl_state pl" "stateAtomic (fst (Cleanup k e rm pl)) = stateAtomic pl"
  "cmd (fst (Cleanup k e rm pl)) = cmd pl" "exitError (fst (Cleanup k e rm pl)) = exitError pl"
  "exitCode (fst (Cleanup k e rm pl)) = exitCode pl" "tempFiles (fst (Cleanup k e rm pl)) = tempFiles pl"
  "tempDir (fst (Cleanup k e rm pl)) = tempDir pl" "stderrBuffer (fst (Cleanup k e rm pl)) = stderrBuffer pl"
  "has_process (fst (Cleanup k e rm pl)) = has_process pl"
  by (simp_all add: Cleanup_def has_process_def Let_def)

lemmas lc_operations = Start_def WaitForReady_def ready_check_def ready_finish_def MarkRunning_def
  Wait_def wait_check_def wait_finish_def Terminate_def terminate_check_def terminate_finish_def Let_def

lemma Start_inv: "lc_inv pl \<Longrightarrow> lc_inv (fst (Start f now st pl))"
  by (auto simp: lc_inv_def Start_def Let_def has_process_def split: sum.split)

lemma WaitForReady_inv: "lc_inv pl \<Longrightarrow> lc_inv (fst (WaitForReady r k e rm pl))"
  by (auto simp: lc_inv_def WaitForReady_def ready_check_def ready_finish_def Let_def split: ready_result.split)

lemma Wait_inv: "lc_inv pl \<Longrightarrow> lc_inv (fst (Wait r pl))"
  by (auto simp: lc_inv_def Wait_def wait_check_def wait_finish_def has_process_def Let_def split: wait_result.split)

lemma Terminate_inv: "lc_inv pl \<Longrightarrow> lc_inv (fst (Terminate e pl))"
  by (auto simp: lc_inv_def Terminate_def terminate_check_def terminate_finish_def Let_def)

lemma MarkRunning_inv: "lc_inv pl \<Longrightarrow> lc_inv (fst (MarkRunning pl))"
  by (auto simp: lc_inv_def MarkRunning_def)

lemma Cleanup_inv: "lc_inv pl \<Longrightarrow> lc_inv (fst (Cleanup k e rm pl))"
  by (auto simp: lc_inv_def)

interpretation life: machine lc_init lc_step lc_inv
proof
  fix pl assume "lc_init pl"
  then show "lc_inv pl"
    by (auto simp: lc_init_def lc_inv_def NewProcessLifecycle_def Let_def)
next
  fix pl pl' assume "lc_inv pl" and "lc_step pl pl'"
  from this(2,1) show "lc_inv pl'"
    by cases (simp_all only: Start_inv WaitForReady_inv MarkRunning_inv Wait_inv Terminate_inv Cleanup_inv)
qed

text \<open>A step goes forward in the order of the states, and nowhere from the last two.\<close>

lemma step_forward:
  "lc_step pl pl' \<Longrightarrow> pl_state pl \<le> pl_state pl' \<and> (pl_state pl \<in> {Terminated, Failed} \<longrightarrow> pl_state pl' = pl_state pl)"
  by (cases rule: lc_step.cases, assumption)
    (auto simp: lc_operations less_eq_process_state_def split: sum.split ready_result.split wait_result.split)

lemma steps_forward:
  "lc_step\<^sup>*\<^sup>* pl pl' \<Longrightarrow> pl_state pl \<le> pl_state pl' \<and> (pl_state pl \<in> {Terminated, Failed} \<longrightarrow> pl_state pl' = pl_state pl)"
proof (induction rule: rtranclp_induct)
  case (step y z)
  with step_forward [OF step(2)] show ?case by auto
qed simp

text \<open>C20. Operations of the manager that do not overlap move its state forward in the order of the
  constants and never out of Terminated or Failed; the lock-free state is the state, an exit
  code or error is only there in Failed, and a state between NotStarted and Failed has a
  process.\<close>

theorem lifecycle_forward:
  assumes "reachable lc_init lc_step pl" and "lc_step\<^sup>*\<^sup>* pl pl'"
  shows "pl_state pl \<le> pl_state pl' \<and> GetState pl' = state_code (pl_state pl') \<and>
    (if pl_state pl \<in> {Terminated, Failed} then pl_state pl' = pl_state pl else True) \<and>
    (if exitError pl' \<noteq> None \<or> exitCode pl' \<noteq> 0 then pl_state pl' = Failed else True) \<and>
    (if pl_state pl' \<notin> {NotStarted, Failed} then has_process pl' else True)"
proof -
  have "reachable lc_init lc_step pl'"
    using assms(2,1) by (induction rule: rtranclp_induct) (auto intro: reachable.step)
  then have "lc_inv pl'" by (rule life.reachable_inv)
  with steps_forward [OF assms(2)] show ?thesis by (auto simp: lc_inv_def GetState_def)
qed

definition new_lifecycle :: lifecycle where
  "new_lifecycle = \<lparr>binaryPath = ''sim'', tempDir = '''', timeout = 30000000000, pl_state = NotStarted,
     cmd = None, startTime = None, exitCode = 0, exitError = None, stderrBuffer = \<lparr>data = [], limit = 1048576\<rparr>,
     tempFiles = [], stateAtomic = 0, closed = False\<rparr>"

lemma NewProcessLifecycle_runner: "NewProcessLifecycle (runner_config ''sim'') = Ok new_lifecycle"
  by (simp add: NewProcessLifecycle_def runner_config_def newRedactingBuffer_def new_lifecycle_def)

definition started_lifecycle :: lifecycle where
  "started_lifecycle = fst (Start id 0 (Inr 42) new_lifecycle)"

definition run_killed :: lifecycle where
  "run_killed = fst (Wait (WaitExit (Signaled 9)) (fst (MarkRunning
     (fst (WaitForReady IsReady True True (\<lambda>_. None) started_lifecycle)))))"

lemma run_killed_steps: "lc_step\<^sup>*\<^sup>* started_lifecycle run_killed"
  unfolding run_killed_def
  by (meson converse_rtranclp_into_rtranclp lc_step.ready lc_step.running lc_step.wait rtranclp.rtrancl_refl)

lemma started_reachable: "reachable lc_init lc_step started_lifecycle"
proof -
  have "reachable lc_init lc_step new_lifecycle"
    by (rule reachable.start) (auto simp: lc_init_def intro: NewProcessLifecycle_runner)
  then show ?thesis unfolding started_lifecycle_def by (rule reachable.step) (rule lc_step.start)
qed

lemma lifecycle_forward_witness:
  "pl_state started_lifecycle \<le> pl_state run_killed \<and> exitCode run_killed = - 1 \<and> pl_state run_killed = Failed"
proof -
  have "exitCode run_killed = - 1" by code_simp
  with lifecycle_forward [OF started_reachable run_killed_steps] show ?thesis by (metis zero_neq_neg_one)
qed

text \<open>
  A simulator killed by a signal has the exit status -1, which is none of the codes 130, 137, 143 of
  the table: the crash is reported as an execution error.
\<close>

lemma signal_exit_untranslated:
  "TranslateExitCode ''linux'' run_killed = Some (SimError CodeSimulatorError ''simulator exited with code -1: '')"
  by code_simp

section \<open>Overlapping operations\<close>

text \<open>
  \<open>WaitForReady\<close> checks the state only before it waits. When \<open>Terminate\<close> runs meanwhile, a ready
  answer sets the terminated process back to ready, and it can be marked as running.
\<close>

lemma ready_after_terminated:
  "ready_check started_lifecycle = None \<and>
   pl_state (fst (Terminate True started_lifecycle)) = Terminated \<and>
   pl_state (ready_finish IsReady (fst (Terminate True started_lifecycle))) = ReadyState \<and>
   snd (MarkRunning (ready_finish IsReady (fst (Terminate True started_lifecycle)))) = None"
  by code_simp

section \<open>The runner\<close>

lemma MarkRunning_after_Start:
  "Start f now st pl = (pl', None) \<Longrightarrow> MarkRunning pl' = (pl', Some (InvalidTransition Starting Running))"
  by (auto simp: Start_def MarkRunning_def Let_def split: sum.splits if_splits)

text \<open>\<open>PerformHandshake\<close> of handshake.go waits right after the start: refused as well.\<close>

lemma Wait_after_Start:
  "Start f now st pl = (pl', None) \<Longrightarrow> Wait r pl' = (pl', Some (InvalidForWait Starting))"
  by (auto simp: Start_def Wait_def wait_check_def Let_def split: sum.splits if_splits)

lemma Start_result:
  "Start f now st pl = (pl', e) \<Longrightarrow> pl_state pl = NotStarted \<Longrightarrow>
     e = (case st of Inl err \<Rightarrow> Some (StartFailed err) | Inr _ \<Rightarrow> None)"
  by (auto simp: Start_def Let_def split: sum.splits)

text \<open>C19. Runner.Run never gets a result from the simulator: when the process starts, marking it as
  running is refused, because it is Starting and not Ready; when it does not start, that is the
  error. In both cases the manager is cleaned up.\<close>

theorem run_never_succeeds:
  "\<exists>pl. run_process goos env path = Ok (pl, Some (case env_started env of
       Inl err \<Rightarrow> StartCrash (StartFailed err)
     | Inr _ \<Rightarrow> BadTransition (InvalidTransition Starting Running))) \<and> closed pl"
proof -
  obtain pl0 where pl0: "NewProcessLifecycle (runner_config path) = Ok pl0" "pl_state pl0 = NotStarted"
    by (simp add: NewProcessLifecycle_def runner_config_def newRedactingBuffer_def)
  obtain pl1 e where s: "Start (\<lambda>c. c\<lparr>Stdin := Some False, Stdout := Some False\<rparr>) (env_now env) (env_started env) pl0 = (pl1, e)"
    by (meson surj_pair)
  have closed: "closed (fst (Cleanup k ex rm pl))" for k ex rm pl by (simp add: Cleanup_def Let_def)
  note e = Start_result [OF s pl0(2)]
  show ?thesis
  proof (cases "env_started env")
    case (Inl err)
    with s e pl0 closed show ?thesis by (auto simp: run_process_def run_with_def)
  next
    case (Inr pid)
    with s e have "Start (\<lambda>c. c\<lparr>Stdin := Some False, Stdout := Some False\<rparr>) (env_now env) (env_started env) pl0 = (pl1, None)"
      by simp
    note this MarkRunning_after_Start [OF this]
    with Inr pl0 closed show ?thesis by (auto simp: run_process_def run_with_def)
  qed
qed

end
