(* ===== verification/Disassembler.thy ===== *)
theory Disassembler
  imports WasmValidate GoText "HOL-Library.Multiset"
begin

text \<open>
  internal/wat/disassembler.go: the fallback that shows the instructions around a failing offset.
  It locates the code section, cuts it into function bodies and decodes each into instructions.
  Its LEB128 readers have no bound on the number of bytes and no error, and positions are Go's
  64-bit \<open>int\<close>: a length of \<open>2 ^ 63\<close> or more is a negative number, and the sum of a position and a
  length wraps (\<open>wrap64\<close>). A walk over sections goes back over such a length; a position that comes
  back makes it run forever, which is what happens when it makes more turns than the data has bytes.
  The texts of floating-point constants and the order \<open>sort.Slice\<close> leaves equal offsets in are
  parameters. The text of the custom sections and of whole modules
  is left out.
\<close>

section \<open>Machine integers and slices\<close>

datatype wat_error = NotWasm | CodeNotFound | LocateFailed wat_error | InvalidRange int int | DecodeFailed wat_error

definition wrap64 :: "int \<Rightarrow> int" where
  "wrap64 z = signed_take_bit 63 z"

definition from_int :: "bytes \<Rightarrow> int \<Rightarrow> (wat_error, bytes) outcome" where
  "from_int data i = (if i < 0 \<or> i > int (length data) then Panic else Ok (drop (nat i) data))"

section \<open>LEB128\<close>

fun uleb_loop :: "bytes \<Rightarrow> u64 \<Rightarrow> nat \<Rightarrow> nat \<Rightarrow> u64 \<times> nat" where
  "uleb_loop [] result shift i = (result, i)"
| "uleb_loop (b # bs) result shift i =
     (let result = result OR push_bit shift (ucast (b AND 0x7f))
      in if b AND 0x80 = 0 then (result, i + 1) else uleb_loop bs result (shift + 7) (i + 1))"

definition wat_decodeULEB128 :: "bytes \<Rightarrow> u64 \<times> nat" where
  "wat_decodeULEB128 data = uleb_loop data 0 0 0"

text \<open>The loop of the signed readers: the result, the shift, the last byte and the index it ends with.\<close>

fun sleb_loop :: "bytes \<Rightarrow> u64 \<Rightarrow> nat \<Rightarrow> u8 \<Rightarrow> nat \<Rightarrow> u64 \<times> nat \<times> u8 \<times> nat" where
  "sleb_loop [] result shift b i = (result, shift, b, i)"
| "sleb_loop (b' # bs) result shift b i =
     (let result = result OR push_bit shift (ucast (b' AND 0x7f)); shift = shift + 7
      in if b' AND 0x80 = 0 then (result, shift, b', i) else sleb_loop bs result shift b' (i + 1))"

definition wat_decodeSLEB128 :: "bytes \<Rightarrow> 32 word \<times> nat" where
  "wat_decodeSLEB128 data = (case sleb_loop data 0 0 0 0 of (result, shift, b, i) \<Rightarrow>
     let result = (if shift < 32 \<and> b AND 0x40 \<noteq> 0 then result OR - push_bit shift 1 else result)
     in (ucast result, i + 1))"

definition wat_decodeSLEB128_64 :: "bytes \<Rightarrow> u64 \<times> nat" where
  "wat_decodeSLEB128_64 data = (case sleb_loop data 0 0 0 0 of (result, shift, b, i) \<Rightarrow>
     let result = (if shift < 64 \<and> b AND 0x40 \<noteq> 0 then result OR - push_bit shift 1 else result)
     in (result, i + 1))"

section \<open>Instructions\<close>

record instruction =
  i_Offset :: nat
  i_Opcode :: u8
  Mnemonic :: string
  Operands :: string
  i_Size :: nat

definition instruction_String :: "instruction \<Rightarrow> string" where
  "instruction_String inst =
     (if Operands inst \<noteq> '''' then Mnemonic inst @ '' '' @ Operands inst else Mnemonic inst)"

definition hex_digit :: "nat \<Rightarrow> char" where
  "hex_digit d = (if d < 10 then char_of (48 + d) else char_of (87 + d))"

fun hex_digits :: "nat \<Rightarrow> string" where
  "hex_digits n = (if n < 16 then [hex_digit n] else hex_digits (n div 16) @ [hex_digit (n mod 16)])"

declare hex_digits.simps [simp del]

text \<open>\<open>%0wx\<close>.\<close>

definition fmt_hex :: "nat \<Rightarrow> nat \<Rightarrow> string" where
  "fmt_hex w n = (let s = hex_digits n in replicate (w - length s) (CHR ''0'') @ s)"

definition decodeBlockType :: "bytes \<Rightarrow> string \<times> nat" where
  "decodeBlockType data =
     (if length data = 0 then ('''', 0)
      else let b = hd data in
        if b = 0x40 then ('''', 1)
        else if b = 0x7f then (''(result i32)'', 1)
        else if b = 0x7e then (''(result i64)'', 1)
        else if b = 0x7d then (''(result f32)'', 1)
        else if b = 0x7c then (''(result f64)'', 1)
        else (''(type)'', snd (wat_decodeSLEB128 data)))"

definition block_ops :: "(u8 \<times> string) list" where
  "block_ops = [(0x02, ''block''), (0x03, ''loop''), (0x04, ''if'')]"

definition index_ops :: "(u8 \<times> string) list" where
  "index_ops = [(0x0c, ''br''), (0x0d, ''br_if''), (0x20, ''local.get''), (0x21, ''local.set''),
     (0x22, ''local.tee''), (0x23, ''global.get''), (0x24, ''global.set'')]"

definition memory_ops :: "(u8 \<times> string) list" where
  "memory_ops = [(0x28, ''i32.load''), (0x29, ''i64.load''), (0x2a, ''f32.load''), (0x2b, ''f64.load''),
     (0x36, ''i32.store''), (0x37, ''i64.store'')]"

definition size_ops :: "(u8 \<times> string) list" where
  "size_ops = [(0x3f, ''memory.size''), (0x40, ''memory.grow'')]"

definition plain_ops :: "(u8 \<times> string) list" where
  "plain_ops =
    [(0x00, ''unreachable''), (0x01, ''nop''), (0x05, ''else''), (0x0b, ''end''), (0x0f, ''return''),
     (0x45, ''i32.eqz''), (0x46, ''i32.eq''), (0x47, ''i32.ne''), (0x48, ''i32.lt_s''), (0x49, ''i32.lt_u''),
     (0x4a, ''i32.gt_s''), (0x4b, ''i32.gt_u''), (0x4c, ''i32.le_s''), (0x4d, ''i32.le_u''),
     (0x4e, ''i32.ge_s''), (0x4f, ''i32.ge_u''), (0x50, ''i64.eqz''), (0x51, ''i64.eq''), (0x52, ''i64.ne''),
     (0x67, ''i32.clz''), (0x68, ''i32.ctz''), (0x69, ''i32.popcnt''), (0x6a, ''i32.add''), (0x6b, ''i32.sub''),
     (0x6c, ''i32.mul''), (0x6d, ''i32.div_s''), (0x6e, ''i32.div_u''), (0x6f, ''i32.rem_s''),
     (0x70, ''i32.rem_u''), (0x71, ''i32.and''), (0x72, ''i32.or''), (0x73, ''i32.xor''), (0x74, ''i32.shl''),
     (0x75, ''i32.shr_s''), (0x76, ''i32.shr_u''), (0x77, ''i32.rotl''), (0x78, ''i32.rotr''),
     (0x79, ''i64.clz''), (0x7a, ''i64.ctz''), (0x7c, ''i64.add''), (0x7d, ''i64.sub''), (0x7e, ''i64.mul''),
     (0xa7, ''i32.wrap_i64''), (0xac, ''i64.extend_i32_s''), (0xad, ''i64.extend_i32_u''),
     (0x1a, ''drop''), (0x1b, ''select'')]"

text \<open>
  The loop of \<open>br_table\<close>, \<open>for i := uint64(0); i <= count; i++\<close>: it never ends for the largest count
  and reads \<open>count + 1\<close> labels for any other. Past the end of the data a label has no bytes.
\<close>

function br_labels :: "nat \<Rightarrow> nat \<Rightarrow> bytes \<Rightarrow> nat \<Rightarrow> nat" where
  "br_labels i n rest consumed =
     (if i < n then br_labels (i + 1) n rest (consumed + snd (wat_decodeULEB128 (drop consumed rest)))
      else consumed)"
  by pat_completeness auto
termination by (relation "measure (\<lambda>(i, n, _). n - i)") auto

text \<open>The texts of 32-bit and 64-bit floating-point numbers, \<open>%g\<close> of their bits.\<close>

record float_format =
  fmt_g32 :: "u32 \<Rightarrow> string"
  fmt_g64 :: "u64 \<Rightarrow> string"

definition le_u32 :: "bytes \<Rightarrow> u32" where
  "le_u32 bs = (case bs of b0 # b1 # b2 # b3 # _ \<Rightarrow>
     ucast b0 OR push_bit 8 (ucast b1) OR push_bit 16 (ucast b2) OR push_bit 24 (ucast b3) | _ \<Rightarrow> 0)"

definition le_u64 :: "bytes \<Rightarrow> u64" where
  "le_u64 bs = ucast (le_u32 (take 4 bs)) OR push_bit 32 (ucast (le_u32 (drop 4 bs)))"

definition fmt_u64 :: "u64 \<Rightarrow> string" where
  "fmt_u64 v = fmt_nat (unat v)"

definition decodeOpcode :: "float_format \<Rightarrow> u8 \<Rightarrow> bytes \<Rightarrow> (wat_error, string \<times> string \<times> nat) outcome" where
  "decodeOpcode ff opcode rest =
     (case map_of plain_ops opcode of Some m \<Rightarrow> Ok (m, '''', 0)
      | None \<Rightarrow> (case map_of block_ops opcode of Some m \<Rightarrow> (let (bt, n) = decodeBlockType rest in Ok (m, bt, n))
      | None \<Rightarrow> (case map_of index_ops opcode of Some m \<Rightarrow>
          (let (idx, n) = wat_decodeULEB128 rest in Ok (m, fmt_u64 idx, n))
      | None \<Rightarrow> (case map_of memory_ops opcode of Some m \<Rightarrow>
          (let (align, n1) = wat_decodeULEB128 rest; (offset, n2) = wat_decodeULEB128 (drop n1 rest)
           in Ok (m, ''offset='' @ fmt_u64 offset @ '' align='' @ fmt_u64 align, n1 + n2))
      | None \<Rightarrow> (case map_of size_ops opcode of Some m \<Rightarrow> Ok (m, '''', snd (wat_decodeULEB128 rest))
      | None \<Rightarrow>
        if opcode = 0x0e then
          let (cnt, n) = wat_decodeULEB128 rest in
          if cnt = - 1 then Diverge
          else Ok (''br_table'', ''(count='' @ fmt_u64 cnt @ '')'', br_labels 0 (unat cnt + 1) rest n)
        else if opcode = 0x10 then
          let (idx, n) = wat_decodeULEB128 rest in Ok (''call'', ''$func'' @ fmt_u64 idx, n)
        else if opcode = 0x11 then
          let (typeIdx, n) = wat_decodeULEB128 rest in
          Ok (''call_indirect'', ''(type '' @ fmt_u64 typeIdx @ '')'', n + snd (wat_decodeULEB128 (drop n rest)))
        else if opcode = 0x41 then
          let (val, n) = wat_decodeSLEB128 rest in Ok (''i32.const'', fmt_int (sint val), n)
        else if opcode = 0x42 then
          let (val, n) = wat_decodeSLEB128_64 rest in Ok (''i64.const'', fmt_int (sint val), n)
        else if opcode = 0x43 then
          (if length rest < 4 then Ok (''f32.const'', ''?'', 0) else Ok (''f32.const'', fmt_g32 ff (le_u32 rest), 4))
        else if opcode = 0x44 then
          (if length rest < 8 then Ok (''f64.const'', ''?'', 0) else Ok (''f64.const'', fmt_g64 ff (le_u64 rest), 8))
        else if opcode = 0xfc then
          let (subOpcode, n) = wat_decodeULEB128 rest in
          if subOpcode = 11 then Ok (''memory.fill'', '''', if length (drop n rest) > 0 then n + 1 else n)
          else Ok (''unknown_0xfc_'' @ fmt_u64 subOpcode, '''', n)
        else Ok (''unknown_0x'' @ fmt_hex 2 (unat opcode), '''', 0))))))"

section \<open>Numbers in operands\<close>

definition digit_of :: "char \<Rightarrow> nat option" where
  "digit_of c = (let n = of_char c :: nat in if 48 \<le> n \<and> n \<le> 57 then Some (n - 48) else None)"

text \<open>\<open>strconv.ParseUint(s, 10, 64)\<close> and \<open>strconv.ParseInt(s, 10, 64)\<close>; \<open>None\<close> is an error.\<close>

fun digits_value :: "nat \<Rightarrow> string \<Rightarrow> nat option" where
  "digits_value v [] = Some v"
| "digits_value v (c # s) = (case digit_of c of None \<Rightarrow> None | Some d \<Rightarrow> digits_value (10 * v + d) s)"

definition ParseUint :: "string \<Rightarrow> nat option" where
  "ParseUint s = (if s = '''' then None else case digits_value 0 s of
     None \<Rightarrow> None | Some v \<Rightarrow> if int v < 18446744073709551616 then Some v else None)"

definition ParseInt :: "string \<Rightarrow> int option" where
  "ParseInt s =
     (let (neg, u) = (case s of [] \<Rightarrow> (False, []) | c # r \<Rightarrow>
          if c = CHR ''-'' then (True, r) else if c = CHR ''+'' then (False, r) else (False, s))
      in case ParseUint u of None \<Rightarrow> None
         | Some v \<Rightarrow> if \<not> neg \<and> int v < 9223372036854775808 then Some (int v)
             else if neg \<and> int v \<le> 9223372036854775808 then Some (- int v) else None)"

section \<open>Function bodies\<close>

record disassembler =
  wdata :: bytes
  importedFunctionCount :: u32

record func_body_range =
  fb_start :: nat
  fb_end :: int

definition highlightImportedCall :: "u32 \<Rightarrow> string \<Rightarrow> string" where
  "highlightImportedCall imported operands =
     (if length operands = 0 then operands
      else let parsed = (if has_prefix operands ''$func'' then ParseUint (drop 5 operands) else ParseUint operands) in
        case parsed of None \<Rightarrow> operands
        | Some funcIndex \<Rightarrow> if funcIndex < unat imported then operands @ '' [imported]'' else operands)"

definition large_warning :: string where
  "large_warning = [CHR 0xE2, CHR 0x9A, CHR 0xA0] @ '' Large memory operation detected''"

text \<open>
  The operands shown for an instruction. \<open>prev\<close> is the value of the \<open>i32.const\<close> just before it,
  if there was one.
\<close>

definition shown_operands :: "u32 \<Rightarrow> int option \<Rightarrow> string \<Rightarrow> string \<Rightarrow> string" where
  "shown_operands imported prev mnemonic operands =
     (let operands = (if mnemonic = ''call'' \<and> imported > 0 then highlightImportedCall imported operands else operands)
      in if (mnemonic = ''memory.grow'' \<or> mnemonic = ''memory.fill'') \<and>
            (case prev of Some v \<Rightarrow> v > 64 * 1024 | None \<Rightarrow> False)
         then (if operands \<noteq> '''' then operands @ '' '' else operands) @ large_warning
         else operands)"

definition const_value :: "string \<Rightarrow> string \<Rightarrow> int option" where
  "const_value mnemonic operands = (if mnemonic = ''i32.const'' then ParseInt operands else None)"

definition decode_one :: "float_format \<Rightarrow> disassembler \<Rightarrow> nat \<Rightarrow> int option \<Rightarrow> (wat_error, instruction \<times> int option) outcome" where
  "decode_one ff d pos prev =
     obind (at_idx (wdata d) pos) (\<lambda>opcode.
     obind (from_int (wdata d) (int pos + 1)) (\<lambda>rest.
     obind (decodeOpcode ff opcode rest) (\<lambda>(mnemonic, operands, consumed).
       let operands = shown_operands (importedFunctionCount d) prev mnemonic operands in
       Ok (\<lparr>i_Offset = pos, i_Opcode = opcode, Mnemonic = mnemonic, Operands = operands, i_Size = 1 + consumed\<rparr>,
           const_value mnemonic operands))))"

lemma decode_one_fields:
  "decode_one ff d pos prev = Ok (inst, prev') \<Longrightarrow> i_Offset inst = pos \<and> 0 < i_Size inst"
  by (auto simp: decode_one_def Let_def)

function body_loop :: "float_format \<Rightarrow> disassembler \<Rightarrow> int \<Rightarrow> nat \<Rightarrow> int option \<Rightarrow> (wat_error, instruction list) outcome" where
  "body_loop ff d end pos prev =
     (if int pos < end then
        (case decode_one ff d pos prev of
           Ok (inst, prev) \<Rightarrow> obind (body_loop ff d end (pos + i_Size inst) prev) (\<lambda>insts. Ok (inst # insts))
         | Err e \<Rightarrow> Err e | Panic \<Rightarrow> Panic | Diverge \<Rightarrow> Diverge)
      else Ok [])"
  by pat_completeness auto
termination by (relation "measure (\<lambda>(_, _, end, pos, _). nat (end - int pos))") (auto dest: decode_one_fields)

function skip_locals :: "bytes \<Rightarrow> int \<Rightarrow> nat \<Rightarrow> nat \<Rightarrow> nat \<Rightarrow> (wat_error, nat) outcome" where
  "skip_locals data end i n pos =
     (if i < n \<and> int pos < end then
        obind (from_int data (int pos)) (\<lambda>rest.
          skip_locals data end (i + 1) n (pos + snd (wat_decodeULEB128 rest) + 1))
      else Ok pos)"
  by pat_completeness auto
termination by (relation "measure (\<lambda>(_, _, i, n, _). n - i)") auto

definition decodeFuncBody :: "float_format \<Rightarrow> disassembler \<Rightarrow> func_body_range \<Rightarrow> (wat_error, instruction list) outcome" where
  "decodeFuncBody ff d body =
     obind (from_int (wdata d) (int (fb_start body))) (\<lambda>rest.
     let (localCount, n) = wat_decodeULEB128 rest in
     obind (skip_locals (wdata d) (fb_end body) 0 (unat localCount) (fb_start body + n)) (\<lambda>pos.
       body_loop ff d (fb_end body) pos None))"

section \<open>The module\<close>

definition IsValidWasm :: "bytes \<Rightarrow> (wat_error, bool) outcome" where
  "IsValidWasm data = (case Sections data DefaultLimits of
     Ok (_, issues) \<Rightarrow> Ok (\<not> list_ex (\<lambda>i. Class i = ClassStructural) issues)
   | Err _ \<Rightarrow> Panic | Panic \<Rightarrow> Panic | Diverge \<Rightarrow> Diverge)"

text \<open>
  The walk of \<open>findCodeSection\<close> and \<open>parseImportedFunctionCount\<close>: the position after the header of
  the first section with the id, and its size. The first argument bounds the turns.
\<close>

fun find_section :: "nat \<Rightarrow> u8 \<Rightarrow> bytes \<Rightarrow> int \<Rightarrow> (wat_error, (int \<times> u64) option) outcome" where
  "find_section 0 sid data pos = Diverge"
| "find_section (Suc turns) sid data pos =
     (if pos < int (length data) then
        obind (at_int data pos) (\<lambda>sectionID.
        obind (from_int data (pos + 1)) (\<lambda>rest.
          let (sectionSize, n) = wat_decodeULEB128 rest; pos = pos + 1 + int n in
          if sectionID = sid then Ok (Some (pos, sectionSize))
          else find_section turns sid data (wrap64 (pos + sint sectionSize))))
      else Ok None)"

definition findCodeSection :: "disassembler \<Rightarrow> (wat_error, int \<times> int) outcome" where
  "findCodeSection d =
     obind (find_section (length (wdata d) + 1) 10 (wdata d) 8) (\<lambda>r. case r of
       None \<Rightarrow> Err CodeNotFound
     | Some (pos, sz) \<Rightarrow> Ok (pos, wrap64 (pos + sint sz)))"

definition skip_uleb :: "bytes \<Rightarrow> int \<Rightarrow> (wat_error, int) outcome" where
  "skip_uleb payload pos = obind (from_int payload pos) (\<lambda>rest. Ok (pos + int (snd (wat_decodeULEB128 rest))))"

definition skip_name :: "bytes \<Rightarrow> int \<Rightarrow> (wat_error, int) outcome" where
  "skip_name payload pos =
     obind (from_int payload pos) (\<lambda>rest. let (nameLen, n) = wat_decodeULEB128 rest in
       Ok (wrap64 (pos + int n + sint nameLen)))"

definition skip_limits :: "bytes \<Rightarrow> int \<Rightarrow> (wat_error, int) outcome" where
  "skip_limits payload pos =
     obind (at_int payload pos) (\<lambda>flags.
     obind (skip_uleb payload (pos + 1)) (\<lambda>pos.
       if flags AND 0x01 \<noteq> 0 then skip_uleb payload pos else Ok pos))"

text \<open>What follows the kind of an import; \<open>None\<close> is a \<open>break\<close>.\<close>

definition skip_kind :: "bytes \<Rightarrow> u8 \<Rightarrow> int \<Rightarrow> (wat_error, int option) outcome" where
  "skip_kind payload kind pos =
     (if kind = 0x00 then obind (skip_uleb payload pos) (\<lambda>p. Ok (Some p))
      else if kind = 0x01 then
        (if pos + 1 \<ge> int (length payload) then Ok None
         else obind (skip_limits payload (pos + 1)) (\<lambda>p. Ok (Some p)))
      else if kind = 0x02 then
        (if pos \<ge> int (length payload) then Ok None
         else obind (skip_limits payload pos) (\<lambda>p. Ok (Some p)))
      else if kind = 0x03 then
        (if pos + 2 > int (length payload) then Ok None else Ok (Some (pos + 2)))
      else if kind = 0x04 then
        (if pos \<ge> int (length payload) then Ok None
         else obind (skip_uleb payload (pos + 1)) (\<lambda>p. Ok (Some p)))
      else Ok (Some pos))"

function import_loop :: "nat \<Rightarrow> nat \<Rightarrow> bytes \<Rightarrow> int \<Rightarrow> u32 \<Rightarrow> (wat_error, u32) outcome" where
  "import_loop i n payload pos fnCount =
     (if i < n \<and> pos < int (length payload) then
        obind (skip_name payload pos) (\<lambda>pos.
        if pos \<ge> int (length payload) then Ok fnCount
        else obind (skip_name payload pos) (\<lambda>pos.
        if pos \<ge> int (length payload) then Ok fnCount
        else obind (at_int payload pos) (\<lambda>kind.
          obind (skip_kind payload kind (pos + 1)) (\<lambda>r. case r of
            None \<Rightarrow> Ok fnCount
          | Some pos \<Rightarrow> import_loop (i + 1) n payload pos (if kind = 0x00 then fnCount + 1 else fnCount)))))
      else Ok fnCount)"
  by pat_completeness auto
termination by (relation "measure (\<lambda>(i, n, _). n - i)") auto

definition int_slice :: "bytes \<Rightarrow> int \<Rightarrow> int \<Rightarrow> (wat_error, bytes) outcome" where
  "int_slice data i j = (if i < 0 \<or> j < 0 then Panic else gslice data (nat i) (nat j))"

definition wat_parseImportedFunctionCount :: "bytes \<Rightarrow> (wat_error, u32) outcome" where
  "wat_parseImportedFunctionCount data =
     obind (find_section (length data + 1) 2 data 8) (\<lambda>r. case r of
       None \<Rightarrow> Ok 0
     | Some (importStart, sz) \<Rightarrow>
         obind (int_slice data importStart (min (wrap64 (importStart + sint sz)) (int (length data)))) (\<lambda>payload.
           if length payload = 0 then Ok 0
           else let (cnt, n) = wat_decodeULEB128 payload in import_loop 0 (unat cnt) payload (int n) 0))"

definition NewDisassembler :: "bytes \<Rightarrow> (wat_error, disassembler) outcome" where
  "NewDisassembler wasmBytes =
     obind (IsValidWasm wasmBytes) (\<lambda>valid.
       if valid then obind (wat_parseImportedFunctionCount wasmBytes) (\<lambda>c.
         Ok \<lparr>wdata = wasmBytes, importedFunctionCount = c\<rparr>)
       else Ok \<lparr>wdata = wasmBytes, importedFunctionCount = 0\<rparr>)"

section \<open>The code section\<close>

text \<open>\<open>make([]funcBodyRange, 0, count)\<close>, 16 bytes each: above the largest allocation it panics.\<close>

definition make_bodies :: "u64 \<Rightarrow> (wat_error, unit) outcome" where
  "make_bodies cnt = (if uint cnt * 16 > 2 ^ 48 then Panic else Ok ())"

function split_bodies :: "nat \<Rightarrow> nat \<Rightarrow> bytes \<Rightarrow> int \<Rightarrow> int \<Rightarrow> (wat_error, func_body_range list) outcome" where
  "split_bodies i n data end pos =
     (if i < n \<and> pos < end then
        obind (from_int data pos) (\<lambda>rest.
          let (bodySize, m) = wat_decodeULEB128 rest;
              bodyStart = pos + int m;
              bodyEnd = min (wrap64 (bodyStart + sint bodySize)) end
          in obind (split_bodies (i + 1) n data end bodyEnd)
               (\<lambda>bodies. Ok (\<lparr>fb_start = nat bodyStart, fb_end = bodyEnd\<rparr> # bodies)))
      else Ok [])"
  by pat_completeness auto
termination by (relation "measure (\<lambda>(i, n, _). n - i)") auto

definition bad_range :: "bytes \<Rightarrow> int \<Rightarrow> int \<Rightarrow> bool" where
  "bad_range data start end \<longleftrightarrow> start \<ge> int (length data) \<or> end > int (length data) \<or> start \<ge> end"

definition parseFunctionBodies :: "disassembler \<Rightarrow> int \<Rightarrow> int \<Rightarrow> (wat_error, func_body_range list) outcome" where
  "parseFunctionBodies d start end =
     (if bad_range (wdata d) start end then Err (InvalidRange start end)
      else obind (from_int (wdata d) start) (\<lambda>rest. let (cnt, n) = wat_decodeULEB128 rest in
        obind (make_bodies cnt) (\<lambda>_. split_bodies 0 (unat cnt) (wdata d) end (start + int n))))"

definition parallelThreshold :: nat where
  "parallelThreshold = 16"

text \<open>\<open>slice_sort\<close> is what \<open>sort.Slice\<close> does to the instructions.\<close>

definition decodeInstructions ::
  "float_format \<Rightarrow> (instruction list \<Rightarrow> instruction list) \<Rightarrow> disassembler \<Rightarrow> int \<Rightarrow> int
     \<Rightarrow> (wat_error, instruction list) outcome" where
  "decodeInstructions ff slice_sort d start end =
     (if bad_range (wdata d) start end then Err (InvalidRange start end)
      else obind (parseFunctionBodies d start end) (\<lambda>bodies.
        obind (omap (decodeFuncBody ff d) bodies) (\<lambda>results.
          if length bodies < parallelThreshold then Ok (concat results)
          else Ok (slice_sort (concat results)))))"

definition DecodeAll ::
  "float_format \<Rightarrow> (instruction list \<Rightarrow> instruction list) \<Rightarrow> disassembler \<Rightarrow> (wat_error, instruction list) outcome" where
  "DecodeAll ff slice_sort d =
     obind (IsValidWasm (wdata d)) (\<lambda>valid.
       if \<not> valid then Err NotWasm
       else obind (map_err LocateFailed (findCodeSection d)) (\<lambda>(codeStart, codeEnd).
         decodeInstructions ff slice_sort d codeStart codeEnd))"

section \<open>A window around an offset\<close>

record snippet =
  s_Instructions :: "instruction list"
  TargetOffset :: nat
  TargetIndex :: int
  FuncIndex :: int

definition is_target :: "instruction list \<Rightarrow> nat \<Rightarrow> nat \<Rightarrow> bool" where
  "is_target insts target i \<longleftrightarrow> i_Offset (insts ! i) = target \<or>
     i_Offset (insts ! i) \<le> target \<and> (i + 1 \<ge> length insts \<or> i_Offset (insts ! (i + 1)) > target)"

definition target_index :: "instruction list \<Rightarrow> nat \<Rightarrow> nat" where
  "target_index insts target =
     (case find (is_target insts target) [0..<length insts] of None \<Rightarrow> 0 | Some i \<Rightarrow> i)"

definition context_window :: "instruction list \<Rightarrow> nat \<Rightarrow> int \<Rightarrow> (wat_error, snippet) outcome" where
  "context_window insts target contextLines =
     (let targetIdx = int (target_index insts target);
          start = max (wrap64 (targetIdx - contextLines)) 0;
          end = min (wrap64 (targetIdx + contextLines + 1)) (int (length insts))
      in if end < start then Panic
         else Ok \<lparr>s_Instructions = take (nat (end - start)) (drop (nat start) insts), TargetOffset = target,
           TargetIndex = targetIdx - start, FuncIndex = 0\<rparr>)"

definition DisassembleAt ::
  "float_format \<Rightarrow> (instruction list \<Rightarrow> instruction list) \<Rightarrow> disassembler \<Rightarrow> nat \<Rightarrow> int
     \<Rightarrow> (wat_error, snippet) outcome" where
  "DisassembleAt ff slice_sort d targetOffset contextLines =
     obind (IsValidWasm (wdata d)) (\<lambda>valid.
       if \<not> valid then Err NotWasm
       else obind (map_err LocateFailed (findCodeSection d)) (\<lambda>(codeStart, codeEnd).
         obind (map_err DecodeFailed (decodeInstructions ff slice_sort d codeStart codeEnd)) (\<lambda>insts.
           if length insts = 0 then
             Ok \<lparr>s_Instructions = [], TargetOffset = targetOffset, TargetIndex = - 1, FuncIndex = 0\<rparr>
           else context_window insts targetOffset contextLines)))"

fun snippet_lines :: "int \<Rightarrow> int \<Rightarrow> instruction list \<Rightarrow> string" where
  "snippet_lines target i [] = ''''"
| "snippet_lines target i (inst # insts) =
     (if i = target then ''> '' else ''  '') @ ''0x'' @ fmt_hex 4 (i_Offset inst) @ '': '' @
     instruction_String inst @ [CHR 0x0A] @ snippet_lines target (i + 1) insts"

definition snippet_Format :: "snippet \<Rightarrow> string" where
  "snippet_Format s =
     (if length (s_Instructions s) = 0 then ''  <no instructions decoded>''
      else snippet_lines (TargetIndex s) 0 (s_Instructions s))"

fun wat_error_string :: "wat_error \<Rightarrow> string" where
  "wat_error_string NotWasm = ''not a valid WASM module''"
| "wat_error_string CodeNotFound = ''code section not found''"
| "wat_error_string (LocateFailed e) = ''failed to locate code section: '' @ wat_error_string e"
| "wat_error_string (InvalidRange s e) = ''invalid byte range ['' @ fmt_int s @ '', '' @ fmt_int e @ '')''"
| "wat_error_string (DecodeFailed e) = ''failed to decode instructions: '' @ wat_error_string e"

definition FormatFallback ::
  "float_format \<Rightarrow> (instruction list \<Rightarrow> instruction list) \<Rightarrow> bytes \<Rightarrow> nat \<Rightarrow> int \<Rightarrow> (wat_error, string) outcome" where
  "FormatFallback ff slice_sort wasmBytes failingOffset contextLines =
     (let contextLines = (if contextLines \<le> 0 then 5 else contextLines);
          off = ''0x'' @ hex_digits failingOffset; nl = [CHR 0x0A] in
      obind (NewDisassembler wasmBytes) (\<lambda>dis.
      obind (IsValidWasm (wdata dis)) (\<lambda>valid.
        if \<not> valid then Ok (''  Source mapping unavailable. WASM offset: '' @ off @ nl @ ''  (could not parse WASM module)'')
        else (case DisassembleAt ff slice_sort dis failingOffset contextLines of
          Err e \<Rightarrow> Ok (''  Source mapping unavailable. WASM offset: '' @ off @ nl @ ''  Disassembly error: '' @ wat_error_string e)
        | Ok snippet \<Rightarrow> Ok (''Source mapping unavailable. Showing WAT disassembly:'' @ nl @ nl @ snippet_Format snippet @
            nl @ ''Failing instruction at offset '' @ off @ nl)
        | Panic \<Rightarrow> Panic | Diverge \<Rightarrow> Diverge))))"

section \<open>Custom sections\<close>

text \<open>Name and payload of the custom sections; the walk ends at a section that is cut off.\<close>

fun custom_walk :: "nat \<Rightarrow> bytes \<Rightarrow> int \<Rightarrow> (wat_error, (bytes \<times> bytes) list) outcome" where
  "custom_walk 0 data pos = Diverge"
| "custom_walk (Suc turns) data pos =
     (if pos < int (length data) then
        obind (at_int data pos) (\<lambda>sectionID.
        obind (from_int data (pos + 1)) (\<lambda>rest.
          let (sz, n) = wat_decodeULEB128 rest; pos = pos + 1 + int n; end = wrap64 (pos + sint sz) in
          if end > int (length data) then Ok []
          else obind (if sectionID = 0 then obind (from_int data pos) (\<lambda>rest.
              let (nameLen, m) = wat_decodeULEB128 rest; nameStart = pos + int m;
                  nameEnd = wrap64 (nameStart + sint nameLen)
              in if nameEnd \<le> end then
                   obind (int_slice data nameStart nameEnd) (\<lambda>name.
                   obind (int_slice data nameEnd end) (\<lambda>payload. Ok [(name, payload)]))
                 else Ok [])
            else Ok []) (\<lambda>found. obind (custom_walk turns data end) (\<lambda>more. Ok (found @ more)))))
      else Ok [])"

definition ParseCustomSections :: "disassembler \<Rightarrow> (wat_error, (bytes \<times> bytes) list) outcome" where
  "ParseCustomSections d =
     obind (IsValidWasm (wdata d)) (\<lambda>valid.
       if \<not> valid then Err NotWasm else custom_walk (length (wdata d) + 1) (wdata d) 8)"

function name_entries ::
  "nat \<Rightarrow> nat \<Rightarrow> bytes \<Rightarrow> int \<Rightarrow> int \<Rightarrow> (u64 \<rightharpoonup> bytes) \<Rightarrow> (wat_error, u64 \<rightharpoonup> bytes) outcome" where
  "name_entries i n data end cur names =
     (if i < n \<and> cur < end then
        obind (from_int data cur) (\<lambda>rest. let (idx, m1) = wat_decodeULEB128 rest; cur = cur + int m1 in
        obind (from_int data cur) (\<lambda>rest. let (nameLen, m2) = wat_decodeULEB128 rest; cur = cur + int m2;
            nameEnd = wrap64 (cur + sint nameLen) in
        obind (if nameEnd \<le> end then obind (int_slice data cur nameEnd) (\<lambda>s. Ok (names(idx \<mapsto> s))) else Ok names)
          (\<lambda>names. name_entries (i + 1) n data end nameEnd names)))
      else Ok names)"
  by pat_completeness auto
termination by (relation "measure (\<lambda>(i, n, _). n - i)") auto

fun name_walk :: "nat \<Rightarrow> bytes \<Rightarrow> int \<Rightarrow> (u64 \<rightharpoonup> bytes) \<Rightarrow> (wat_error, u64 \<rightharpoonup> bytes) outcome" where
  "name_walk 0 data pos names = Diverge"
| "name_walk (Suc turns) data pos names =
     (if pos < int (length data) then
        obind (at_int data pos) (\<lambda>subsectionID.
        obind (from_int data (pos + 1)) (\<lambda>rest.
          let (sz, n) = wat_decodeULEB128 rest; pos = pos + 1 + int n; end = wrap64 (pos + sint sz) in
          if end > int (length data) then Ok names
          else obind (if subsectionID = 1 then obind (from_int data pos) (\<lambda>rest.
              let (cnt, m) = wat_decodeULEB128 rest in name_entries 0 (unat cnt) data end (pos + int m) names)
            else Ok names) (\<lambda>names. name_walk turns data end names)))
      else Ok names)"

definition decodeNameSection :: "bytes \<Rightarrow> (wat_error, u64 \<rightharpoonup> bytes) outcome" where
  "decodeNameSection data = name_walk (length data + 1) data 0 Map.empty"

section \<open>Events\<close>

record event_ref =
  EventIndex :: nat
  e_Offset :: nat
  e_Instruction :: "instruction option"

text \<open>\<open>offsetIndex\<close>: a later instruction with the same offset replaces an earlier one.\<close>

fun cross_reference :: "(nat \<rightharpoonup> instruction) \<Rightarrow> nat \<Rightarrow> string option list \<Rightarrow> event_ref list" where
  "cross_reference at_offset i [] = []"
| "cross_reference at_offset i (raw # evs) =
     (case raw of None \<Rightarrow> cross_reference at_offset (i + 1) evs
      | Some s \<Rightarrow>
          if s = '''' then cross_reference at_offset (i + 1) evs
          else (case ParseUint s of
            None \<Rightarrow> \<lparr>EventIndex = i, e_Offset = 0, e_Instruction = None\<rparr>
          | Some off \<Rightarrow> \<lparr>EventIndex = i, e_Offset = off, e_Instruction = at_offset off\<rparr>)
            # cross_reference at_offset (i + 1) evs)"

definition CrossReferenceEvents ::
  "float_format \<Rightarrow> (instruction list \<Rightarrow> instruction list) \<Rightarrow> bytes \<Rightarrow> string option list
     \<Rightarrow> (wat_error, event_ref list) outcome" where
  "CrossReferenceEvents ff slice_sort wasmBytes events =
     obind (NewDisassembler wasmBytes) (\<lambda>d.
     obind (IsValidWasm (wdata d)) (\<lambda>valid.
       if \<not> valid then Err NotWasm
       else obind (map_err DecodeFailed (DecodeAll ff slice_sort d)) (\<lambda>insts.
         Ok (cross_reference (map_of (rev (map (\<lambda>i. (i_Offset i, i)) insts))) 0 events))))"

section \<open>Decoding a body\<close>

lemma from_int_Ok [simp]: "from_int data i = Ok r \<longleftrightarrow> 0 \<le> i \<and> i \<le> int (length data) \<and> r = drop (nat i) data"
  by (auto simp: from_int_def)

lemma from_int_in: "0 \<le> i \<Longrightarrow> i \<le> int (length data) \<Longrightarrow> from_int data i = Ok (drop (nat i) data)"
  by simp

text \<open>The largest count makes the loop of \<open>br_table\<close> endless; nothing else keeps an opcode from being decoded.\<close>

definition endless_br_table :: "bytes \<Rightarrow> nat \<Rightarrow> bool" where
  "endless_br_table data pos \<longleftrightarrow> pos < length data \<and> data ! pos = 0x0e \<and>
     fst (wat_decodeULEB128 (drop (pos + 1) data)) = - 1"

definition decoded_or_endless :: "u8 \<Rightarrow> bytes \<Rightarrow> (wat_error, 'a) outcome \<Rightarrow> bool" where
  "decoded_or_endless opcode rest m \<longleftrightarrow> (case m of
     Ok _ \<Rightarrow> True | Diverge \<Rightarrow> opcode = 0x0e \<and> fst (wat_decodeULEB128 rest) = - 1 | _ \<Rightarrow> False)"

lemma decoded_intros:
  "decoded_or_endless opcode rest (Ok x)"
  "(b \<Longrightarrow> decoded_or_endless opcode rest m) \<Longrightarrow> (\<not> b \<Longrightarrow> decoded_or_endless opcode rest m') \<Longrightarrow>
     decoded_or_endless opcode rest (if b then m else m')"
  "(r = None \<Longrightarrow> decoded_or_endless opcode rest m) \<Longrightarrow> (\<And>y. r = Some y \<Longrightarrow> decoded_or_endless opcode rest (f y)) \<Longrightarrow>
     decoded_or_endless opcode rest (case r of None \<Rightarrow> m | Some y \<Rightarrow> f y)"
  by (auto simp: decoded_or_endless_def split: option.split)

lemma decodeOpcode_decoded: "decoded_or_endless opcode rest (decodeOpcode ff opcode rest)"
  unfolding decodeOpcode_def Let_def case_prod_unfold
  by (intro decoded_intros) (simp_all add: decoded_or_endless_def)

lemma decode_one_cases:
  assumes "pos < length (wdata d)"
  obtains inst prev' where "decode_one ff d pos prev = Ok (inst, prev')" "i_Offset inst = pos" "0 < i_Size inst"
      "i_Opcode inst = wdata d ! pos"
    | "decode_one ff d pos prev = Diverge" "endless_br_table (wdata d) pos"
proof -
  have r: "decode_one ff d pos prev = obind (decodeOpcode ff (wdata d ! pos) (drop (pos + 1) (wdata d)))
      (\<lambda>(mnemonic, operands, consumed). let operands = shown_operands (importedFunctionCount d) prev mnemonic operands in
       Ok (\<lparr>i_Offset = pos, i_Opcode = wdata d ! pos, Mnemonic = mnemonic, Operands = operands, i_Size = 1 + consumed\<rparr>,
           const_value mnemonic operands))"
    using assms by (simp add: decode_one_def from_int_in nat_add_distrib)
  have "decoded_or_endless (wdata d ! pos) (drop (pos + 1) (wdata d)) (decodeOpcode ff (wdata d ! pos) (drop (pos + 1) (wdata d)))"
    by (rule decodeOpcode_decoded)
  then show ?thesis
  proof (cases "decodeOpcode ff (wdata d ! pos) (drop (pos + 1) (wdata d))")
    case (Ok x)
    then obtain m s n where "decodeOpcode ff (wdata d ! pos) (drop (pos + 1) (wdata d)) = Ok (m, s, n)"
      by (cases x) auto
    then show ?thesis by (intro that(1)) (simp_all add: r Let_def del: One_nat_def, simp_all)
  next
    case Diverge
    assume "decoded_or_endless (wdata d ! pos) (drop (pos + 1) (wdata d)) (decodeOpcode ff (wdata d ! pos) (drop (pos + 1) (wdata d)))"
    with Diverge assms show ?thesis by (intro that(2)) (simp_all add: r endless_br_table_def decoded_or_endless_def)
  qed (simp_all add: decoded_or_endless_def)
qed

text \<open>Instructions one after the other from a position.\<close>

fun inst_tiles :: "nat \<Rightarrow> instruction list \<Rightarrow> bool" where
  "inst_tiles p [] \<longleftrightarrow> True"
| "inst_tiles p (i # is) \<longleftrightarrow> i_Offset i = p \<and> 0 < i_Size i \<and> inst_tiles (p + i_Size i) is"

definition body_decoded :: "bytes \<Rightarrow> int \<Rightarrow> nat \<Rightarrow> instruction list \<Rightarrow> bool" where
  "body_decoded data end pos insts \<longleftrightarrow> inst_tiles pos insts \<and> end \<le> int (pos + sum_list (map i_Size insts)) \<and>
     list_all (\<lambda>i. int (i_Offset i) < end \<and> i_Opcode i = data ! i_Offset i) insts"

declare body_loop.simps [simp del] skip_locals.simps [simp del]

lemma body_loop_decodes:
  assumes "end \<le> int (length (wdata d))"
  shows "case body_loop ff d end pos prev of Ok insts \<Rightarrow> body_decoded (wdata d) end pos insts
    | Diverge \<Rightarrow> \<exists>p\<ge>pos. endless_br_table (wdata d) p | _ \<Rightarrow> False"
  using assms
proof (induction ff d "end" pos prev rule: body_loop.induct)
  case (1 ff d e pos prev)
  show ?case
  proof (cases "int pos < e")
    case False
    then show ?thesis by (simp add: body_loop.simps [of ff d e pos] body_decoded_def)
  next
    case True
    with 1(2) have "pos < length (wdata d)" by linarith
    then show ?thesis
    proof (cases rule: decode_one_cases [of pos d ff prev])
      case (1 inst prev')
      note IH = "1.IH" [OF True \<open>decode_one ff d pos prev = Ok (inst, prev')\<close> refl "1.prems"]
      have "body_loop ff d e pos prev = obind (body_loop ff d e (pos + i_Size inst) prev') (\<lambda>insts. Ok (inst # insts))"
        using True 1(1) by (simp add: body_loop.simps [of ff d e pos])
      with IH 1 True show ?thesis
        by (cases "body_loop ff d e (pos + i_Size inst) prev'")
          (auto simp: body_decoded_def add.assoc intro: le_trans [OF le_add1])
    next
      case 2
      with True show ?thesis by (auto simp: body_loop.simps [of ff d e pos])
    qed
  qed
qed

lemma skip_locals_Ok:
  assumes "end \<le> int (length data)"
  shows "\<exists>p\<ge>pos. skip_locals data end i n pos = Ok p"
  using assms
proof (induction data "end" i n pos rule: skip_locals.induct)
  case (1 data e i n pos)
  show ?case
  proof (cases "i < n \<and> int pos < e")
    case True
    with 1 have "\<exists>p\<ge>pos + snd (wat_decodeULEB128 (drop pos data)) + 1.
        skip_locals data e (i + 1) n (pos + snd (wat_decodeULEB128 (drop pos data)) + 1) = Ok p" by simp
    with True 1(2) show ?thesis by (auto simp: skip_locals.simps [of data e i] from_int_in)
  qed (auto simp: skip_locals.simps [of data e i])
qed

lemma decodeFuncBody_cases:
  assumes "fb_start b \<le> length (wdata d)" and "fb_end b \<le> int (length (wdata d))"
  shows "case decodeFuncBody ff d b of
      Ok insts \<Rightarrow> \<exists>p\<ge>fb_start b. body_decoded (wdata d) (fb_end b) p insts
    | Diverge \<Rightarrow> \<exists>p\<ge>fb_start b. endless_br_table (wdata d) p
    | _ \<Rightarrow> False"
proof -
  obtain c n where cn: "wat_decodeULEB128 (drop (fb_start b) (wdata d)) = (c, n)" by fastforce
  obtain p where p: "p \<ge> fb_start b + n" "skip_locals (wdata d) (fb_end b) 0 (unat c) (fb_start b + n) = Ok p"
    using skip_locals_Ok [OF assms(2)] by blast
  have "decodeFuncBody ff d b = body_loop ff d (fb_end b) p None"
    using assms(1) cn p(2) by (simp add: decodeFuncBody_def from_int_in Let_def)
  with body_loop_decodes [OF assms(2), where ff = ff and pos = p and prev = None] p(1) show ?thesis
    by (auto split: outcome.splits intro: le_trans add_leD1 order_trans)
qed

section \<open>The bodies in order\<close>

lemma inst_tiles_offsets:
  "inst_tiles p insts \<Longrightarrow> sorted_wrt (<) (map i_Offset insts) \<and> list_all (\<lambda>i. p \<le> i_Offset i) insts"
proof (induction p insts rule: inst_tiles.induct)
  case (2 p i "is")
  then have "sorted_wrt (<) (map i_Offset is)" "list_all (\<lambda>j. p + i_Size i \<le> i_Offset j) is" by auto
  with 2(2) show ?case by (auto simp: list_all_iff intro: less_le_trans [of _ "p + i_Size i"] le_trans [OF le_add1])
qed simp

text \<open>No body has a negative size: it ends after its start, or where the section was cut.\<close>

definition bodies_forward :: "int \<Rightarrow> func_body_range list \<Rightarrow> bool" where
  "bodies_forward end bodies \<longleftrightarrow> list_all (\<lambda>b. int (fb_start b) \<le> fb_end b \<or> fb_end b = end) bodies"

definition bodies_ordered :: "bytes \<Rightarrow> int \<Rightarrow> int \<Rightarrow> func_body_range list \<Rightarrow> bool" where
  "bodies_ordered data pos end bodies \<longleftrightarrow> sorted_wrt (\<lambda>a b. fb_end a \<le> int (fb_start b)) bodies \<and>
     list_all (\<lambda>b. pos \<le> int (fb_start b) \<and> fb_start b \<le> length data \<and> fb_end b \<le> end) bodies"

lemma bytes_consumed: "snd (wat_decodeULEB128 data) \<le> length data"
proof -
  have "snd (uleb_loop data r s i) \<le> i + length data" for r s i
    by (induction data r s i rule: uleb_loop.induct) (auto simp: Let_def)
  then show ?thesis unfolding wat_decodeULEB128_def by (metis add_0)
qed

declare split_bodies.simps [simp del]

lemma split_bodies_ordered:
  "split_bodies i n data end pos = Ok bodies \<Longrightarrow> bodies_forward end bodies \<Longrightarrow> end \<le> int (length data) \<Longrightarrow>
     bodies_ordered data pos end bodies"
proof (induction i n data "end" pos arbitrary: bodies rule: split_bodies.induct)
  case (1 i n data e pos)
  show ?case
  proof (cases "i < n \<and> pos < e")
    case False
    with 1(2) show ?thesis by (auto simp: split_bodies.simps [of i n data e pos] bodies_ordered_def)
  next
    case True
    obtain sz m where d: "wat_decodeULEB128 (drop (nat pos) data) = (sz, m)" by fastforce
    define st where "st = pos + int m"
    define en where "en = min (wrap64 (st + sint sz)) e"
    from True 1(2) d obtain bs where pos: "0 \<le> pos" "pos \<le> int (length data)"
      and bs: "split_bodies (i + 1) n data e en = Ok bs" "bodies = \<lparr>fb_start = nat st, fb_end = en\<rparr> # bs"
      by (auto simp: split_bodies.simps [of i n data e pos] obind_eq_Ok Let_def st_def en_def)
    from bytes_consumed [of "drop (nat pos) data"] d pos have st: "pos \<le> st" "st \<le> int (length data)" "0 \<le> st"
      by (auto simp: st_def)
    have "bodies_ordered data en e bs"
    proof (rule "1.IH" [OF True _ refl d [symmetric] st_def en_def bs(1) _ 1(4)])
      show "from_int data pos = Ok (drop (nat pos) data)" using pos by simp
      show "bodies_forward e bs" using 1(3) bs(2) by (simp add: bodies_forward_def)
    qed
    moreover have "bs = [] \<or> st \<le> en"
    proof (cases "st \<le> en")
      case False
      then have "en = e" using 1(3) bs(2) st by (simp add: bodies_forward_def)
      then show ?thesis using bs(1) by (subst (asm) split_bodies.simps) simp
    qed simp
    moreover have "en \<le> e" by (simp add: en_def)
    ultimately show ?thesis using st bs(2) 1(4) by (auto simp: bodies_ordered_def list_all_iff)
  qed
qed

text \<open>The instructions of ordered bodies, in the order of the bodies, are in the order of their offsets.\<close>

lemma decoded_bodies_sorted:
  assumes "omap (decodeFuncBody ff d) bodies = Ok results" and "bodies_ordered (wdata d) pos end bodies"
    and "end \<le> int (length (wdata d))"
  shows "sorted_wrt (<) (map i_Offset (concat results)) \<and>
    list_all (\<lambda>i. list_ex (\<lambda>b. fb_start b \<le> i_Offset i \<and> int (i_Offset i) < fb_end b) bodies) (concat results)"
  using assms(1,2)
proof (induction bodies arbitrary: results)
  case (Cons b bodies)
  from Cons.prems(1) obtain insts rs where r: "decodeFuncBody ff d b = Ok insts"
    "omap (decodeFuncBody ff d) bodies = Ok rs" "results = insts # rs" by auto
  from Cons.prems(2) have b: "fb_start b \<le> length (wdata d)" "fb_end b \<le> end"
    "\<forall>c\<in>set bodies. fb_end b \<le> int (fb_start c)" "bodies_ordered (wdata d) pos end bodies"
    by (auto simp: bodies_ordered_def list_all_iff)
  from decodeFuncBody_cases [OF b(1), of ff] r(1) b(2) assms(3) obtain p where
    "fb_start b \<le> p" "body_decoded (wdata d) (fb_end b) p insts" by auto
  with inst_tiles_offsets [of p insts] have i: "sorted_wrt (<) (map i_Offset insts)"
    "\<forall>i\<in>set insts. fb_start b \<le> i_Offset i \<and> int (i_Offset i) < fb_end b"
    by (auto simp: body_decoded_def list_all_iff)
  note IH = Cons.IH [OF r(2) b(4)]
  have "i_Offset x < i_Offset y" if "x \<in> set insts" "y \<in> set (concat rs)" for x y
  proof -
    from IH that(2) obtain c where "c \<in> set bodies" "fb_start c \<le> i_Offset y" by (auto simp: list_all_iff list_ex_iff)
    with b(3) i(2) that(1) show ?thesis by fastforce
  qed
  with IH i r(3) show ?case by (auto simp: sorted_wrt_append list_all_iff)
qed auto

lemma sort_of_sorted:
  assumes "sorted_wrt (<) (map i_Offset xs)" and "mset (slice_sort xs) = mset xs"
    and "sorted (map i_Offset (slice_sort xs))"
  shows "slice_sort xs = xs"
proof (rule map_sorted_distinct_set_unique [where f = i_Offset])
  have d: "distinct (map i_Offset xs)" using assms(1) by (simp add: strict_sorted_iff)
  have s: "set (slice_sort xs) = set xs" using assms(2) by (rule mset_eq_setD)
  with d show "inj_on i_Offset (set (slice_sort xs) \<union> set xs)" by (simp add: distinct_map)
  show "sorted (map i_Offset xs)" using assms(1) by (simp add: strict_sorted_iff)
  show "distinct (map i_Offset (slice_sort xs))"
    using d mset_eq_imp_distinct_iff [of "map i_Offset (slice_sort xs)" "map i_Offset xs"] assms(2) by simp
  show "sorted (map i_Offset (slice_sort xs))" by (rule assms(3))
  show "distinct (map i_Offset xs)" by (rule d)
  show "set (slice_sort xs) = set xs" by (rule s)
qed

lemma parseFunctionBodies_ordered:
  assumes "parseFunctionBodies d start end = Ok bodies" and "bodies_forward end bodies"
  shows "bodies_ordered (wdata d) start end bodies" and "end \<le> int (length (wdata d))"
    and "\<not> bad_range (wdata d) start end"
proof -
  from assms(1) show g: "\<not> bad_range (wdata d) start end" by (auto simp: parseFunctionBodies_def)
  then show e: "end \<le> int (length (wdata d))" by (simp add: bad_range_def)
  obtain c n where "wat_decodeULEB128 (drop (nat start) (wdata d)) = (c, n)" by fastforce
  with assms(1) g have s: "split_bodies 0 (unat c) (wdata d) end (start + int n) = Ok bodies"
    by (auto simp: parseFunctionBodies_def obind_eq_Ok Let_def)
  from split_bodies_ordered [OF s assms(2) e] show "bodies_ordered (wdata d) start end bodies"
    by (auto simp: bodies_ordered_def list_all_iff)
qed

text \<open>C23. When no body has a negative size, decoding the bodies in parallel and sorting gives the
  instructions of the bodies one after the other, in the strict order of their offsets, whatever
  sort.Slice does with equal ones; it never panics.\<close>

theorem parallel_decoding:
  assumes sort: "\<And>xs. mset (slice_sort xs) = mset xs" "\<And>xs. sorted (map i_Offset (slice_sort xs))"
    and b: "parseFunctionBodies d start end = Ok bodies" "bodies_forward end bodies"
  shows "decodeInstructions ff slice_sort d start end =
      obind (omap (decodeFuncBody ff d) bodies) (\<lambda>results. Ok (concat results)) \<and>
    (case decodeInstructions ff slice_sort d start end of
       Ok insts \<Rightarrow> sorted_wrt (<) (map i_Offset insts) | Err _ \<Rightarrow> False | Panic \<Rightarrow> False | Diverge \<Rightarrow> True)"
proof -
  note o = parseFunctionBodies_ordered [OF b]
  have body: "case decodeFuncBody ff d x of Ok _ \<Rightarrow> True | Diverge \<Rightarrow> True | _ \<Rightarrow> False" if "x \<in> set bodies" for x
    using decodeFuncBody_cases [of x d ff] o that
    by (auto simp: bodies_ordered_def list_all_iff split: outcome.splits)
  have all: "case omap (decodeFuncBody ff d) bodies of Ok _ \<Rightarrow> True | Diverge \<Rightarrow> True | _ \<Rightarrow> False"
    using body by (induction bodies) (fastforce split: outcome.splits simp: obind_eq_Ok)+
  have D: "decodeInstructions ff slice_sort d start end = obind (omap (decodeFuncBody ff d) bodies) (\<lambda>results.
      if length bodies < parallelThreshold then Ok (concat results) else Ok (slice_sort (concat results)))"
    using o(3) b(1) by (simp add: decodeInstructions_def)
  show ?thesis
  proof (cases "omap (decodeFuncBody ff d) bodies")
    case (Ok results)
    with decoded_bodies_sorted [OF Ok o(1,2)] have s: "sorted_wrt (<) (map i_Offset (concat results))" by blast
    from sort_of_sorted [of _ slice_sort, OF s sort(1) sort(2)] have "slice_sort (concat results) = concat results" .
    with Ok D s show ?thesis by simp
  qed (use all D in simp_all)
qed

text \<open>A module of one function with the body \<open>i32.const 1; drop; end\<close>, from byte 13.\<close>

definition small_code :: disassembler where
  "small_code = \<lparr>wdata = [0, 0x61, 0x73, 0x6d, 1, 0, 0, 0, 10, 7, 1, 5, 0, 0x41, 1, 0x1a, 0x0b], importedFunctionCount = 0\<rparr>"

definition no_floats :: float_format where
  "no_floats = \<lparr>fmt_g32 = (\<lambda>_. ''f''), fmt_g64 = (\<lambda>_. ''f'')\<rparr>"

lemma parallel_decoding_witness:
  "decodeInstructions no_floats (sort_key i_Offset) small_code 10 17 =
     obind (omap (decodeFuncBody no_floats small_code) [\<lparr>fb_start = 12, fb_end = 17\<rparr>]) (\<lambda>results. Ok (concat results))"
proof -
  have "parseFunctionBodies small_code 10 17 = Ok [\<lparr>fb_start = 12, fb_end = 17\<rparr>]" by code_simp
  moreover have "bodies_forward 17 [\<lparr>fb_start = 12, fb_end = 17\<rparr>]" by code_simp
  ultimately show ?thesis
    using parallel_decoding [of "sort_key i_Offset" small_code 10 17 "[\<lparr>fb_start = 12, fb_end = 17\<rparr>]" no_floats] by simp
qed

text \<open>C24. On a body that starts and ends within the module decodeFuncBody does not panic: its
  instructions lie one after the other from a position in the body to its end, each with the
  opcode at its offset, or there is a br_table with the largest count, on which it does not
  return.\<close>

theorem decodeFuncBody_decodes:
  assumes "fb_start b \<le> length (wdata d)" and "fb_end b \<le> int (length (wdata d))"
  shows "case decodeFuncBody ff d b of
      Ok insts \<Rightarrow> \<exists>p\<ge>fb_start b. inst_tiles p insts \<and> fb_end b \<le> int (p + sum_list (map i_Size insts)) \<and>
        list_all (\<lambda>i. int (i_Offset i) < fb_end b \<and> i_Opcode i = wdata d ! i_Offset i) insts
    | Diverge \<Rightarrow> \<exists>p\<ge>fb_start b. endless_br_table (wdata d) p
    | Err _ \<Rightarrow> False | Panic \<Rightarrow> False"
  using decodeFuncBody_cases [OF assms, of ff] unfolding body_decoded_def by assumption

lemma decodeFuncBody_decodes_witness:
  "\<exists>insts p. decodeFuncBody no_floats small_code \<lparr>fb_start = 12, fb_end = 17\<rparr> = Ok insts \<and> 12 \<le> p \<and>
     inst_tiles p insts \<and> map Mnemonic insts = [''i32.const'', ''drop'', ''end'']"
proof -
  have "(case decodeFuncBody no_floats small_code \<lparr>fb_start = 12, fb_end = 17\<rparr> of
      Ok insts \<Rightarrow> map Mnemonic insts = [''i32.const'', ''drop'', ''end''] | _ \<Rightarrow> False)" by code_simp
  then obtain insts where i: "decodeFuncBody no_floats small_code \<lparr>fb_start = 12, fb_end = 17\<rparr> = Ok insts"
      "map Mnemonic insts = [''i32.const'', ''drop'', ''end'']"
    by (auto split: outcome.splits)
  have "length (wdata small_code) = 17" by code_simp
  with decodeFuncBody_decodes [of "\<lparr>fb_start = 12, fb_end = 17\<rparr>" small_code no_floats] i show ?thesis by auto
qed

section \<open>The window\<close>

text \<open>The last instruction at or before the target, in a list sorted by offset.\<close>

lemma target_index_spec:
  assumes "sorted_wrt (<) (map i_Offset insts)" and "insts \<noteq> []" and "i_Offset (hd insts) \<le> target"
  shows "target_index insts target < length insts \<and> i_Offset (insts ! target_index insts target) \<le> target \<and>
    list_all (\<lambda>i. i_Offset i \<le> target) (take (target_index insts target + 1) insts) \<and>
    list_all (\<lambda>i. target < i_Offset i) (drop (target_index insts target + 1) insts)"
proof -
  have mono: "i_Offset (insts ! i) < i_Offset (insts ! j)" if "i < j" "j < length insts" for i j
    using assms(1) that by (auto simp: sorted_wrt_iff_nth_less)
  define k where "k = length (takeWhile (\<lambda>i. i_Offset i \<le> target) insts) - 1"
  have tw: "takeWhile (\<lambda>i. i_Offset i \<le> target) insts \<noteq> []"
    using assms(2,3) by (cases insts) auto
  have k: "k < length insts" "i_Offset (insts ! k) \<le> target" "k + 1 \<ge> length insts \<or> target < i_Offset (insts ! (k + 1))"
  proof -
    have l: "k + 1 = length (takeWhile (\<lambda>i. i_Offset i \<le> target) insts)" using tw by (simp add: k_def)
    then show "k < length insts" using length_takeWhile_le [of "\<lambda>i. i_Offset i \<le> target" insts] by linarith
    show "i_Offset (insts ! k) \<le> target"
      using l nth_mem [of k "takeWhile (\<lambda>i. i_Offset i \<le> target) insts"]
      by (metis (mono_tags, lifting) less_add_one set_takeWhileD takeWhile_nth)
    show "k + 1 \<ge> length insts \<or> target < i_Offset (insts ! (k + 1))"
      using nth_length_takeWhile [of "\<lambda>i. i_Offset i \<le> target" insts] l by fastforce
  qed
  have it: "is_target insts target i \<longleftrightarrow> i = k" if "i < length insts" for i
  proof
    assume t: "is_target insts target i"
    have "\<not> i < k"
    proof
      assume "i < k"
      with k(1) have "i_Offset (insts ! (i + 1)) \<le> i_Offset (insts ! k)" "i_Offset (insts ! i) < i_Offset (insts ! k)"
        using mono [of i k] mono [of "i + 1" k] by (cases "i + 1 = k"; simp)+
      with t k(1,2) \<open>i < k\<close> show False by (auto simp: is_target_def)
    qed
    moreover have "\<not> k < i"
    proof
      assume "k < i"
      with k(3) that have "target < i_Offset (insts ! (k + 1))" by auto
      moreover have "i_Offset (insts ! (k + 1)) \<le> i_Offset (insts ! i)"
        using mono [of "k + 1" i] \<open>k < i\<close> that by (cases "k + 1 = i") auto
      ultimately show False using t by (auto simp: is_target_def)
    qed
    ultimately show "i = k" by simp
  qed (use k in \<open>auto simp: is_target_def\<close>)
  have "target_index insts target = k"
  proof -
    have "find (is_target insts target) [0..<length insts] = Some k"
      using it k(1) by (auto simp: find_Some_iff intro!: exI [of _ k])
    then show ?thesis by (simp add: target_index_def)
  qed
  moreover have "\<forall>i\<in>set (take (k + 1) insts). i_Offset i \<le> target"
  proof
    fix x assume "x \<in> set (take (k + 1) insts)"
    then obtain j where j: "j < k + 1" "x = insts ! j" by (auto simp: in_set_conv_nth)
    then have "i_Offset (insts ! j) \<le> i_Offset (insts ! k)" using mono [of j k] k(1) by (cases "j = k") auto
    with j k(2) show "i_Offset x \<le> target" by simp
  qed
  moreover have "\<forall>i\<in>set (drop (k + 1) insts). target < i_Offset i"
  proof
    fix x assume "x \<in> set (drop (k + 1) insts)"
    then obtain j where j: "j < length insts - (k + 1)" "x = insts ! (k + 1 + j)"
      by (auto simp: in_set_conv_nth)
    have "i_Offset (insts ! (k + 1)) \<le> i_Offset (insts ! (k + 1 + j))"
    proof (cases "j = 0")
      case False
      with j(1) have "k + 1 < k + 1 + j" "k + 1 + j < length insts" by simp_all
      from mono [OF this] show ?thesis by simp
    qed simp
    with k(3) j show "target < i_Offset x" by auto
  qed
  ultimately show ?thesis using k by (simp add: list_all_iff)
qed

lemma wrap64_small: "- (2 ^ 63) \<le> z \<Longrightarrow> z < 2 ^ 63 \<Longrightarrow> wrap64 z = z"
  unfolding wrap64_def by (rule signed_take_bit_int_eq_self) simp_all

lemma DisassembleAt_window:
  "DecodeAll ff slice_sort d = Ok insts \<Longrightarrow> insts \<noteq> [] \<Longrightarrow>
     DisassembleAt ff slice_sort d target c = context_window insts target c"
  by (auto simp: DecodeAll_def DisassembleAt_def obind_eq_Ok split: outcome.splits)

text \<open>For instructions in the order of their offsets, the snippet around a target is a window
  of at most c instructions before and after the last instruction at or before the target.\<close>

theorem DisassembleAt_target:
  assumes all: "DecodeAll ff slice_sort d = Ok insts" and sorted: "sorted_wrt (<) (map i_Offset insts)"
    and ne: "insts \<noteq> []" "i_Offset (hd insts) \<le> target" and c: "0 \<le> c" "c < 2 ^ 62" "length insts < 2 ^ 62"
  shows "\<exists>s before after. DisassembleAt ff slice_sort d target c = Ok s \<and>
    insts = before @ s_Instructions s @ after \<and> 0 \<le> TargetIndex s \<and> TargetIndex s \<le> c \<and>
    TargetIndex s < int (length (s_Instructions s)) \<and> int (length (s_Instructions s)) \<le> 2 * c + 1 \<and>
    i_Offset (s_Instructions s ! nat (TargetIndex s)) \<le> target \<and>
    list_all (\<lambda>i. i_Offset i \<le> target) (before @ take (nat (TargetIndex s) + 1) (s_Instructions s)) \<and>
    list_all (\<lambda>i. target < i_Offset i) (drop (nat (TargetIndex s) + 1) (s_Instructions s) @ after)"
proof -
  define k where "k = target_index insts target"
  define m where "m = nat c"
  note K = target_index_spec [OF sorted ne, folded k_def]
  define st where "st = k - m"
  define en where "en = min (k + m + 1) (length insts)"
  have kl: "int k < 2 ^ 62" "int k < int (length insts)"
    using K c(3) by (simp_all add: less_trans [of k "length insts"])
  have cm: "c = int m" "int m < 2 ^ 62" using c by (simp_all add: m_def)
  have start: "max (wrap64 (int k - c)) 0 = int st"
    using wrap64_small [of "int k - c"] kl cm by (simp add: st_def)
  have endd: "min (wrap64 (int k + c + 1)) (int (length insts)) = int en"
    using wrap64_small [of "int k + c + 1"] kl cm by (simp add: en_def)
  have le: "st \<le> k" "k < en" "en \<le> length insts" using kl by (auto simp: st_def en_def)
  have ns: "nat (int en - int st) = en - st" by linarith
  have w: "context_window insts target c = Ok \<lparr>s_Instructions = take (en - st) (drop st insts),
      TargetOffset = target, TargetIndex = int (k - st), FuncIndex = 0\<rparr>"
    using le unfolding context_window_def Let_def k_def [symmetric] start endd
    by (simp add: of_nat_diff ns)
  let ?s = "\<lparr>s_Instructions = take (en - st) (drop st insts), TargetOffset = target,
      TargetIndex = int (k - st), FuncIndex = 0\<rparr>"
  have split: "insts = take st insts @ take (en - st) (drop st insts) @ drop en insts"
    using le by (metis append_take_drop_id drop_drop le_add_diff_inverse2 less_imp_le_nat le_trans)
  have pre: "take st insts @ take (k - st + 1) (take (en - st) (drop st insts)) = take (k + 1) insts"
    using le take_add [of st "k - st + 1" insts] by (simp add: min_def)
  have post: "drop (k - st + 1) (take (en - st) (drop st insts)) @ drop en insts = drop (k + 1) insts"
  proof -
    have "drop (k - st + 1) (take (en - st) (drop st insts)) = take (en - (k + 1)) (drop (k + 1) insts)"
      using le by (simp add: drop_take add.commute)
    moreover have "drop en insts = drop (en - (k + 1)) (drop (k + 1) insts)" using le by simp
    ultimately show ?thesis by (metis append_take_drop_id)
  qed
  have nth: "take (en - st) (drop st insts) ! (k - st) = insts ! k" using le by simp
  have ti: "nat (TargetIndex ?s) = k - st" "s_Instructions ?s = take (en - st) (drop st insts)" by simp_all
  show ?thesis
  proof (intro exI conjI)
    show "i_Offset (s_Instructions ?s ! nat (TargetIndex ?s)) \<le> target" unfolding ti nth using K by blast
    show "list_all (\<lambda>i. i_Offset i \<le> target) (take st insts @ take (nat (TargetIndex ?s) + 1) (s_Instructions ?s))"
      unfolding ti pre using K by blast
    show "list_all (\<lambda>i. target < i_Offset i) (drop (nat (TargetIndex ?s) + 1) (s_Instructions ?s) @ drop en insts)"
      unfolding ti post using K by blast
    show "DisassembleAt ff slice_sort d target c = Ok ?s" using DisassembleAt_window [OF all ne(1)] w by simp
    show "insts = take st insts @ s_Instructions ?s @ drop en insts" using split by simp
  qed (use le cm in \<open>simp_all add: st_def en_def\<close>)
qed

section \<open>Modules that stop the disassembler\<close>

text \<open>
  A code section whose count of bodies is \<open>2 ^ 64 - 1\<close>, and an import section whose first name has
  the length \<open>2 ^ 63\<close>. The validation of the sections finds nothing wrong with either.
\<close>

definition many_bodies_module :: bytes where
  "many_bodies_module = [0, 0x61, 0x73, 0x6d, 1, 0, 0, 0,
     10, 10, 0xff, 0xff, 0xff, 0xff, 0xff, 0xff, 0xff, 0xff, 0xff, 1]"

definition long_name_module :: bytes where
  "long_name_module = [0, 0x61, 0x73, 0x6d, 1, 0, 0, 0,
     2, 12, 1, 0x80, 0x80, 0x80, 0x80, 0x80, 0x80, 0x80, 0x80, 0x80, 1, 0]"

text \<open>C22. Two modules that the disassembler takes for valid make it panic: a code section with the
  largest count of bodies, and an import whose name has the length 2^63; the fallback shown to
  the user panics on both, at every offset.\<close>

theorem valid_modules_panic:
  "IsValidWasm many_bodies_module = Ok True \<and> IsValidWasm long_name_module = Ok True \<and>
   NewDisassembler long_name_module = Panic \<and>
   FormatFallback ff slice_sort many_bodies_module offset lines = Panic \<and>
   FormatFallback ff slice_sort long_name_module offset lines = Panic"
proof -
  have v: "IsValidWasm many_bodies_module = Ok True" "IsValidWasm long_name_module = Ok True" by code_simp+
  have n: "NewDisassembler many_bodies_module = Ok \<lparr>wdata = many_bodies_module, importedFunctionCount = 0\<rparr>"
    "NewDisassembler long_name_module = Panic" by code_simp+
  have c: "findCodeSection \<lparr>wdata = many_bodies_module, importedFunctionCount = 0\<rparr> = Ok (10, 20)"
    "bad_range many_bodies_module 10 20 = False" by code_simp+
  have l: "length many_bodies_module = 20" "wat_decodeULEB128 (drop 10 many_bodies_module) = (- 1, 10)" by code_simp+
  have "make_bodies (- 1) = Panic" by code_simp
  then have p: "parseFunctionBodies \<lparr>wdata = many_bodies_module, importedFunctionCount = 0\<rparr> 10 20 = Panic"
    using c(2) l by (simp add: parseFunctionBodies_def from_int_in)
  have "DisassembleAt ff slice_sort \<lparr>wdata = many_bodies_module, importedFunctionCount = 0\<rparr> offset k = Panic" for k
    using v(1) c p by (simp add: DisassembleAt_def decodeInstructions_def)
  with v n show ?thesis by (simp add: FormatFallback_def)
qed

text \<open>Loads and stores without a mnemonic are taken to have no operands, which are then decoded as opcodes.\<close>

lemma narrow_loads_unknown:
  "decodeOpcode ff 0x2d rest = Ok (''unknown_0x2d'', '''', 0) \<and>
   decodeOpcode ff 0x38 rest = Ok (''unknown_0x38'', '''', 0)"
proof -
  have "fmt_hex 2 45 = ''2d''" "fmt_hex 2 56 = ''38''" by code_simp+
  then show ?thesis
    by (simp add: decodeOpcode_def plain_ops_def block_ops_def index_ops_def memory_ops_def size_ops_def)
qed

lemma DisassembleAt_target_witness:
  "\<exists>s. DisassembleAt no_floats (sort_key i_Offset) small_code 14 1 = Ok s \<and>
     i_Offset (s_Instructions s ! nat (TargetIndex s)) \<le> 14 \<and> int (length (s_Instructions s)) \<le> 3"
proof -
  have "(case DecodeAll no_floats (sort_key i_Offset) small_code of Ok insts \<Rightarrow> map i_Offset insts = [13, 15, 16] | _ \<Rightarrow> False)"
    by code_simp
  then obtain insts where i: "DecodeAll no_floats (sort_key i_Offset) small_code = Ok insts" "map i_Offset insts = [13, 15, 16]"
    by (cases "DecodeAll no_floats (sort_key i_Offset) small_code") auto
  then have "insts \<noteq> []" "i_Offset (hd insts) \<le> 14" "sorted_wrt (<) (map i_Offset insts)" "length insts < 2 ^ 62"
    by (auto dest: arg_cong [of _ _ length])
  with DisassembleAt_target [OF i(1), of 14 1] show ?thesis by fastforce
qed

section \<open>The bound on the turns of a walk\<close>

text \<open>One turn of \<open>find_section\<close>.\<close>

definition section_turn :: "u8 \<Rightarrow> bytes \<Rightarrow> int \<Rightarrow> int + (wat_error, (int \<times> u64) option) outcome" where
  "section_turn sid data pos =
     (if \<not> pos < int (length data) then Inr (Ok None)
      else if pos < 0 then Inr Panic
      else let (sz, n) = wat_decodeULEB128 (drop (nat pos + 1) data); p = pos + 1 + int n in
        if data ! nat pos = sid then Inr (Ok (Some (p, sz))) else Inl (wrap64 (p + sint sz)))"

lemma find_section_run:
  "find_section turns sid data pos = (case run (section_turn sid data) turns pos of None \<Rightarrow> Diverge | Some r \<Rightarrow> r)"
proof (induction turns arbitrary: pos)
  case (Suc turns)
  consider "\<not> pos < int (length data)" | "pos < int (length data)" "pos < 0" | "pos < int (length data)" "0 \<le> pos"
    by linarith
  then show ?case
  proof cases
    case 3
    obtain sz n where "wat_decodeULEB128 (drop (nat pos + 1) data) = (sz, n)" by fastforce
    with 3 Suc.IH show ?thesis
      by (simp add: section_turn_def [of sid data pos] at_int_def from_int_in nat_add_distrib nat_less_iff Let_def)
  qed (simp_all add: section_turn_def [of sid data pos] at_int_def)
qed simp

text \<open>One turn more than there are bytes: a walk that has not ended then does not end.\<close>

lemma find_section_turns:
  assumes "length data < turns"
  shows "find_section turns sid data pos = find_section (length data + 1) sid data pos"
proof -
  let ?A = "{0..<int (length data)}"
  have A: "finite ?A" "card ?A = length data" by simp_all
  have go: "section_turn sid data p = Inl p' \<Longrightarrow> p \<in> ?A" for p p'
    by (auto simp: section_turn_def Let_def split: if_splits prod.splits)
  show ?thesis
  proof (cases "run (section_turn sid data) turns pos")
    case None
    then have "run (section_turn sid data) (length data + 1) pos = None"
      using run_more [of "section_turn sid data" "length data + 1" pos _ turns] assms by (cases "run (section_turn sid data) (length data + 1) pos") auto
    with None show ?thesis by (simp add: find_section_run)
  next
    case (Some r)
    from run_turns [OF A(1) go this] A(2) have "run (section_turn sid data) (length data + 1) pos = Some r" by simp
    with Some show ?thesis by (simp add: find_section_run)
  qed
qed

end
