(* ===== verification/MemoryDiff.thy ===== *)
theory MemoryDiff
  imports GoPrelude
begin

text \<open>
  \<open>internal/snapshot/memory_diff.go\<close>: the comparison of two dumps of linear memory. \<open>DiffMemory\<close> walks
  over both dumps once and collects the differing bytes into regions, merging two runs of changes
  that are at most the threshold apart; \<open>DiffMemoryFull\<close> compares one range byte by byte. The state of
  the walk (the closed regions, the open one, the length of the unchanged run behind it and the
  number of changes) is the record \<open>dm_state\<close>, one turn of the loop is \<open>dm_step\<close>. The lemmas give the
  regions exactly: which positions they cover, what they hold, how far apart they are; and that
  writing them over the first dump gives the second.
\<close>

section \<open>Data\<close>

record memory_region =
  reg_offset :: nat
  reg_length :: nat
  bytes_a :: bytes
  bytes_b :: bytes

record memory_diff_result =
  size_a :: nat
  size_b :: nat
  total_changed :: nat
  changed_regions :: "memory_region list"

record dm_state =
  dm_regions :: "memory_region list"
  dm_current :: "memory_region option"
  dm_gap :: nat
  dm_total :: nat

text \<open>A byte of a dump, 0 past its end.\<close>

definition byte_at :: "bytes \<Rightarrow> nat \<Rightarrow> u8" where
  "byte_at xs i = (if i < length xs then xs ! i else 0)"

definition byte_differs :: "bytes \<Rightarrow> bytes \<Rightarrow> nat \<Rightarrow> bool" where
  "byte_differs a b i \<longleftrightarrow> (i < length a) \<noteq> (i < length b) \<or> byte_at a i \<noteq> byte_at b i"

section \<open>DiffMemory\<close>

text \<open>
  The open region when position \<open>i\<close> differs: a new one, or the current one with the unchanged bytes
  of the gap appended.
\<close>

definition open_region :: "bytes \<Rightarrow> bytes \<Rightarrow> nat \<Rightarrow> dm_state \<Rightarrow> memory_region" where
  "open_region a b i s =
     (case dm_current s of
        None \<Rightarrow> \<lparr>reg_offset = i, reg_length = 0, bytes_a = [], bytes_b = []\<rparr>
      | Some r \<Rightarrow>
          if dm_gap s > 0
          then r\<lparr>bytes_a := bytes_a r @ map (byte_at a) [i - dm_gap s..<i],
                 bytes_b := bytes_b r @ map (byte_at b) [i - dm_gap s..<i]\<rparr>
          else r)"

definition dm_step :: "bytes \<Rightarrow> bytes \<Rightarrow> int \<Rightarrow> nat \<Rightarrow> dm_state \<Rightarrow> dm_state" where
  "dm_step a b t i s =
     (if byte_differs a b i then
        (let r = open_region a b i s;
             as = bytes_a r @ [byte_at a i];
             r' = r\<lparr>bytes_a := as, bytes_b := bytes_b r @ [byte_at b i], reg_length := length as\<rparr>
         in s\<lparr>dm_total := dm_total s + 1, dm_current := Some r', dm_gap := 0\<rparr>)
      else
        (case dm_current s of
           None \<Rightarrow> s
         | Some r \<Rightarrow>
             if int (dm_gap s + 1) > t
             then s\<lparr>dm_regions := dm_regions s @ [r], dm_current := None, dm_gap := 0\<rparr>
             else s\<lparr>dm_gap := dm_gap s + 1\<rparr>))"

definition dm_init :: dm_state where
  "dm_init = \<lparr>dm_regions = [], dm_current = None, dm_gap = 0, dm_total = 0\<rparr>"

definition dm_walk :: "bytes \<Rightarrow> bytes \<Rightarrow> int \<Rightarrow> nat \<Rightarrow> dm_state" where
  "dm_walk a b t n = fold (dm_step a b t) [0..<n] dm_init"

text \<open>The threshold in force: 16 unless the caller gives a positive one.\<close>

definition merge_threshold :: "int \<Rightarrow> int" where
  "merge_threshold t = (if t \<le> 0 then 16 else t)"

definition DiffMemory :: "bytes \<Rightarrow> bytes \<Rightarrow> int \<Rightarrow> memory_diff_result" where
  "DiffMemory a b t =
     (let n = max (length a) (length b);
          s = dm_walk a b (merge_threshold t) n
      in if n = 0 then \<lparr>size_a = length a, size_b = length b, total_changed = 0, changed_regions = []\<rparr>
         else \<lparr>size_a = length a, size_b = length b, total_changed = dm_total s,
               changed_regions = dm_regions s @ (case dm_current s of None \<Rightarrow> [] | Some r \<Rightarrow> [r])\<rparr>)"

section \<open>DiffMemoryFull\<close>

text \<open>Addition on Go's 64-bit \<open>int\<close>, and \<open>xs[i:j]\<close> with bounds that may be negative.\<close>

definition int64_add :: "int \<Rightarrow> int \<Rightarrow> int" where
  "int64_add x y = (x + y + 9223372036854775808) mod 18446744073709551616 - 9223372036854775808"

definition gslice_int :: "'a list \<Rightarrow> int \<Rightarrow> int \<Rightarrow> ('e, 'a list) outcome" where
  "gslice_int xs i j = (if i < 0 \<or> j < 0 then Panic else gslice xs (nat i) (nat j))"

text \<open>The part of one dump inside the range, cut at the end of the dump.\<close>

definition range_of :: "bytes \<Rightarrow> int \<Rightarrow> int \<Rightarrow> bytes may_panic" where
  "range_of xs offset e =
     (if offset < int (length xs) then gslice_int xs offset (min e (int (length xs))) else Ok [])"

text \<open>\<open>make([]byte, n)\<close> followed by \<open>copy\<close>.\<close>

definition pad_to :: "nat \<Rightarrow> bytes \<Rightarrow> bytes" where
  "pad_to n xs = take n xs @ replicate (n - length xs) 0"

definition DiffMemoryFull :: "bytes \<Rightarrow> bytes \<Rightarrow> int \<Rightarrow> int \<Rightarrow> memory_diff_result may_panic" where
  "DiffMemoryFull a b offset0 len =
     (let offset = (if offset0 < 0 then 0 else offset0);
          n = int (max (length a) (length b))
      in if offset \<ge> n
         then Ok \<lparr>size_a = length a, size_b = length b, total_changed = 0, changed_regions = []\<rparr>
         else
           let e = min (int64_add offset len) n
           in obind (range_of a offset e) (\<lambda>sa.
              obind (range_of b offset e) (\<lambda>sb.
              if e < offset then Panic
              else
                let k = nat (e - offset); pa = pad_to k sa; pb = pad_to k sb
                in Ok \<lparr>size_a = length a, size_b = length b,
                       total_changed = length (filter (\<lambda>i. pa ! i \<noteq> pb ! i) [0..<k]),
                       changed_regions = [\<lparr>reg_offset = nat offset, reg_length = k,
                                           bytes_a = pa, bytes_b = pb\<rparr>]\<rparr>)))"

section \<open>What the regions are\<close>

definition reg_end :: "memory_region \<Rightarrow> nat" where
  "reg_end r = reg_offset r + reg_length r"

definition covered :: "memory_region list \<Rightarrow> nat \<Rightarrow> bool" where
  "covered rs i \<longleftrightarrow> (\<exists>r\<in>set rs. reg_offset r \<le> i \<and> i < reg_end r)"

text \<open>
  A region is not empty, holds the bytes of both dumps at its positions, starts and ends with a
  change, and has no run of more than \<open>T\<close> unchanged positions.
\<close>

definition region_ok :: "bytes \<Rightarrow> bytes \<Rightarrow> nat \<Rightarrow> memory_region \<Rightarrow> bool" where
  "region_ok a b T r \<longleftrightarrow>
     0 < reg_length r
   \<and> bytes_a r = map (byte_at a) [reg_offset r..<reg_end r]
   \<and> bytes_b r = map (byte_at b) [reg_offset r..<reg_end r]
   \<and> byte_differs a b (reg_offset r) \<and> byte_differs a b (reg_end r - 1)
   \<and> (\<forall>i. reg_offset r \<le> i \<and> i + T < reg_end r \<longrightarrow> (\<exists>j. i \<le> j \<and> j \<le> i + T \<and> byte_differs a b j))"

definition apart :: "nat \<Rightarrow> memory_region \<Rightarrow> memory_region \<Rightarrow> bool" where
  "apart T r r' \<longleftrightarrow> reg_end r + T < reg_offset r'"

definition dm_all :: "dm_state \<Rightarrow> memory_region list" where
  "dm_all s = dm_regions s @ (case dm_current s of None \<Rightarrow> [] | Some r \<Rightarrow> [r])"

text \<open>The state after \<open>n\<close> turns.\<close>

definition dm_inv :: "bytes \<Rightarrow> bytes \<Rightarrow> nat \<Rightarrow> nat \<Rightarrow> dm_state \<Rightarrow> bool" where
  "dm_inv a b T n s \<longleftrightarrow>
     sorted_wrt (apart T) (dm_all s) \<and> (\<forall>r\<in>set (dm_all s). region_ok a b T r)
   \<and> (\<forall>i<n. byte_differs a b i \<longrightarrow> covered (dm_all s) i)
   \<and> dm_total s = card {i. i < n \<and> byte_differs a b i}
   \<and> (case dm_current s of
        None \<Rightarrow> \<forall>r\<in>set (dm_regions s). reg_end r + T < n
      | Some r \<Rightarrow> reg_end r + dm_gap s = n \<and> dm_gap s \<le> T
                 \<and> (\<forall>j. reg_end r \<le> j \<and> j < n \<longrightarrow> \<not> byte_differs a b j))"

lemma covered_append [simp]: "covered (rs @ rs') i \<longleftrightarrow> covered rs i \<or> covered rs' i"
  by (auto simp: covered_def)

lemma covered_Nil [simp]: "\<not> covered [] i"
  and covered_one [simp]: "covered [r] i \<longleftrightarrow> reg_offset r \<le> i \<and> i < reg_end r"
  by (simp_all add: covered_def)

lemma changes_Suc:
  "card {i. i < Suc n \<and> byte_differs a b i} =
   card {i. i < n \<and> byte_differs a b i} + (if byte_differs a b n then 1 else 0)"
proof -
  have "{i. i < Suc n \<and> byte_differs a b i} =
        (if byte_differs a b n then insert n {i. i < n \<and> byte_differs a b i}
         else {i. i < n \<and> byte_differs a b i})"
    by (auto simp: less_Suc_eq)
  then show ?thesis by simp
qed

lemma region_new:
  assumes "byte_differs a b n"
  shows "region_ok a b T \<lparr>reg_offset = n, reg_length = 1, bytes_a = [byte_at a n], bytes_b = [byte_at b n]\<rparr>"
  using assms by (auto simp: region_ok_def reg_end_def intro!: exI [of _ n])

text \<open>Extending a region over a gap of at most \<open>T\<close> unchanged positions up to the next change.\<close>

lemma region_extend:
  assumes r: "region_ok a b T r" and e: "reg_end r + g = n" and g: "g \<le> T" and n: "byte_differs a b n"
  shows "region_ok a b T (r\<lparr>bytes_a := bytes_a r @ map (byte_at a) [reg_end r..<n] @ [byte_at a n],
                            bytes_b := bytes_b r @ map (byte_at b) [reg_end r..<n] @ [byte_at b n],
                            reg_length := Suc n - reg_offset r\<rparr>)" (is "region_ok a b T ?r")
proof -
  have le: "reg_offset r \<le> reg_end r" "reg_end r \<le> n" using e by (auto simp: reg_end_def)
  then have re: "reg_end ?r = Suc n" "reg_offset ?r = reg_offset r" by (auto simp: reg_end_def)
  have up: "[reg_offset r..<Suc n] = [reg_offset r..<reg_end r] @ [reg_end r..<n] @ [n]"
    using le upt_add_eq_append [of "reg_offset r" "reg_end r" "n - reg_end r"] by simp
  have "\<exists>j. i \<le> j \<and> j \<le> i + T \<and> byte_differs a b j"
    if "reg_offset r \<le> i" "i + T < Suc n" for i
  proof (cases "i + T < reg_end r")
    case True
    with that r show ?thesis by (simp add: region_ok_def)
  next
    case False
    show ?thesis
    proof (cases "i < reg_end r")
      case True
      with False r have "i \<le> reg_end r - 1" "reg_end r - 1 \<le> i + T" "byte_differs a b (reg_end r - 1)"
        by (auto simp: region_ok_def)
      then show ?thesis by blast
    next
      case outside: False
      with that e g n have "i \<le> n" "n \<le> i + T" by auto
      with n show ?thesis by blast
    qed
  qed
  with r n le re up show ?thesis by (simp add: region_ok_def)
qed

text \<open>The region the next change opens or extends.\<close>

definition changed_region :: "bytes \<Rightarrow> bytes \<Rightarrow> nat \<Rightarrow> dm_state \<Rightarrow> memory_region" where
  "changed_region a b n s =
     (let r = open_region a b n s; as = bytes_a r @ [byte_at a n]
      in r\<lparr>bytes_a := as, bytes_b := bytes_b r @ [byte_at b n], reg_length := length as\<rparr>)"

lemma dm_step_change:
  "byte_differs a b n \<Longrightarrow>
   dm_step a b t n s = s\<lparr>dm_total := dm_total s + 1, dm_current := Some (changed_region a b n s), dm_gap := 0\<rparr>"
  by (simp add: dm_step_def changed_region_def Let_def)

lemma changed_region_ok:
  assumes inv: "dm_inv a b T n s" and n: "byte_differs a b n"
  shows "region_ok a b T (changed_region a b n s) \<and> reg_end (changed_region a b n s) = Suc n"
    and "reg_offset (changed_region a b n s) = (case dm_current s of None \<Rightarrow> n | Some r \<Rightarrow> reg_offset r)"
proof -
  show "region_ok a b T (changed_region a b n s) \<and> reg_end (changed_region a b n s) = Suc n"
  proof (cases "dm_current s")
    case None
    then show ?thesis
      using region_new [OF n] by (simp add: changed_region_def open_region_def reg_end_def)
  next
    case (Some r)
    with inv have r: "region_ok a b T r" and e: "reg_end r + dm_gap s = n" and g: "dm_gap s \<le> T"
      by (auto simp: dm_inv_def dm_all_def)
    from r e have len: "length (bytes_a r) = reg_length r" "n - dm_gap s = reg_end r"
      "reg_end r \<le> n" "reg_offset r \<le> reg_end r"
      by (auto simp: region_ok_def reg_end_def)
    have "changed_region a b n s =
       r\<lparr>bytes_a := bytes_a r @ map (byte_at a) [reg_end r..<n] @ [byte_at a n],
         bytes_b := bytes_b r @ map (byte_at b) [reg_end r..<n] @ [byte_at b n],
         reg_length := Suc n - reg_offset r\<rparr>"
      using Some e len by (auto simp: changed_region_def open_region_def reg_end_def)
    with region_extend [OF r e g n] len show ?thesis by (simp add: reg_end_def)
  qed
  show "reg_offset (changed_region a b n s) = (case dm_current s of None \<Rightarrow> n | Some r \<Rightarrow> reg_offset r)"
    by (auto simp: changed_region_def open_region_def Let_def split: option.split)
qed

lemma dm_step_inv_change:
  assumes inv: "dm_inv a b T n s" and n: "byte_differs a b n"
  shows "dm_inv a b T (Suc n) (dm_step a b t n s)"
proof -
  let ?r = "changed_region a b n s"
  have r: "region_ok a b T ?r" "reg_end ?r = Suc n" using changed_region_ok(1) [OF inv n] by simp_all
  have off: "reg_offset ?r = (case dm_current s of None \<Rightarrow> n | Some r \<Rightarrow> reg_offset r)"
    by (rule changed_region_ok(2) [OF inv n])
  have all: "dm_all (dm_step a b t n s) = dm_regions s @ [?r]"
    by (simp add: dm_step_change [OF n] dm_all_def)
  have old: "sorted_wrt (apart T) (dm_regions s)" "\<forall>x\<in>set (dm_regions s). region_ok a b T x \<and> apart T x ?r"
    using inv off by (auto simp: dm_inv_def dm_all_def sorted_wrt_append apart_def split: option.splits)
  have "covered (dm_regions s @ [?r]) i" if i: "i < Suc n" "byte_differs a b i" for i
  proof (cases "i = n")
    case True
    then show ?thesis using r off inv by (auto simp: dm_inv_def split: option.splits)
       (auto simp: reg_end_def)
  next
    case False
    with i inv have "covered (dm_all s) i" by (simp add: dm_inv_def)
    then show ?thesis
      using r off inv i by (auto simp: dm_all_def dm_inv_def split: option.splits)
  qed
  with r old inv n show ?thesis
    unfolding dm_inv_def all changes_Suc by (auto simp: dm_step_change sorted_wrt_append)
qed

lemma dm_step_inv_same:
  assumes inv: "dm_inv a b T n s" and n: "\<not> byte_differs a b n" and t: "T = nat t" "0 \<le> t"
  shows "dm_inv a b T (Suc n) (dm_step a b t n s)"
proof (cases "dm_current s")
  case None
  with inv n show ?thesis
    unfolding dm_inv_def changes_Suc by (auto simp: dm_step_def less_Suc_eq dm_all_def)
next
  case (Some r)
  have gap: "int (dm_gap s + 1) > t \<longleftrightarrow> dm_gap s + 1 > T" using t by linarith
  show ?thesis
  proof (cases "dm_gap s + 1 > T")
    case True
    with Some gap n have st: "dm_step a b t n s =
        s\<lparr>dm_regions := dm_regions s @ [r], dm_current := None, dm_gap := 0\<rparr>"
      by (simp add: dm_step_def)
    from Some True inv have "\<forall>x\<in>set (dm_regions s @ [r]). reg_end x + T < Suc n"
      by (fastforce simp: dm_inv_def dm_all_def sorted_wrt_append apart_def reg_end_def)
    with Some inv n show ?thesis
      unfolding dm_inv_def st changes_Suc by (auto simp: dm_all_def less_Suc_eq)
  next
    case False
    with Some gap n have st: "dm_step a b t n s = s\<lparr>dm_gap := dm_gap s + 1\<rparr>"
      by (simp add: dm_step_def)
    from Some False inv n show ?thesis
      unfolding dm_inv_def st changes_Suc by (auto simp: dm_all_def less_Suc_eq)
  qed
qed

lemma dm_walk_inv: "T = nat t \<Longrightarrow> 0 \<le> t \<Longrightarrow> dm_inv a b T n (dm_walk a b t n)"
proof (induction n)
  case 0
  then show ?case by (simp add: dm_walk_def dm_init_def dm_inv_def dm_all_def)
next
  case (Suc n)
  then have inv: "dm_inv a b T n (dm_walk a b t n)" by simp
  have "dm_walk a b t (Suc n) = dm_step a b t n (dm_walk a b t n)" by (simp add: dm_walk_def)
  with dm_step_inv_change [OF inv] dm_step_inv_same [OF inv] Suc.prems show ?case
    by (cases "byte_differs a b n") simp_all
qed

lemma byte_differs_bound: "byte_differs a b i \<Longrightarrow> i < max (length a) (length b)"
  by (auto simp: byte_differs_def byte_at_def split: if_splits)

lemma DiffMemory_walk:
  "changed_regions (DiffMemory a b t) = dm_all (dm_walk a b (merge_threshold t) (max (length a) (length b)))"
  "total_changed (DiffMemory a b t) = dm_total (dm_walk a b (merge_threshold t) (max (length a) (length b)))"
  by (auto simp: DiffMemory_def dm_all_def Let_def dm_walk_def dm_init_def)

lemma DiffMemory_inv:
  defines "n a b \<equiv> max (length a) (length b)" and "T t \<equiv> nat (merge_threshold t)"
  shows "dm_inv a b (T t) (n a b) (dm_walk a b (merge_threshold t) (n a b))"
  unfolding T_def by (rule dm_walk_inv) (simp_all add: merge_threshold_def)

lemma DiffMemory_ok:
  "sorted_wrt (apart (nat (merge_threshold t))) (changed_regions (DiffMemory a b t))"
  "r \<in> set (changed_regions (DiffMemory a b t)) \<Longrightarrow> region_ok a b (nat (merge_threshold t)) r"
  "byte_differs a b i \<Longrightarrow> covered (changed_regions (DiffMemory a b t)) i"
  "total_changed (DiffMemory a b t) = card {i. byte_differs a b i}"
proof -
  note inv = DiffMemory_inv [of a b t, unfolded dm_inv_def, folded DiffMemory_walk]
  show "sorted_wrt (apart (nat (merge_threshold t))) (changed_regions (DiffMemory a b t))"
    and "r \<in> set (changed_regions (DiffMemory a b t)) \<Longrightarrow> region_ok a b (nat (merge_threshold t)) r"
    using inv by blast+
  show "byte_differs a b i \<Longrightarrow> covered (changed_regions (DiffMemory a b t)) i"
    using inv byte_differs_bound by blast
  have "{i. i < max (length a) (length b) \<and> byte_differs a b i} = {i. byte_differs a b i}"
    using byte_differs_bound by blast
  with inv show "total_changed (DiffMemory a b t) = card {i. byte_differs a b i}" by simp
qed

lemma region_in_bounds:
  assumes "region_ok a b T r"
  shows "reg_end r \<le> max (length a) (length b)"
  using assms byte_differs_bound [of a b "reg_end r - 1"] by (auto simp: region_ok_def)

lemma sorted_wrt_two:
  assumes "sorted_wrt P xs" "x \<in> set xs" "y \<in> set xs"
  shows "x = y \<or> P x y \<or> P y x"
  using assms by (metis in_set_conv_nth linorder_neqE_nat sorted_wrt_nth_less)

text \<open>
  A position is in a region exactly when it lies between two changes (or is one) with at most the
  threshold of positions between them.
\<close>

definition near_change :: "bytes \<Rightarrow> bytes \<Rightarrow> nat \<Rightarrow> nat \<Rightarrow> bool" where
  "near_change a b T i \<longleftrightarrow>
     (\<exists>p q. p \<le> i \<and> i \<le> q \<and> q \<le> p + T + 1 \<and> byte_differs a b p \<and> byte_differs a b q)"

lemma region_near:
  assumes r: "region_ok a b T r" and i: "reg_offset r \<le> i" "i < reg_end r"
  shows "near_change a b T i"
proof -
  define p where "p = Max {j. j \<le> i \<and> byte_differs a b j}"
  have fin: "finite {j. j \<le> i \<and> byte_differs a b j}" by simp
  have p: "p \<le> i \<and> byte_differs a b p" and p_max: "\<And>j. j \<le> i \<Longrightarrow> byte_differs a b j \<Longrightarrow> j \<le> p"
    using Max_in [OF fin] Max_ge [OF fin] r i unfolding p_def region_ok_def by blast+
  show ?thesis
  proof (cases "p = i")
    case True
    then show ?thesis using p unfolding near_change_def by (intro exI [of _ i]) simp
  next
    case False
    have "reg_offset r \<le> p" using p_max r i by (auto simp: region_ok_def)
    have ex: "\<exists>q. Suc p \<le> q \<and> q \<le> Suc p + T \<and> byte_differs a b q"
    proof (cases "Suc p + T < reg_end r")
      case True
      with r \<open>reg_offset r \<le> p\<close> show ?thesis unfolding region_ok_def by (metis le_SucI)
    next
      case near: False
      from r have "byte_differs a b (reg_end r - 1)" by (simp add: region_ok_def)
      with near i p False show ?thesis by (intro exI [of _ "reg_end r - 1"]) auto
    qed
    then obtain q where q: "Suc p \<le> q" "q \<le> Suc p + T" "byte_differs a b q" by blast
    with p_max [of q] have "i \<le> q" by (cases "q \<le> i") auto
    with p q show ?thesis unfolding near_change_def by (intro exI [of _ p] exI [of _ q]) simp
  qed
qed

lemma near_covered:
  assumes near: "near_change a b (nat (merge_threshold t)) i"
  shows "covered (changed_regions (DiffMemory a b t)) i"
proof -
  let ?rs = "changed_regions (DiffMemory a b t)" and ?T = "nat (merge_threshold t)"
  from near obtain p q where pq: "p \<le> i" "i \<le> q" "q \<le> p + ?T + 1" "byte_differs a b p" "byte_differs a b q"
    by (auto simp: near_change_def)
  from DiffMemory_ok(3) [OF pq(4)] DiffMemory_ok(3) [OF pq(5)] obtain r r' where
    r: "r \<in> set ?rs" "reg_offset r \<le> p" "p < reg_end r" and
    r': "r' \<in> set ?rs" "reg_offset r' \<le> q" "q < reg_end r'"
    unfolding covered_def by blast
  from sorted_wrt_two [OF DiffMemory_ok(1) r(1) r'(1)] show ?thesis
  proof (elim disjE)
    assume "r = r'"
    with r r' pq have "reg_offset r \<le> i" "i < reg_end r" by auto
    with r(1) show ?thesis unfolding covered_def by blast
  qed (use r r' pq in \<open>auto simp: apart_def\<close>)
qed

text \<open>C25. The regions that DiffMemory returns hold the bytes of both dumps at their positions,
  start and end with a change, are more than the threshold apart, and cover exactly the
  positions that are changed or lie between two changes at most the threshold apart; the total
  is the number of changed positions.\<close>

theorem DiffMemory_regions:
  "let d = DiffMemory a b t; T = nat (merge_threshold t) in
     sorted_wrt (apart T) (changed_regions d) \<and> list_all (region_ok a b T) (changed_regions d)
   \<and> (\<forall>i. covered (changed_regions d) i = near_change a b T i)
   \<and> total_changed d = card {i. byte_differs a b i}"
proof -
  have "covered (changed_regions (DiffMemory a b t)) i = near_change a b (nat (merge_threshold t)) i" for i
    using region_near DiffMemory_ok(2) near_covered unfolding covered_def by blast
  then show ?thesis by (simp add: Let_def DiffMemory_ok list_all_iff)
qed

section \<open>Writing the regions over the first dump\<close>

definition write_region :: "memory_region \<Rightarrow> bytes \<Rightarrow> bytes" where
  "write_region r xs = take (reg_offset r) xs @ bytes_b r @ drop (reg_end r) xs"

definition patch :: "memory_diff_result \<Rightarrow> bytes \<Rightarrow> bytes" where
  "patch d xs =
     take (size_b d) (fold write_region (changed_regions d) (xs @ replicate (size_b d - length xs) 0))"

lemma write_region_nth:
  assumes "region_ok a b T r" "reg_end r \<le> length xs"
  shows "length (write_region r xs) = length xs"
    and "i < length xs \<Longrightarrow>
         write_region r xs ! i = (if reg_offset r \<le> i \<and> i < reg_end r then byte_at b i else xs ! i)"
  using assms by (auto simp: write_region_def region_ok_def reg_end_def nth_append min_def)

lemma write_regions_nth:
  assumes "\<And>r. r \<in> set rs \<Longrightarrow> region_ok a b T r \<and> reg_end r \<le> length xs"
  shows "length (fold write_region rs xs) = length xs
       \<and> (\<forall>i<length xs. fold write_region rs xs ! i = (if covered rs i then byte_at b i else xs ! i))"
  using assms
proof (induction rs arbitrary: xs)
  case (Cons r rs)
  then have r: "region_ok a b T r" "reg_end r \<le> length xs" by auto
  note w = write_region_nth [OF r]
  from Cons.prems w have "\<And>r'. r' \<in> set rs \<Longrightarrow> region_ok a b T r' \<and> reg_end r' \<le> length (write_region r xs)"
    by simp
  from Cons.IH [OF this] w show ?case by (auto simp: covered_def)
qed simp

text \<open>C26. Writing the second dump's bytes of the regions over the first dump, extended with zeros
  or cut to the size of the second, gives the second dump.\<close>

theorem DiffMemory_patch: "patch (DiffMemory a b t) a = b"
proof -
  let ?d = "DiffMemory a b t" and ?n = "max (length a) (length b)"
  define xs where "xs = a @ replicate (length b - length a) 0"
  have sb: "size_b ?d = length b" by (simp add: DiffMemory_def Let_def)
  have len: "length xs = ?n" by (simp add: xs_def)
  have nth: "xs ! i = byte_at a i" if "i < ?n" for i
    using that by (auto simp: xs_def nth_append byte_at_def)
  have rs: "region_ok a b (nat (merge_threshold t)) r \<and> reg_end r \<le> length xs"
    if "r \<in> set (changed_regions ?d)" for r
    using DiffMemory_ok(2) [OF that] region_in_bounds len by auto
  note w = write_regions_nth [of "changed_regions ?d" a b "nat (merge_threshold t)" xs, OF rs]
  have "fold write_region (changed_regions ?d) xs ! i = byte_at b i" if "i < ?n" for i
  proof (cases "covered (changed_regions ?d) i")
    case False
    then have "\<not> byte_differs a b i" using DiffMemory_ok(3) by blast
    with that False w len nth show ?thesis by (simp add: byte_differs_def)
  qed (use that w len in simp)
  then have "take (length b) (fold write_region (changed_regions ?d) xs) = b"
    using w len by (intro nth_equalityI) (auto simp: byte_at_def)
  then show ?thesis by (simp add: patch_def sb xs_def)
qed

section \<open>The comparison of a range\<close>

lemma int64_add_small: "- 9223372036854775808 \<le> x + y \<Longrightarrow> x + y < 9223372036854775808 \<Longrightarrow> int64_add x y = x + y"
  by (simp add: int64_add_def)

lemma int64_add_over: "9223372036854775808 \<le> x + y \<Longrightarrow> x + y < 18446744073709551616 \<Longrightarrow>
    int64_add x y = x + y - 18446744073709551616"
proof -
  assume "9223372036854775808 \<le> x + y" "x + y < 18446744073709551616"
  then have "(x + y + 9223372036854775808 - 18446744073709551616) mod 18446744073709551616 =
      x + y + 9223372036854775808 - 18446744073709551616"
    by (intro mod_pos_pos_trivial) linarith+
  moreover have "(x + y + 9223372036854775808 - 18446744073709551616) mod 18446744073709551616 =
      (x + y + 9223372036854775808) mod 18446744073709551616"
    by (rule minus_mod_self2)
  ultimately show ?thesis unfolding int64_add_def by linarith
qed

lemma range_of_Ok:
  assumes "0 \<le> offset" "offset \<le> e"
  shows "\<exists>s. range_of xs offset e = Ok s \<and> s = take (nat (e - offset)) (drop (nat offset) xs)"
  using assms by (auto simp: range_of_def gslice_int_def gslice_def min_def nat_diff_distrib)

lemma range_of_neg: "e < offset \<Longrightarrow> 0 \<le> offset \<Longrightarrow> offset < int (length xs) \<Longrightarrow> range_of xs offset e = Panic"
  by (auto simp: range_of_def gslice_int_def gslice_def min_def)

lemma length_pad_to [simp]: "length (pad_to n xs) = n"
  by (simp add: pad_to_def)

lemma pad_to_nth: "i < n \<Longrightarrow> pad_to n (take n (drop o' xs)) ! i = byte_at xs (o' + i)"
  by (auto simp: pad_to_def byte_at_def nth_append min_def)

text \<open>On a range that starts inside a dump DiffMemoryFull returns the bytes of both dumps from the
  offset to the end of the range or of the longer dump, and the number of positions where they
  differ, when the length is not negative and offset + length fits in 64 bits; otherwise it panics,
  so the largest length asks for the rest of a dump only from offset 0.
\<close>

theorem DiffMemoryFull_outcome:
  assumes "0 \<le> offset" and "offset < int (max (length a) (length b))"
    and "int (max (length a) (length b)) < 9223372036854775808"
    and "- 9223372036854775808 \<le> len" and "len < 9223372036854775808"
  shows "DiffMemoryFull a b offset len =
    (if 0 \<le> len \<and> offset + len < 9223372036854775808
     then let k = nat (min (offset + len) (int (max (length a) (length b))) - offset);
              is = [nat offset..<nat offset + k]
          in Ok \<lparr>size_a = length a, size_b = length b,
                 total_changed = length (filter (\<lambda>i. byte_at a i \<noteq> byte_at b i) is),
                 changed_regions = [\<lparr>reg_offset = nat offset, reg_length = k,
                                     bytes_a = map (byte_at a) is, bytes_b = map (byte_at b) is\<rparr>]\<rparr>
     else Panic)"
proof (cases "0 \<le> len \<and> offset + len < 9223372036854775808")
  case True
  let ?n = "int (max (length a) (length b))"
  define e k where "e = min (offset + len) ?n" and "k = nat (e - offset)"
  have e: "min (int64_add offset len) ?n = e" "offset \<le> e"
    using True assms by (simp_all add: int64_add_small e_def)
  note ok = range_of_Ok [OF assms(1) e(2)]
  have pad: "pad_to k (take k (drop (nat offset) xs)) = map (byte_at xs) [nat offset..<nat offset + k]" for xs
    by (rule nth_equalityI) (simp_all add: pad_to_nth)
  have up: "filter (\<lambda>i. map (byte_at a) [nat offset..<nat offset + k] ! i \<noteq>
                        map (byte_at b) [nat offset..<nat offset + k] ! i) [0..<k] =
            filter (\<lambda>i. byte_at a (nat offset + i) \<noteq> byte_at b (nat offset + i)) [0..<k]"
    by (rule filter_cong) auto
  have "[nat offset..<nat offset + k] = map (\<lambda>i. i + nat offset) [0..<k]"
    by (simp only: map_add_upt add.commute [of "nat offset" k])
  then have cnt: "length (filter (\<lambda>i. byte_at a (nat offset + i) \<noteq> byte_at b (nat offset + i)) [0..<k]) =
             length (filter (\<lambda>i. byte_at a i \<noteq> byte_at b i) [nat offset..<nat offset + k])"
    by (simp add: filter_map comp_def add.commute)
  obtain sa sb where s: "range_of a offset e = Ok sa" "range_of b offset e = Ok sb"
    "sa = take k (drop (nat offset) a)" "sb = take k (drop (nat offset) b)"
    using ok [of a] ok [of b] unfolding k_def by blast
  have "DiffMemoryFull a b offset len = Ok \<lparr>size_a = length a, size_b = length b,
      total_changed = length (filter (\<lambda>i. pad_to k sa ! i \<noteq> pad_to k sb ! i) [0..<k]),
      changed_regions = [\<lparr>reg_offset = nat offset, reg_length = k,
                          bytes_a = pad_to k sa, bytes_b = pad_to k sb\<rparr>]\<rparr>"
    using assms(1,2) e(2) unfolding DiffMemoryFull_def Let_def
    by (simp add: e(1) [simplified] s(1,2) k_def)
  with True show ?thesis
    unfolding s(3,4) pad up cnt by (simp add: Let_def k_def e_def)
next
  case False
  let ?n = "int (max (length a) (length b))"
  have "int64_add offset len < offset"
  proof (cases "len < 0")
    case True
    with assms have "int64_add offset len = offset + len" by (intro int64_add_small) linarith+
    with True show ?thesis by simp
  next
    case pos: False
    with False assms have "int64_add offset len = offset + len - 18446744073709551616"
      by (intro int64_add_over) linarith+
    with assms show ?thesis by simp
  qed
  then have e: "min (int64_add offset len) ?n < offset" by linarith
  have "range_of xs offset (min (int64_add offset len) ?n) = Panic" if "offset < int (length xs)" for xs
    by (rule range_of_neg [OF e assms(1) that])
  moreover have "range_of xs offset (min (int64_add offset len) ?n) = Ok []" if "\<not> offset < int (length xs)" for xs
    using that by (simp add: range_of_def)
  ultimately have "obind (range_of a offset (min (int64_add offset len) ?n)) (\<lambda>sa.
      obind (range_of b offset (min (int64_add offset len) ?n)) (f sa)) = Panic" for f
    using assms(2) by (cases "offset < int (length a)") (auto simp: max_def split: if_splits)
  with assms(1,2) have "DiffMemoryFull a b offset len = Panic"
    unfolding DiffMemoryFull_def Let_def by simp
  with False show ?thesis by auto
qed

lemma DiffMemoryFull_outcome_witness:
  "DiffMemoryFull [1, 2, 3] [1, 9] 1 9223372036854775807 = Panic
 \<and> DiffMemoryFull [1, 2, 3] [1, 9] 1 2 =
   Ok \<lparr>size_a = 3, size_b = 2, total_changed = 2,
       changed_regions = [\<lparr>reg_offset = 1, reg_length = 2, bytes_a = [2, 3], bytes_b = [9, 0]\<rparr>]\<rparr>"
proof
  show "DiffMemoryFull [1, 2, 3] [1, 9] 1 9223372036854775807 = Panic"
    using DiffMemoryFull_outcome [of 1 "[1, 2, 3]" "[1, 9]" 9223372036854775807] by simp
  have "DiffMemoryFull [1, 2, 3] [1, 9] 1 2 =
    (let k = nat (min (1 + 2) (int (max (length [1, 2, 3 :: u8]) (length [1, 9 :: u8]))) - 1); is = [nat 1..<nat 1 + k]
     in Ok \<lparr>size_a = length [1, 2, 3 :: u8], size_b = length [1, 9 :: u8],
            total_changed = length (filter (\<lambda>i. byte_at [1, 2, 3] i \<noteq> byte_at [1, 9] i) is),
            changed_regions = [\<lparr>reg_offset = nat 1, reg_length = k,
                                bytes_a = map (byte_at [1, 2, 3]) is, bytes_b = map (byte_at [1, 9]) is\<rparr>]\<rparr>)"
    using DiffMemoryFull_outcome [of 1 "[1, 2, 3]" "[1, 9]" 2] by simp
  then show "DiffMemoryFull [1, 2, 3] [1, 9] 1 2 =
   Ok \<lparr>size_a = 3, size_b = 2, total_changed = 2,
       changed_regions = [\<lparr>reg_offset = 1, reg_length = 2, bytes_a = [2, 3], bytes_b = [9, 0]\<rparr>]\<rparr>"
    by (rule trans) code_simp
qed

text \<open>
  The two comparisons disagree on bytes that only one dump has: DiffMemory counts them, DiffMemoryFull
  compares them with 0.
\<close>

lemma DiffMemoryFull_missing_zero:
  "total_changed (DiffMemory [] [0] 0) = 1"
  "DiffMemoryFull [] [0] 0 1 = Ok \<lparr>size_a = 0, size_b = 1, total_changed = 0,
     changed_regions = [\<lparr>reg_offset = 0, reg_length = 1, bytes_a = [0], bytes_b = [0]\<rparr>]\<rparr>"
  by code_simp+

end
