(* ===== verification/Snapshots.thy ===== *)
theory Snapshots
  imports GoPrelude "HOL-Library.AList" "HOL-Library.List_Lexorder" "HOL-Library.Char_ord"
begin

text \<open>
  \<open>internal/snapshot\<close>: ledger snapshots (\<open>snapshot.go\<close>), their comparison (\<open>diff.go\<close>), schema
  versions and migration (\<open>schema.go\<close>, \<open>migration.go\<close>), and the checks around saving, loading and
  replaying one (\<open>persist.go\<close>, \<open>validate.go\<close>). A Go map is an association list with distinct keys,
  whose order stands for the order of iteration; strings are the lists of their bytes and compare
  lexicographically. SHA-256 is the parameter \<open>sha\<close>, from the bytes hashed to the hex digest; no
  theorem needs more of it than that it is a function. The JSON codec is a parameter of \<open>SavePersisted\<close>
  and \<open>LoadPersisted\<close>, the file system a map from paths to contents with system calls that may fail;
  \<open>Load\<close> is modelled from the value it unmarshals. \<open>sort.Slice\<close> is a stable sort here, Go leaves the order of equal keys open;
  the theorems that depend on it ask for distinct keys.
\<close>

section \<open>Data\<close>

text \<open>A \<open>LedgerEntryTuple\<close> is a slice of strings, meant to be a key and a value.\<close>

type_synonym ledger_entry = "string list"
type_synonym go_map = "(string \<times> string) list"

record ledger_snapshot =
  LedgerEntries :: "ledger_entry list"
  LinearMemory :: string
  Fingerprint :: string

definition em_key :: "ledger_entry \<Rightarrow> string" where
  "em_key e = e ! 0"

section \<open>Base64 of the linear memory\<close>

definition b64_alphabet :: string where
  "b64_alphabet = ''ABCDEFGHIJKLMNOPQRSTUVWXYZabcdefghijklmnopqrstuvwxyz0123456789+/''"

definition b64_char :: "nat \<Rightarrow> char" where
  "b64_char n = b64_alphabet ! (n mod 64)"

fun b64_encode :: "bytes \<Rightarrow> string" where
  "b64_encode [] = []"
| "b64_encode [a] =
     (let n = unat a * 65536 in [b64_char (n div 262144), b64_char (n div 4096), CHR ''='', CHR ''=''])"
| "b64_encode [a, b] =
     (let n = unat a * 65536 + unat b * 256
      in [b64_char (n div 262144), b64_char (n div 4096), b64_char (n div 64), CHR ''=''])"
| "b64_encode (a # b # c # r) =
     (let n = unat a * 65536 + unat b * 256 + unat c
      in b64_char (n div 262144) # b64_char (n div 4096) # b64_char (n div 64) # b64_char n # b64_encode r)"

fun index_from :: "nat \<Rightarrow> 'a list \<Rightarrow> 'a \<Rightarrow> nat option" where
  "index_from i [] y = None"
| "index_from i (x # xs) y = (if x = y then Some i else index_from (Suc i) xs y)"

definition b64_val :: "char \<Rightarrow> nat option" where
  "b64_val c = index_from 0 b64_alphabet c"

text \<open>The bytes of a quantum of four characters.\<close>

definition b64_quantum :: "nat \<Rightarrow> nat \<Rightarrow> nat \<Rightarrow> nat \<Rightarrow> bytes" where
  "b64_quantum w x y z =
     (let n = w * 262144 + x * 4096 + y * 64 + z
      in [word_of_nat (n div 65536), word_of_nat (n div 256), word_of_nat n])"

fun b64_chunks :: "string \<Rightarrow> bytes option" where
  "b64_chunks [] = Some []"
| "b64_chunks (w # x # y # z # r) =
     (case (b64_val w, b64_val x) of
        (Some w', Some x') \<Rightarrow>
          (if y = CHR ''='' then
             if z = CHR ''='' \<and> r = [] then Some (take 1 (b64_quantum w' x' 0 0)) else None
           else
             case b64_val y of
               None \<Rightarrow> None
             | Some y' \<Rightarrow>
                 if z = CHR ''='' then
                   if r = [] then Some (take 2 (b64_quantum w' x' y' 0)) else None
                 else
                   case (b64_val z, b64_chunks r) of
                     (Some z', Some bs) \<Rightarrow> Some (b64_quantum w' x' y' z' @ bs)
                   | _ \<Rightarrow> None)
      | _ \<Rightarrow> None)"
| "b64_chunks cs = None"

text \<open>\<open>DecodeString\<close> skips line breaks.\<close>

definition b64_decode :: "string \<Rightarrow> bytes option" where
  "b64_decode s = b64_chunks (filter (\<lambda>c. c \<noteq> CHR 0x0A \<and> c \<noteq> CHR 0x0D) s)"

definition encodeMemory :: "bytes \<Rightarrow> string" where
  "encodeMemory m = (if m = [] then [] else b64_encode m)"

definition DecodeLinearMemory :: "ledger_snapshot option \<Rightarrow> (unit, bytes) outcome" where
  "DecodeLinearMemory s =
     (case s of
        None \<Rightarrow> Ok []
      | Some s \<Rightarrow>
          if LinearMemory s = [] then Ok []
          else case b64_decode (LinearMemory s) of None \<Rightarrow> Err () | Some m \<Rightarrow> Ok m)"

section \<open>Fingerprint\<close>

text \<open>A length of four bytes, the most significant first, and the data.\<close>

definition writeFramed :: "string \<Rightarrow> string" where
  "writeFramed d =
     (let n = word_of_nat (length d) :: u32
      in [char_of (unat (drop_bit 24 n)), char_of (unat (drop_bit 16 n)),
          char_of (unat (drop_bit 8 n)), char_of (unat n)] @ d)"

definition framed_entry :: "ledger_entry \<Rightarrow> string" where
  "framed_entry e = (if length e < 2 then [] else writeFramed (e ! 0) @ writeFramed (e ! 1))"

text \<open>
  \<open>sort.Slice(entries, ... entries[i][0] < entries[j][0])\<close>: with two entries or more the comparison
  looks at the key of each of them.
\<close>

definition sort_entries :: "ledger_entry list \<Rightarrow> (unit, ledger_entry list) outcome" where
  "sort_entries es =
     (if 2 \<le> length es \<and> [] \<in> set es then Panic else Ok (sort_key em_key es))"

definition fingerprint_input :: "ledger_entry list \<Rightarrow> string" where
  "fingerprint_input es = concat (map framed_entry es)"

definition ComputeFingerprint :: "(string \<Rightarrow> string) \<Rightarrow> ledger_snapshot option \<Rightarrow> string may_panic" where
  "ComputeFingerprint sha s =
     (case s of
        None \<Rightarrow> Ok []
      | Some s \<Rightarrow> obind (sort_entries (LedgerEntries s)) (\<lambda>es. Ok (sha (fingerprint_input es))))"

section \<open>Maps\<close>

text \<open>A nil map gives no entries, as an empty one does.\<close>

definition FromMapWithOptions :: "(string \<Rightarrow> string) \<Rightarrow> go_map option \<Rightarrow> bytes \<Rightarrow> ledger_snapshot may_panic" where
  "FromMapWithOptions sha m memory =
     (let entries = (case m of None \<Rightarrow> [] | Some m \<Rightarrow> sort_key em_key (map (\<lambda>(k, v). [k, v]) m));
          s = \<lparr>LedgerEntries = entries, LinearMemory = encodeMemory memory, Fingerprint = []\<rparr>
      in obind (ComputeFingerprint sha (Some s)) (\<lambda>f. Ok (s\<lparr>Fingerprint := f\<rparr>)))"

definition FromMap :: "(string \<Rightarrow> string) \<Rightarrow> go_map option \<Rightarrow> ledger_snapshot may_panic" where
  "FromMap sha m = FromMapWithOptions sha m []"

definition ToMap :: "ledger_snapshot \<Rightarrow> go_map" where
  "ToMap s = fold (\<lambda>e m. if length e \<ge> 2 then AList.update (e ! 0) (e ! 1) m else m) (LedgerEntries s) []"

definition normalizedForSave :: "(string \<Rightarrow> string) \<Rightarrow> ledger_snapshot option \<Rightarrow> ledger_snapshot may_panic" where
  "normalizedForSave sha s =
     (case s of
        None \<Rightarrow> Ok \<lparr>LedgerEntries = [], LinearMemory = [], Fingerprint = []\<rparr>
      | Some s \<Rightarrow>
          let n = \<lparr>LedgerEntries = sort_key (\<lambda>e. if e = [] then [] else e ! 0) (LedgerEntries s),
                   LinearMemory = LinearMemory s, Fingerprint = []\<rparr>
          in obind (ComputeFingerprint sha (Some n)) (\<lambda>f. Ok (n\<lparr>Fingerprint := f\<rparr>)))"

text \<open>
  \<open>Load\<close> after the JSON is read: a missing fingerprint is filled in, one that differs is only logged
  (the second component).
\<close>

definition Load_fingerprint :: "(string \<Rightarrow> string) \<Rightarrow> ledger_snapshot \<Rightarrow> (ledger_snapshot \<times> bool) may_panic" where
  "Load_fingerprint sha s =
     obind (ComputeFingerprint sha (Some s)) (\<lambda>computed.
       if Fingerprint s = [] then Ok (s\<lparr>Fingerprint := computed\<rparr>, False)
       else Ok (s, Fingerprint s \<noteq> computed))"

section \<open>Differences between two snapshots\<close>

datatype change_kind = ChangeAdded | ChangeRemoved | ChangeModified

record entry_change =
  ec_key :: string
  ec_old :: string
  ec_new :: string
  ec_kind :: change_kind

record snapshot_diff =
  sd_added :: "entry_change list"
  sd_removed :: "entry_change list"
  sd_modified :: "entry_change list"
  BaseFingerprint :: string
  TargetFingerprint :: string

definition TotalChanges :: "snapshot_diff \<Rightarrow> nat" where
  "TotalChanges d = length (sd_added d) + length (sd_removed d) + length (sd_modified d)"

text \<open>The two loops over the maps, before the lists are sorted.\<close>

definition modified_of :: "go_map \<Rightarrow> go_map \<Rightarrow> entry_change list" where
  "modified_of base target = concat (map (\<lambda>(k, old).
     case map_of target k of
       Some new \<Rightarrow> if old \<noteq> new
         then [\<lparr>ec_key = k, ec_old = old, ec_new = new, ec_kind = ChangeModified\<rparr>] else []
     | None \<Rightarrow> []) base)"

definition removed_of :: "go_map \<Rightarrow> go_map \<Rightarrow> entry_change list" where
  "removed_of base target = concat (map (\<lambda>(k, old).
     case map_of target k of
       Some new \<Rightarrow> []
     | None \<Rightarrow> [\<lparr>ec_key = k, ec_old = old, ec_new = [], ec_kind = ChangeRemoved\<rparr>]) base)"

definition added_of :: "go_map \<Rightarrow> go_map \<Rightarrow> entry_change list" where
  "added_of base target = concat (map (\<lambda>(k, new).
     case map_of base k of
       Some old \<Rightarrow> []
     | None \<Rightarrow> [\<lparr>ec_key = k, ec_old = [], ec_new = new, ec_kind = ChangeAdded\<rparr>]) target)"

definition DiffSnapshots :: "ledger_snapshot \<Rightarrow> ledger_snapshot \<Rightarrow> snapshot_diff" where
  "DiffSnapshots base target =
     (let b = ToMap base; t = ToMap target
      in \<lparr>sd_added = sort_key ec_key (added_of b t),
          sd_removed = sort_key ec_key (removed_of b t),
          sd_modified = sort_key ec_key (modified_of b t),
          BaseFingerprint = Fingerprint base, TargetFingerprint = Fingerprint target\<rparr>)"

section \<open>Schema versions and migration\<close>

definition MinSupportedSchemaVersion :: int where
  "MinSupportedSchemaVersion = 1"

definition PersistSchemaVersion :: int where
  "PersistSchemaVersion = 2"

record schema_result =
  StoredVersion :: int
  NeedsUpgrade :: bool
  Unsupported :: bool
  FromFuture :: bool

definition classifySchemaVersion :: "int \<Rightarrow> schema_result" where
  "classifySchemaVersion stored =
     (let r = \<lparr>StoredVersion = stored, NeedsUpgrade = False, Unsupported = False, FromFuture = False\<rparr>
      in if stored = PersistSchemaVersion then r
         else if stored < MinSupportedSchemaVersion then r\<lparr>Unsupported := True\<rparr>
         else if stored < PersistSchemaVersion then r\<lparr>NeedsUpgrade := True\<rparr>
         else if stored > PersistSchemaVersion then r\<lparr>FromFuture := True, Unsupported := True\<rparr>
         else r)"

record log_entry =
  FromVersion :: int
  ToVersion :: int
  Description :: string
  AppliedAt :: int

record replay_metadata =
  SchemaVersion :: int
  GlassboxVersion :: string
  SavedAt :: int
  TxHash :: string
  Network :: string
  EnvelopeXdr :: string
  ResultMetaXdr :: string
  SourceHash :: string
  ParamFingerprint :: string
  LedgerFormat :: string
  MigrationLog :: "log_entry list"

record persisted =
  Metadata :: "replay_metadata option"
  Snapshot :: "ledger_snapshot option"

text \<open>
  The errors of \<open>schema.go\<close>, \<open>migration.go\<close>, \<open>persist.go\<close>, \<open>validate.go\<close> and \<open>DiffPersistedSnapshots\<close>, one
  constructor for each message.
\<close>

datatype snap_error =
    SchemaErr schema_result
  | NilSnapshotOrMetadata
  | NilSnapshot
  | NilMetadata
  | NoLedgerState
  | MissingTxHash
  | MissingNetwork
  | UnknownNetwork string
  | FingerprintMismatch string string
  | TxHashMismatch string string
  | NetworkMismatch string string
  | Stale bool bool
  | BaseNil
  | TargetNil
  | BaseMigration snap_error
  | TargetMigration snap_error
  | FileMigration snap_error
  | MarshalFailed
  | MkdirFailed
  | WriteFailed
  | RenameFailed
  | ReadFailed
  | ParseFailed

text \<open>A step of \<open>migrationTable\<close>: its target, its label and the change of the metadata.\<close>

definition migrationTable :: "(int \<times> string \<times> (replay_metadata \<Rightarrow> replay_metadata)) list" where
  "migrationTable =
     [(2, ''add ledger_format field (default base64-xdr)'',
       \<lambda>m. if LedgerFormat m = [] then m\<lparr>LedgerFormat := ''base64-xdr''\<rparr> else m)]"

fun apply_steps ::
  "int \<Rightarrow> (int \<times> string \<times> (replay_metadata \<Rightarrow> replay_metadata)) list \<Rightarrow> replay_metadata \<Rightarrow> log_entry list
   \<Rightarrow> replay_metadata \<times> log_entry list" where
  "apply_steps now [] m applied = (m, applied)"
| "apply_steps now ((v, d, f) # steps) m applied =
     (if v \<le> SchemaVersion m then apply_steps now steps m applied
      else if v > PersistSchemaVersion then (m, applied)
      else
        let e = \<lparr>FromVersion = SchemaVersion m, ToVersion = v, Description = d, AppliedAt = now\<rparr>;
            m' = (f m)\<lparr>SchemaVersion := v\<rparr>
        in apply_steps now steps (m'\<lparr>MigrationLog := MigrationLog m' @ [e]\<rparr>) (applied @ [e]))"

definition MigrateSnapshot :: "int \<Rightarrow> persisted option \<Rightarrow> (snap_error, persisted \<times> log_entry list) outcome" where
  "MigrateSnapshot now ps =
     (case ps of
        None \<Rightarrow> Err NilSnapshotOrMetadata
      | Some ps \<Rightarrow>
          (case Metadata ps of
             None \<Rightarrow> Err NilSnapshotOrMetadata
           | Some m \<Rightarrow>
               let r = classifySchemaVersion (SchemaVersion m)
               in if Unsupported r then Err (SchemaErr r)
                  else if \<not> NeedsUpgrade r then Ok (ps, [])
                  else
                    let (m', applied) = apply_steps now migrationTable m []
                    in Ok (ps\<lparr>Metadata := Some (m'\<lparr>SchemaVersion := PersistSchemaVersion\<rparr>)\<rparr>, applied)))"

text \<open>
  \<open>DiffPersistedSnapshots\<close>: both arguments are migrated in memory, then compared. The result has the
  two stored versions and the steps that ran on each side. The arguments are different objects.
\<close>

definition stored_version :: "persisted \<Rightarrow> int" where
  "stored_version ps = (case Metadata ps of None \<Rightarrow> 0 | Some m \<Rightarrow> SchemaVersion m)"

definition deref_snapshot :: "persisted \<Rightarrow> (snap_error, ledger_snapshot) outcome" where
  "deref_snapshot ps = (case Snapshot ps of None \<Rightarrow> Panic | Some s \<Rightarrow> Ok s)"

definition DiffPersistedSnapshots ::
  "int \<Rightarrow> persisted option \<Rightarrow> persisted option
   \<Rightarrow> (snap_error, snapshot_diff \<times> int \<times> int \<times> log_entry list \<times> log_entry list) outcome" where
  "DiffPersistedSnapshots now base target =
     (case base of None \<Rightarrow> Err BaseNil | Some b \<Rightarrow>
     (case target of None \<Rightarrow> Err TargetNil | Some t \<Rightarrow>
       obind (map_err BaseMigration (MigrateSnapshot now base)) (\<lambda>(b', bs).
       obind (map_err TargetMigration (MigrateSnapshot now target)) (\<lambda>(t', ts).
       obind (deref_snapshot b') (\<lambda>sb. obind (deref_snapshot t') (\<lambda>st.
         Ok (DiffSnapshots sb st, stored_version b, stored_version t, bs, ts)))))))"

section \<open>Saving, loading and validating\<close>

definition validNetworks :: "string list" where
  "validNetworks = [''testnet'', ''mainnet'', ''futurenet'']"

text \<open>The value \<open>SavePersisted\<close> marshals; \<open>SavedAt\<close> is 0 for the zero time.\<close>

definition SavePersisted_value ::
  "(string \<Rightarrow> string) \<Rightarrow> int \<Rightarrow> replay_metadata option \<Rightarrow> ledger_snapshot option \<Rightarrow> (snap_error, persisted) outcome" where
  "SavePersisted_value sha now meta snap =
     (case meta of
        None \<Rightarrow> Err NilMetadata
      | Some m \<Rightarrow>
          if TxHash m = [] then Err MissingTxHash
          else if Network m = [] then Err MissingNetwork
          else if Network m \<notin> set validNetworks then Err (UnknownNetwork (Network m))
          else
            obind (map_err (\<lambda>_. NilSnapshot)
                     (case snap of None \<Rightarrow> FromMap sha None | Some s \<Rightarrow> Ok s)) (\<lambda>s.
            let m = m\<lparr>SchemaVersion := PersistSchemaVersion\<rparr>;
                m = (if SavedAt m = 0 then m\<lparr>SavedAt := now\<rparr> else m);
                m = (if LedgerFormat m = [] then m\<lparr>LedgerFormat := ''base64-xdr''\<rparr> else m)
            in obind (map_err (\<lambda>_. NilSnapshot) (normalizedForSave sha (Some s))) (\<lambda>n.
                 Ok \<lparr>Metadata = Some m, Snapshot = Some n\<rparr>)))"

text \<open>\<open>LoadPersisted\<close> on the value that was unmarshalled.\<close>

definition LoadPersisted_value :: "int \<Rightarrow> persisted \<Rightarrow> (snap_error, persisted) outcome" where
  "LoadPersisted_value now ps =
     (case Metadata ps of
        None \<Rightarrow> Err NilMetadata
      | Some m \<Rightarrow>
          let r = classifySchemaVersion (SchemaVersion m)
          in if Unsupported r then Err (SchemaErr r)
             else
               obind (if NeedsUpgrade r then map_err FileMigration (MigrateSnapshot now (Some ps))
                      else Ok (ps, [])) (\<lambda>(ps, _).
               case Metadata ps of
                 None \<Rightarrow> Panic
               | Some m \<Rightarrow>
                   if TxHash m = [] then Err MissingTxHash
                   else if Network m = [] then Err MissingNetwork
                   else if Network m \<notin> set validNetworks then Err (UnknownNetwork (Network m))
                   else if Snapshot ps = None then Err NoLedgerState
                   else Ok ps))"

text \<open>
  The two functions on files: \<open>marshal\<close> and \<open>unmarshal\<close> are \<open>encoding/json\<close>, \<open>fl\<close> says which system calls
  fail, and \<open>part\<close> what a failing write leaves of the temporary file.
\<close>

datatype file_call = MkdirAll | WriteTemp | RenameTemp | ReadSnapshot

type_synonym file_system = "string \<rightharpoonup> string"

definition write_renamed ::
  "(file_call \<Rightarrow> bool) \<Rightarrow> nat \<Rightarrow> string \<Rightarrow> string \<Rightarrow> file_system \<Rightarrow> (snap_error, unit) outcome \<times> file_system" where
  "write_renamed fl part path data fs =
     (let tmp = path @ ''.tmp'' in
      if fl MkdirAll then (Err MkdirFailed, fs)
      else if fl WriteTemp then (Err WriteFailed, fs(tmp \<mapsto> take part data))
      else if fl RenameTemp then (Err RenameFailed, fs(tmp := None))
      else (Ok (), fs(tmp := None, path \<mapsto> data)))"

definition SavePersisted ::
  "(persisted \<Rightarrow> string option) \<Rightarrow> (file_call \<Rightarrow> bool) \<Rightarrow> nat \<Rightarrow> (string \<Rightarrow> string) \<Rightarrow> int \<Rightarrow> string
   \<Rightarrow> replay_metadata option \<Rightarrow> ledger_snapshot option \<Rightarrow> file_system \<Rightarrow> (snap_error, unit) outcome \<times> file_system" where
  "SavePersisted marshal fl part sha now path meta snap fs =
     (case SavePersisted_value sha now meta snap of
        Ok ps \<Rightarrow> (case marshal ps of None \<Rightarrow> (Err MarshalFailed, fs)
                  | Some data \<Rightarrow> write_renamed fl part path data fs)
      | Err e \<Rightarrow> (Err e, fs) | Panic \<Rightarrow> (Panic, fs) | Diverge \<Rightarrow> (Diverge, fs))"

definition LoadPersisted ::
  "(string \<Rightarrow> persisted option) \<Rightarrow> (file_call \<Rightarrow> bool) \<Rightarrow> int \<Rightarrow> string \<Rightarrow> file_system \<Rightarrow> (snap_error, persisted) outcome" where
  "LoadPersisted unmarshal fl now path fs =
     (case (if fl ReadSnapshot then None else fs path) of None \<Rightarrow> Err ReadFailed
      | Some data \<Rightarrow> (case unmarshal data of None \<Rightarrow> Err ParseFailed | Some ps \<Rightarrow> LoadPersisted_value now ps))"

text \<open>The check of the stored fingerprint, shared by \<open>Validate\<close> and \<open>ValidateSnapshotBeforeReplay\<close>.\<close>

definition check_fingerprint :: "(string \<Rightarrow> string) \<Rightarrow> ledger_snapshot \<Rightarrow> (snap_error, unit) outcome" where
  "check_fingerprint sha s =
     obind (map_err (\<lambda>_. NilSnapshot) (ComputeFingerprint sha (Some s))) (\<lambda>computed.
       if Fingerprint s \<noteq> [] \<and> Fingerprint s \<noteq> computed
       then Err (FingerprintMismatch (Fingerprint s) computed) else Ok ())"

definition Validate_persisted ::
  "(string \<Rightarrow> string) \<Rightarrow> persisted \<Rightarrow> string \<Rightarrow> string \<Rightarrow> (snap_error, unit) outcome" where
  "Validate_persisted sha ps tx net =
     (case Snapshot ps of
        None \<Rightarrow> Err NilSnapshot
      | Some s \<Rightarrow>
          obind (check_fingerprint sha s) (\<lambda>_.
          obind (if tx = [] then Ok () else
                 case Metadata ps of None \<Rightarrow> Panic
                 | Some m \<Rightarrow> if TxHash m \<noteq> tx then Err (TxHashMismatch (TxHash m) tx) else Ok ()) (\<lambda>_.
          if net = [] then Ok () else
            case Metadata ps of None \<Rightarrow> Panic
            | Some m \<Rightarrow> if Network m \<noteq> net then Err (NetworkMismatch (Network m) net) else Ok ())))"

text \<open>\<open>hashStringMap\<close>: the text that is hashed, \<open>key=value\<close> and a line break for each key in order.\<close>

definition string_map_input :: "go_map \<Rightarrow> string" where
  "string_map_input m =
     concat (map (\<lambda>k. k @ ''='' @ (case map_of m k of None \<Rightarrow> [] | Some v \<Rightarrow> v) @ [CHR 0x0A]) (sort (map fst m)))"

definition hashStringMap :: "(string \<Rightarrow> string) \<Rightarrow> go_map option \<Rightarrow> string" where
  "hashStringMap sha m =
     (case m of None \<Rightarrow> [] | Some m \<Rightarrow> if m = [] then [] else sha (string_map_input m))"

definition IsStale :: "(string \<Rightarrow> string) \<Rightarrow> replay_metadata \<Rightarrow> go_map option \<Rightarrow> string \<Rightarrow> bool" where
  "IsStale sha m params source \<longleftrightarrow>
     ParamFingerprint m \<noteq> [] \<and> ParamFingerprint m \<noteq> hashStringMap sha params
   \<or> SourceHash m \<noteq> [] \<and> source \<noteq> [] \<and> SourceHash m \<noteq> source"

definition ValidateSnapshotBeforeReplay ::
  "(string \<Rightarrow> string) \<Rightarrow> persisted option \<Rightarrow> string \<Rightarrow> string \<Rightarrow> go_map option \<Rightarrow> string \<Rightarrow> (snap_error, unit) outcome" where
  "ValidateSnapshotBeforeReplay sha ps tx net params source =
     (case ps of None \<Rightarrow> Err NilSnapshot | Some ps \<Rightarrow>
     (case Metadata ps of None \<Rightarrow> Err NilMetadata | Some m \<Rightarrow>
     (case Snapshot ps of None \<Rightarrow> Err NoLedgerState | Some s \<Rightarrow>
        obind (check_fingerprint sha s) (\<lambda>_.
        if tx \<noteq> [] \<and> TxHash m \<noteq> tx then Err (TxHashMismatch (TxHash m) tx)
        else if net \<noteq> [] \<and> Network m \<noteq> net then Err (NetworkMismatch (Network m) net)
        else if IsStale sha m params source then
          Err (Stale (params \<noteq> None \<and> ParamFingerprint m \<noteq> [] \<and> ParamFingerprint m \<noteq> hashStringMap sha params)
                     (source \<noteq> [] \<and> SourceHash m \<noteq> [] \<and> SourceHash m \<noteq> source))
        else Ok ()))))"

section \<open>Maps as association lists\<close>

lemma map_of_update_fold:
  "map_of (fold (\<lambda>e m. if length e \<ge> 2 then AList.update (e ! 0) (e ! 1) m else m) es m) =
   map_of m ++ map_of (rev (map (\<lambda>e. (e ! 0, e ! 1)) (filter (\<lambda>e. length e \<ge> 2) es)))"
proof (induction es arbitrary: m)
  case (Cons e es)
  have "(m'(k \<mapsto> v)) ++ n = m' ++ ([k \<mapsto> v] ++ n)" for m' n :: "string \<rightharpoonup> string" and k v
    by (rule ext) (auto simp: map_add_def split: option.split)
  with Cons show ?case
    by (simp add: update_conv' map_add_upd_left fun_upd_def map_add_def fun_eq_iff split: option.split)
qed simp

lemma distinct_ToMap: "distinct (map fst (ToMap s))"
proof -
  have "distinct (map fst m) \<Longrightarrow> distinct (map fst
    (fold (\<lambda>e m. if length e \<ge> 2 then AList.update (e ! 0) (e ! 1) m else m) es m))" for es m
    by (induction es arbitrary: m) (simp_all add: distinct_update)
  from this [of "[]"] show ?thesis by (simp add: ToMap_def)
qed

lemma map_of_eq_set:
  assumes "distinct (map fst xs)" "distinct (map fst ys)"
  shows "map_of xs = map_of ys \<longleftrightarrow> set xs = set ys"
proof
  assume "map_of xs = map_of ys"
  then show "set xs = set ys"
    by (metis assms graph_map_of_if_distinct_dom)
qed (use assms map_of_inject_set in blast)

definition kv :: "ledger_entry \<Rightarrow> string \<times> string" where
  "kv e = (e ! 0, e ! 1)"

text \<open>Every entry is a key and a value, no key twice, both short enough for a 32-bit length.\<close>

definition proper_entries :: "ledger_entry list \<Rightarrow> bool" where
  "proper_entries es \<longleftrightarrow>
     (\<forall>e\<in>set es. 2 \<le> length e \<and> length (e ! 0) < 2 ^ 32 \<and> length (e ! 1) < 2 ^ 32)
   \<and> distinct (map em_key es)"

lemma map_of_ToMap: 
  assumes "\<forall>e\<in>set (LedgerEntries s). 2 \<le> length e" "distinct (map em_key (LedgerEntries s))"
  shows "map_of (ToMap s) = map_of (map kv (LedgerEntries s))"
proof -
  let ?l = "map kv (LedgerEntries s)"
  have "fst \<circ> kv = em_key" by (auto simp: kv_def em_key_def)
  with assms(2) have "distinct (map fst (rev ?l))" "distinct (map fst ?l)"
    by (simp_all add: rev_map [symmetric])
  then have "map_of (rev ?l) = map_of ?l" by (subst map_of_eq_set) simp_all
  moreover have "filter (\<lambda>e. length e \<ge> 2) (LedgerEntries s) = LedgerEntries s"
    using assms(1) by (simp add: filter_id_conv)
  ultimately show ?thesis by (simp add: ToMap_def map_of_update_fold kv_def [abs_def])
qed

section \<open>Framing\<close>

lemma char_of_eq_iff: "(char_of (m :: nat) = char_of n) = (m mod 256 = n mod 256)"
  by (simp add: char_of_eq_iff take_bit_eq_mod)

lemma four_digits:
  assumes "x < (2 :: nat) ^ 32"
  shows "x = (x div 16777216) mod 256 * 16777216 + (x div 65536) mod 256 * 65536 + (x div 256) mod 256 * 256 + x mod 256"
proof -
  define a b c where "a = x div 256" and "b = a div 256" and "c = b div 256"
  have d: "x div 65536 = b" "x div 16777216 = c"
    using div_mult2_eq [of x 256 256] div_mult2_eq [of x 65536 256] by (simp_all add: a_def b_def c_def)
  have "x = a * 256 + x mod 256" "a = b * 256 + a mod 256" "b = c * 256 + b mod 256"
    unfolding a_def b_def c_def by presburger+
  moreover have "c mod 256 = c" using assms d(2) by auto
  ultimately have "x = c mod 256 * 16777216 + b mod 256 * 65536 + a mod 256 * 256 + x mod 256" by linarith
  then show ?thesis by (simp only: d a_def)
qed

lemma frame_length_inj:
  assumes "m < 2 ^ 32" "n < 2 ^ 32" and "take 4 (writeFramed d) = take 4 (writeFramed d')"
    "m = length d" "n = length d'"
  shows "m = n"
proof -
  have "unat (drop_bit k (word_of_nat x :: u32)) = x div 2 ^ k" if "x < 2 ^ 32" for x k
  proof -
    have "unat (drop_bit k (word_of_nat x :: u32)) = drop_bit k (unat (word_of_nat x :: u32))"
      by (rule unat_drop_bit_eq)
    also have "unat (word_of_nat x :: u32) = x" using that by (simp add: unat_of_nat)
    finally show ?thesis by (simp only: drop_bit_eq_div)
  qed
  from this [of m 24] this [of m 16] this [of m 8] this [of m 0] this [of n 24] this [of n 16] this [of n 8] this [of n 0]
  have "m div 16777216 mod 256 = n div 16777216 mod 256 \<and> m div 65536 mod 256 = n div 65536 mod 256
      \<and> m div 256 mod 256 = n div 256 mod 256 \<and> m mod 256 = n mod 256"
    using assms by (simp add: writeFramed_def Let_def char_of_eq_iff)
  then show ?thesis
    using four_digits [OF assms(1)] four_digits [OF assms(2)] by argo
qed

lemma writeFramed_inj:
  assumes "length d < 2 ^ 32" "length d' < 2 ^ 32" and eq: "writeFramed d @ r = writeFramed d' @ r'"
  shows "d = d' \<and> r = r'"
proof -
  have len4: "length (writeFramed x) = 4 + length x" "drop 4 (writeFramed x) = x" for x
    by (simp_all add: writeFramed_def Let_def)
  from eq have "take 4 (writeFramed d @ r) = take 4 (writeFramed d' @ r')" by simp
  then have "take 4 (writeFramed d) = take 4 (writeFramed d')" by (simp add: len4)
  then have "length d = length d'" using frame_length_inj assms by blast
  then have "length (writeFramed d) = length (writeFramed d')" by (simp add: len4)
  with eq have "writeFramed d = writeFramed d'" "r = r'" by (simp_all)
  then show ?thesis using len4(2) by metis
qed

lemma fingerprint_input_inj:
  assumes "\<forall>e\<in>set es. 2 \<le> length e \<and> length (e ! 0) < 2 ^ 32 \<and> length (e ! 1) < 2 ^ 32"
    and "\<forall>e\<in>set es'. 2 \<le> length e \<and> length (e ! 0) < 2 ^ 32 \<and> length (e ! 1) < 2 ^ 32"
  shows "fingerprint_input es = fingerprint_input es' \<longleftrightarrow> map kv es = map kv es'"
proof
  have nonempty: "2 \<le> length e \<Longrightarrow> framed_entry e \<noteq> []" for e
    by (simp add: framed_entry_def writeFramed_def Let_def)
  show "map kv es = map kv es'" if "fingerprint_input es = fingerprint_input es'"
    using that assms
  proof (induction es arbitrary: es')
    case Nil
    with nonempty show ?case by (cases es') (auto simp: fingerprint_input_def)
  next
    case (Cons e es)
    then obtain e' es'' where es': "es' = e' # es''"
      using nonempty by (cases es') (auto simp: fingerprint_input_def)
    from Cons.prems es' have "writeFramed (e ! 0) @ (writeFramed (e ! 1) @ fingerprint_input es) =
        writeFramed (e' ! 0) @ (writeFramed (e' ! 1) @ fingerprint_input es'')"
      by (simp add: fingerprint_input_def framed_entry_def not_less)
    then have "e ! 0 = e' ! 0" "writeFramed (e ! 1) @ fingerprint_input es = writeFramed (e' ! 1) @ fingerprint_input es''"
      using writeFramed_inj Cons.prems es' by simp_all blast+
    moreover from this(2) have "e ! 1 = e' ! 1" "fingerprint_input es = fingerprint_input es''"
      using writeFramed_inj Cons.prems es' by simp_all blast+
    ultimately show ?case using Cons.IH [of es''] Cons.prems es' by (simp add: kv_def)
  qed
  show "fingerprint_input es = fingerprint_input es'" if "map kv es = map kv es'"
  proof -
    have "fingerprint_input xs = concat (map (\<lambda>(k, v). writeFramed k @ writeFramed v) (map kv xs))"
      if "\<forall>e\<in>set xs. 2 \<le> length e" for xs
      using that by (induction xs) (auto simp: fingerprint_input_def framed_entry_def kv_def)
    from this [of es] this [of es'] assms that show ?thesis by metis
  qed
qed

section \<open>What the fingerprint identifies\<close>

lemma sort_entries_proper:
  assumes "proper_entries es"
  shows "sort_entries es = Ok (sort_key em_key es)"
proof -
  have "[] \<notin> set es" using assms by (fastforce simp: proper_entries_def)
  then show ?thesis by (simp add: sort_entries_def)
qed

lemma distinct_sort_key: "distinct (map f (sort_key g xs)) \<longleftrightarrow> distinct (map f xs)"
  by (metis distinct_map distinct_sort set_sort)

lemma sorted_kv_unique:
  assumes "distinct (map em_key es)" "distinct (map em_key es')"
    and "set (map kv es) = set (map kv es')"
  shows "map kv (sort_key em_key es) = map kv (sort_key em_key es')"
proof -
  have key: "map fst (map kv xs) = map em_key xs" for xs by (simp add: kv_def em_key_def)
  show ?thesis
  proof (rule map_sorted_distinct_set_unique [of fst])
    show "inj_on fst (set (map kv (sort_key em_key es)) \<union> set (map kv (sort_key em_key es')))"
      using assms by (metis distinct_map key set_map set_sort sup.idem)
    show "sorted (map fst (map kv (sort_key em_key es)))" "sorted (map fst (map kv (sort_key em_key es')))"
      by (simp_all only: key sorted_sort_key)
    show "distinct (map fst (map kv (sort_key em_key es)))" "distinct (map fst (map kv (sort_key em_key es')))"
      using assms by (simp_all only: key distinct_sort_key)
    show "set (map kv (sort_key em_key es)) = set (map kv (sort_key em_key es'))"
      using assms(3) by simp
  qed
qed

lemma ComputeFingerprint_sha:
  "ComputeFingerprint sha s = obind (ComputeFingerprint (\<lambda>x. x) s) (\<lambda>x. Ok (if s = None then x else sha x))"
  by (cases s) (auto simp: ComputeFingerprint_def obind_assoc)

text \<open>C27. For snapshots whose entries are pairs with distinct keys and strings shorter than 4 GiB,
  the bytes that ComputeFingerprint hashes are the same exactly when the two snapshots hold the
  same map from keys to values, in whatever order the entries are listed.\<close>

theorem fingerprint_identifies_state:
  assumes "proper_entries (LedgerEntries s)" and "proper_entries (LedgerEntries t)"
  shows "ComputeFingerprint (\<lambda>x. x) (Some s) = ComputeFingerprint (\<lambda>x. x) (Some t) \<longleftrightarrow>
         map_of (ToMap s) = map_of (ToMap t)"
proof -
  let ?es = "LedgerEntries s" and ?et = "LedgerEntries t"
  have d: "distinct (map em_key ?es)" "distinct (map em_key ?et)"
    using assms by (simp_all add: proper_entries_def)
  have "fst \<circ> kv = em_key" by (auto simp: kv_def em_key_def)
  then have keys: "distinct (map fst (map kv ?es))" "distinct (map fst (map kv ?et))"
    using d by simp_all
  have "map_of (ToMap s) = map_of (ToMap t) \<longleftrightarrow> set (map kv ?es) = set (map kv ?et)"
    using assms d map_of_ToMap [of s] map_of_ToMap [of t] map_of_eq_set [OF keys]
    by (simp add: proper_entries_def)
  also have "\<dots> \<longleftrightarrow> map kv (sort_key em_key ?es) = map kv (sort_key em_key ?et)"
    using sorted_kv_unique [OF d] by (metis set_map set_sort)
  also have "\<dots> \<longleftrightarrow> fingerprint_input (sort_key em_key ?es) = fingerprint_input (sort_key em_key ?et)"
    using assms by (intro fingerprint_input_inj [symmetric]) (simp_all add: proper_entries_def)
  finally show ?thesis
    by (simp add: ComputeFingerprint_def sort_entries_proper assms)
qed

lemma fingerprint_identifies_state_witness:
  "let s = \<lparr>LedgerEntries = [[''b'', ''2''], [''a'', ''1'']], LinearMemory = [], Fingerprint = []\<rparr>;
       t = \<lparr>LedgerEntries = [[''a'', ''1''], [''b'', ''2'']], LinearMemory = [], Fingerprint = []\<rparr>
   in ComputeFingerprint (\<lambda>x. x) (Some s) = ComputeFingerprint (\<lambda>x. x) (Some t)"
proof -
  let ?s = "\<lparr>LedgerEntries = [[''b'', ''2''], [''a'', ''1'']], LinearMemory = [], Fingerprint = []\<rparr>"
  let ?t = "\<lparr>LedgerEntries = [[''a'', ''1''], [''b'', ''2'']], LinearMemory = [], Fingerprint = []\<rparr>"
  have "proper_entries (LedgerEntries ?s)" "proper_entries (LedgerEntries ?t)"
    by (simp_all add: proper_entries_def em_key_def)
  moreover have "map_of (ToMap ?s) = map_of (ToMap ?t)"
    by (rule ext) (simp add: ToMap_def)
  ultimately have "ComputeFingerprint (\<lambda>x. x) (Some ?s) = ComputeFingerprint (\<lambda>x. x) (Some ?t)"
    using fingerprint_identifies_state [of ?s ?t] by blast
  then show ?thesis by (simp add: Let_def)
qed

section \<open>Base64\<close>

lemma b64_val_char: "n < 64 \<Longrightarrow> b64_val (b64_alphabet ! n) = Some n"
proof -
  have "list_all (\<lambda>n. b64_val (b64_alphabet ! n) = Some n) [0..<64]" by code_simp
  then show "n < 64 \<Longrightarrow> b64_val (b64_alphabet ! n) = Some n" by (simp add: list_all_iff)
qed

lemma b64_val_b64_char [simp]: "b64_val (b64_char n) = Some (n mod 64)"
  by (simp add: b64_char_def b64_val_char)

lemma b64_char_plain: "b64_char n \<noteq> CHR ''='' \<and> b64_char n \<noteq> CHR 0x0A \<and> b64_char n \<noteq> CHR 0x0D"
proof -
  have "b64_val (CHR ''='') = None" "b64_val (CHR 0x0A) = None" "b64_val (CHR 0x0D) = None"
    by code_simp+
  then show ?thesis by (metis b64_val_b64_char option.distinct(1))
qed

lemma sextets:
  assumes "n < (16777216 :: nat)"
  shows "n div 262144 mod 64 * 262144 + n div 4096 mod 64 * 4096 + n div 64 mod 64 * 64 + n mod 64 = n"
proof -
  define a b c where "a = n div 64" and "b = a div 64" and "c = b div 64"
  have d: "n div 4096 = b" "n div 262144 = c"
    using div_mult2_eq [of n 64 64] div_mult2_eq [of n 4096 64] by (simp_all add: a_def b_def c_def)
  have "n = a * 64 + n mod 64" "a = b * 64 + a mod 64" "b = c * 64 + b mod 64"
    unfolding a_def b_def c_def by presburger+
  moreover have "c mod 64 = c" using assms d(2) by auto
  ultimately have "c mod 64 * 262144 + b mod 64 * 4096 + a mod 64 * 64 + n mod 64 = n" by linarith
  then show ?thesis by (simp only: d a_def)
qed

lemma b64_quantum_bytes:
  fixes a b c :: u8
  defines "n \<equiv> unat a * 65536 + unat b * 256 + unat c"
  shows "b64_quantum (n div 262144 mod 64) (n div 4096 mod 64) (n div 64 mod 64) (n mod 64) = [a, b, c]"
proof -
  have u: "unat a < 256" "unat b < 256" "unat c < 256"
    using unat_u8_less [of a] unat_u8_less [of b] unat_u8_less [of c] by simp_all
  then have "n < 16777216" by (simp add: n_def)
  then have "b64_quantum (n div 262144 mod 64) (n div 4096 mod 64) (n div 64 mod 64) (n mod 64) =
      [word_of_nat (n div 65536), word_of_nat (n div 256), word_of_nat n]"
    by (simp only: b64_quantum_def sextets Let_def)
  moreover have "n div 65536 = unat a" "n div 256 = unat a * 256 + unat b"
    using u by (simp_all add: n_def)
  moreover have low: "(word_of_nat (k * 256 + m) :: u8) = word_of_nat m" for k m
    by (simp add: word_of_nat_eq_iff take_bit_eq_mod del: of_nat_add of_nat_mult)
  ultimately show ?thesis
    using low [of "unat a" "unat b"] low [of "unat a * 256 + unat b" "unat c"]
    by (simp add: n_def algebra_simps)
qed

lemma b64_chunks_encode: "b64_chunks (b64_encode m) = Some m"
proof (induction m rule: b64_encode.induct)
  case (2 a)
  from b64_quantum_bytes [of a 0 0] show ?case by (simp add: b64_char_plain Let_def)
next
  case (3 a b)
  from b64_quantum_bytes [of a b 0] show ?case by (simp add: b64_char_plain Let_def)
next
  case (4 a b c r)
  with b64_quantum_bytes [of a b c] show ?case by (simp add: b64_char_plain Let_def)
qed simp

lemma b64_roundtrip: "b64_decode (b64_encode m) = Some m"
proof -
  have "filter (\<lambda>c. c \<noteq> CHR 0x0A \<and> c \<noteq> CHR 0x0D) (b64_encode m) = b64_encode m"
    by (induction m rule: b64_encode.induct) (auto simp: b64_char_plain Let_def)
  then show ?thesis by (simp add: b64_decode_def b64_chunks_encode)
qed

text \<open>C28. A snapshot built from a map and a linear memory gives both back: ToMap is the same map
  and DecodeLinearMemory the same bytes. Building it does not panic.\<close>

theorem FromMap_roundtrip:
  assumes "distinct (map fst m)"
  shows "obind (FromMapWithOptions sha (Some m) memory)
           (\<lambda>s. obind (DecodeLinearMemory (Some s)) (\<lambda>mem. Ok (map_of (ToMap s), mem))) =
         Ok (map_of m, memory)"
proof -
  define es where "es = sort_key em_key (map (\<lambda>(k, v). [k, v]) m)"
  have len: "\<forall>e\<in>set es. length e = 2" by (auto simp: es_def)
  then have "[] \<notin> set es" by fastforce
  then obtain f where f: "ComputeFingerprint sha (Some \<lparr>LedgerEntries = es, LinearMemory = x, Fingerprint = y\<rparr>) = Ok f" for x y
    by (simp add: ComputeFingerprint_def sort_entries_def)
  define s where "s = \<lparr>LedgerEntries = es, LinearMemory = encodeMemory memory, Fingerprint = f\<rparr>"
  have s: "FromMapWithOptions sha (Some m) memory = Ok s"
    by (simp add: FromMapWithOptions_def es_def [symmetric] f s_def)
  have mset: "set (map kv es) = set m" by (force simp: es_def kv_def)
  have "em_key \<circ> (\<lambda>(k, v). [k, v]) = fst" by (auto simp: em_key_def)
  with assms have "distinct (map em_key (map (\<lambda>(k, v). [k, v]) m))"
    by (simp only: map_map)
  then have d: "distinct (map em_key es)"
    unfolding es_def by (simp only: distinct_sort_key)
  have "fst \<circ> kv = em_key" by (auto simp: kv_def em_key_def)
  with d have "distinct (map fst (map kv es))" by simp
  with assms mset have "map_of (map kv es) = map_of m" by (simp add: map_of_eq_set del: map_map)
  moreover have "map_of (ToMap s) = map_of (map kv es)"
    using map_of_ToMap [of s] len d by (simp add: s_def)
  ultimately have "map_of (ToMap s) = map_of m" by simp
  moreover have "b64_encode memory = [] \<longleftrightarrow> memory = []"
    by (cases memory rule: b64_encode.cases) (simp_all add: Let_def)
  then have "DecodeLinearMemory (Some s) = Ok memory"
    by (simp add: s_def DecodeLinearMemory_def encodeMemory_def b64_roundtrip)
  ultimately show ?thesis by (simp add: s)
qed

lemma FromMap_roundtrip_witness:
  "obind (FromMapWithOptions (\<lambda>x. x) (Some [(''b'', ''2''), (''a'', ''1'')]) [7])
     (\<lambda>s. obind (DecodeLinearMemory (Some s)) (\<lambda>mem. Ok (map_of (ToMap s), mem))) =
   Ok (map_of [(''b'', ''2''), (''a'', ''1'')], [7])"
  by (rule FromMap_roundtrip) simp

section \<open>What a difference says\<close>

text \<open>The changes, done to a map.\<close>

definition apply_diff :: "snapshot_diff \<Rightarrow> (string \<rightharpoonup> string) \<Rightarrow> (string \<rightharpoonup> string)" where
  "apply_diff d m = (\<lambda>k.
     if k \<in> ec_key ` set (sd_removed d) then None
     else (m ++ map_of (map (\<lambda>c. (ec_key c, ec_new c)) (sd_added d @ sd_modified d))) k)"

lemma diff_keys:
  "map ec_key (added_of b t) = map fst (filter (\<lambda>e. map_of b (fst e) = None) t)"
  "map ec_key (removed_of b t) = map fst (filter (\<lambda>e. map_of t (fst e) = None) b)"
  "map ec_key (modified_of b t) =
     map fst (filter (\<lambda>e. map_of t (fst e) \<noteq> None \<and> map_of t (fst e) \<noteq> Some (snd e)) b)"
proof -
  show "map ec_key (added_of b t) = map fst (filter (\<lambda>e. map_of b (fst e) = None) t)"
    by (induction t) (auto simp: added_of_def split: option.split)
  have "map ec_key (concat (map (\<lambda>(k, old). case map_of t k of Some new \<Rightarrow> []
      | None \<Rightarrow> [\<lparr>ec_key = k, ec_old = old, ec_new = [], ec_kind = ChangeRemoved\<rparr>]) xs)) =
    map fst (filter (\<lambda>e. map_of t (fst e) = None) xs)" for xs
    by (induction xs) (auto split: option.split)
  then show "map ec_key (removed_of b t) = map fst (filter (\<lambda>e. map_of t (fst e) = None) b)"
    by (simp add: removed_of_def)
  have "map ec_key (concat (map (\<lambda>(k, old). case map_of t k of
        Some new \<Rightarrow> if old \<noteq> new then [\<lparr>ec_key = k, ec_old = old, ec_new = new, ec_kind = ChangeModified\<rparr>] else []
      | None \<Rightarrow> []) xs)) =
    map fst (filter (\<lambda>e. map_of t (fst e) \<noteq> None \<and> map_of t (fst e) \<noteq> Some (snd e)) xs)" for xs
    by (induction xs) (auto split: option.split)
  then show "map ec_key (modified_of b t) =
     map fst (filter (\<lambda>e. map_of t (fst e) \<noteq> None \<and> map_of t (fst e) \<noteq> Some (snd e)) b)"
    by (simp add: modified_of_def)
qed

lemma new_values:
  assumes "distinct (map fst b)" "distinct (map fst t)"
  shows "map_of (map (\<lambda>c. (ec_key c, ec_new c)) (added_of b t)) k =
           (if map_of b k = None then map_of t k else None)"
    and "map_of (map (\<lambda>c. (ec_key c, ec_new c)) (modified_of b t)) k =
           (if map_of b k = None \<or> map_of b k = map_of t k then None else map_of t k)"
proof -
  show "map_of (map (\<lambda>c. (ec_key c, ec_new c)) (added_of b t)) k =
           (if map_of b k = None then map_of t k else None)"
    by (induction t) (auto simp: added_of_def split: option.split)
  have "map_of (map (\<lambda>c. (ec_key c, ec_new c)) (concat (map (\<lambda>(k, old). case map_of t k of
        Some new \<Rightarrow> if old \<noteq> new then [\<lparr>ec_key = k, ec_old = old, ec_new = new, ec_kind = ChangeModified\<rparr>] else []
      | None \<Rightarrow> []) xs))) k =
    (if map_of xs k = None \<or> map_of xs k = map_of t k then None else map_of t k)"
    if "distinct (map fst xs)" for xs
    using that
  proof (induction xs)
    case (Cons x xs)
    obtain a v where x: "x = (a, v)" by (cases x)
    with Cons.prems have "map_of xs a = None" by (simp add: map_of_eq_None_iff)
    with Cons x show ?case by (auto split: option.split)
  qed simp
  with assms(1) show "map_of (map (\<lambda>c. (ec_key c, ec_new c)) (modified_of b t)) k =
           (if map_of b k = None \<or> map_of b k = map_of t k then None else map_of t k)"
    by (simp add: modified_of_def)
qed

lemma map_of_sort_changes:
  fixes xs :: "entry_change list"
  assumes "distinct (map ec_key xs)"
  shows "map_of (map (\<lambda>c. (ec_key c, ec_new c)) (sort_key ec_key xs)) =
         map_of (map (\<lambda>c. (ec_key c, ec_new c)) xs)"
proof -
  have keys: "map fst (map (\<lambda>c. (ec_key c, ec_new c)) ys) = map ec_key ys" for ys by simp
  show ?thesis
    using assms by (subst map_of_eq_set) (simp_all only: keys distinct_sort_key set_map set_sort)
qed

lemma distinct_diff_keys:
  assumes "distinct (map fst b)" "distinct (map fst t)"
  shows "distinct (map ec_key (added_of b t))" "distinct (map ec_key (removed_of b t))"
    "distinct (map ec_key (modified_of b t))"
  unfolding diff_keys using assms by (auto simp: distinct_map inj_on_def)

lemma sorted_changes:
  "distinct (map ec_key xs) \<Longrightarrow> sorted_wrt (<) (map ec_key (sort_key ec_key xs))"
  by (simp add: strict_sorted_iff distinct_sort_key)

text \<open>C29. DiffSnapshots is exact: doing its changes to the map of the base snapshot gives the map
  of the target, it reports no change exactly when the two maps are equal, and each of its three
  lists is in strictly ascending order of the keys.\<close>

theorem DiffSnapshots_exact:
  "let d = DiffSnapshots base target; b = map_of (ToMap base); t = map_of (ToMap target) in
     apply_diff d b = t \<and> (TotalChanges d = 0) = (b = t)
   \<and> sorted_wrt (<) (map ec_key (sd_added d)) \<and> sorted_wrt (<) (map ec_key (sd_removed d))
   \<and> sorted_wrt (<) (map ec_key (sd_modified d))"
proof -
  let ?b = "ToMap base" and ?t = "ToMap target"
  let ?d = "DiffSnapshots base target"
  note d = distinct_ToMap [of base] distinct_ToMap [of target]
  note dk = distinct_diff_keys [OF d]
  have removed: "k \<in> ec_key ` set (removed_of ?b ?t) \<longleftrightarrow> map_of ?b k \<noteq> None \<and> map_of ?t k = None" for k
  proof -
    have "ec_key ` set (removed_of ?b ?t) = set (map ec_key (removed_of ?b ?t))" by simp
    then show ?thesis unfolding diff_keys by (force simp: map_of_eq_None_iff)
  qed
  have app: "apply_diff ?d (map_of ?b) = map_of ?t"
    by (rule ext)
      (auto simp: apply_diff_def DiffSnapshots_def Let_def removed map_of_sort_changes [OF dk(1)]
        map_of_sort_changes [OF dk(3)] new_values [OF d] map_add_def split: option.split)
  have "TotalChanges ?d = 0 \<longleftrightarrow> map_of ?b = map_of ?t"
  proof
    assume "TotalChanges ?d = 0"
    then have "sd_added ?d = []" "sd_removed ?d = []" "sd_modified ?d = []"
      by (simp_all add: TotalChanges_def)
    then have "apply_diff ?d (map_of ?b) = map_of ?b" by (simp add: apply_diff_def)
    with app show "map_of ?b = map_of ?t" by simp
  next
    assume eq: "map_of ?b = map_of ?t"
    then have "map ec_key (added_of ?b ?t) = [] \<and> map ec_key (removed_of ?b ?t) = [] \<and>
        map ec_key (modified_of ?b ?t) = []"
      unfolding diff_keys using d by (auto simp: filter_empty_conv map_of_eq_None_iff rev_image_eqI
        eq [symmetric] dest: map_of_is_SomeI)
    then show "TotalChanges ?d = 0" by (simp add: TotalChanges_def DiffSnapshots_def Let_def)
  qed
  with app sorted_changes [OF dk(1)] sorted_changes [OF dk(2)] sorted_changes [OF dk(3)]
  show ?thesis by (simp add: Let_def DiffSnapshots_def)
qed

section \<open>Migration\<close>

lemma classify_cases:
  "Unsupported (classifySchemaVersion v) \<longleftrightarrow> v < 1 \<or> 2 < v"
  "NeedsUpgrade (classifySchemaVersion v) \<longleftrightarrow> v = 1"
  by (auto simp: classifySchemaVersion_def Let_def PersistSchemaVersion_def MinSupportedSchemaVersion_def)

text \<open>MigrateSnapshot accepts exactly the versions 1 and 2. The result is at version 2 with the
  ledger state untouched, its log is the old log followed by the steps returned (one for version 1,
  none for version 2), an outdated snapshot has a ledger format afterwards, and migrating the result
  again does nothing.
\<close>

theorem MigrateSnapshot_outcome:
  "case MigrateSnapshot now (Some \<lparr>Metadata = Some m, Snapshot = s\<rparr>) of
     Ok (p, steps) \<Rightarrow>
       SchemaVersion m \<in> {1, 2} \<and> Snapshot p = s \<and> length steps = nat (2 - SchemaVersion m)
     \<and> MigrateSnapshot now' (Some p) = Ok (p, [])
     \<and> (case Metadata p of None \<Rightarrow> False | Some m' \<Rightarrow>
          SchemaVersion m' = 2 \<and> MigrationLog m' = MigrationLog m @ steps
        \<and> (SchemaVersion m, LedgerFormat m') \<noteq> (1, []) \<and> TxHash m' = TxHash m \<and> Network m' = Network m)
   | Err e \<Rightarrow> SchemaVersion m \<notin> {1, 2} \<and> e = SchemaErr (classifySchemaVersion (SchemaVersion m))
   | _ \<Rightarrow> False"
proof -
  consider "SchemaVersion m = 1" | "SchemaVersion m = 2" | "SchemaVersion m \<notin> {1, 2}" by blast
  then show ?thesis
  proof cases
    case 1
    then show ?thesis
      by (auto simp: MigrateSnapshot_def Let_def classify_cases migrationTable_def PersistSchemaVersion_def)
  next
    case 2
    then show ?thesis by (auto simp: MigrateSnapshot_def Let_def classify_cases)
  next
    case 3
    then show ?thesis by (auto simp: MigrateSnapshot_def Let_def classify_cases)
  qed
qed

section \<open>Saving, loading, replaying\<close>

lemma map_of_filter_key: "map_of l k = map_of (filter (\<lambda>e. fst e = k) l) k"
  by (induction l) auto

lemma ToMap_stable_sort:
  assumes "LedgerEntries s' = sort_key (\<lambda>e. if e = [] then [] else e ! 0) (LedgerEntries s)"
  shows "map_of (ToMap s') = map_of (ToMap s)"
proof (rule ext)
  fix k
  let ?f = "\<lambda>e. if e = [] then [] else e ! 0"
  let ?l = "\<lambda>es. map (\<lambda>e. (e ! 0, e ! 1)) (filter (\<lambda>e. length e \<ge> 2) es)"
  have at_key: "filter (\<lambda>e. fst e = k) (?l es) = ?l (filter (\<lambda>e. ?f e = k) es)" for es :: "ledger_entry list"
    by (induction es) auto
  have "filter (\<lambda>e. ?f e = k) (sort_key ?f (LedgerEntries s)) = filter (\<lambda>e. ?f e = k) (LedgerEntries s)"
    by (rule sort_key_stable)
  then have "filter (\<lambda>e. fst e = k) (?l (LedgerEntries s')) = filter (\<lambda>e. fst e = k) (?l (LedgerEntries s))"
    unfolding at_key assms by simp
  then have eq: "filter (\<lambda>e. fst e = k) (rev (?l (LedgerEntries s'))) = filter (\<lambda>e. fst e = k) (rev (?l (LedgerEntries s)))"
    by (simp only: rev_filter [symmetric])
  have "map_of (rev (?l (LedgerEntries s'))) k = map_of (filter (\<lambda>e. fst e = k) (rev (?l (LedgerEntries s')))) k"
    by (rule map_of_filter_key)
  also have "\<dots> = map_of (rev (?l (LedgerEntries s))) k"
    unfolding eq by (rule map_of_filter_key [symmetric])
  finally show "map_of (ToMap s') k = map_of (ToMap s) k"
    by (simp add: ToMap_def map_of_update_fold)
qed

lemma ComputeFingerprint_entries:
  "LedgerEntries s = LedgerEntries t \<Longrightarrow> ComputeFingerprint sha (Some s) = ComputeFingerprint sha (Some t)"
  by (simp add: ComputeFingerprint_def)

lemma normalizedForSave_Ok:
  assumes "normalizedForSave sha (Some s) = Ok n"
  shows "check_fingerprint sha n = Ok () \<and> map_of (ToMap n) = map_of (ToMap s)"
proof -
  let ?n = "\<lparr>LedgerEntries = sort_key (\<lambda>e. if e = [] then [] else e ! 0) (LedgerEntries s),
             LinearMemory = LinearMemory s, Fingerprint = []\<rparr>"
  from assms obtain f where f: "ComputeFingerprint sha (Some ?n) = Ok f" and n: "n = ?n\<lparr>Fingerprint := f\<rparr>"
    unfolding normalizedForSave_def Let_def by auto
  from n have "ComputeFingerprint sha (Some n) = Ok f"
    by (subst f [symmetric]) (rule ComputeFingerprint_entries, simp)
  moreover have "map_of (ToMap n) = map_of (ToMap s)" by (rule ToMap_stable_sort) (simp add: n)
  ultimately show ?thesis by (simp add: check_fingerprint_def n)
qed

text \<open>The value of a successful save.\<close>

lemma SavePersisted_value_Ok:
  assumes "SavePersisted_value sha now meta snap = Ok p"
  obtains m m' n where "meta = Some m" "p = \<lparr>Metadata = Some m', Snapshot = Some n\<rparr>"
    "TxHash m \<noteq> []" "Network m \<in> set validNetworks" "SchemaVersion m' = 2"
    "TxHash m' = TxHash m" "Network m' = Network m"
    "ParamFingerprint m' = ParamFingerprint m" "SourceHash m' = SourceHash m"
    "check_fingerprint sha n = Ok ()"
    "map_of (ToMap n) = (case snap of None \<Rightarrow> Map.empty | Some s \<Rightarrow> map_of (ToMap s))"
proof -
  from assms obtain m where m: "meta = Some m" by (auto simp: SavePersisted_value_def split: option.splits)
  from assms m have chk: "TxHash m \<noteq> []" "Network m \<noteq> []" "Network m \<in> set validNetworks"
    by (auto simp: SavePersisted_value_def split: if_splits)
  define s0 where "s0 = (case snap of None \<Rightarrow> FromMap sha None | Some s \<Rightarrow> Ok s)"
  have "obind (map_err (\<lambda>_. NilSnapshot) s0) (\<lambda>s.
      obind (map_err (\<lambda>_. NilSnapshot) (normalizedForSave sha (Some s))) (\<lambda>n.
      Ok \<lparr>Metadata = Some
      (let m = m\<lparr>SchemaVersion := PersistSchemaVersion\<rparr>;
           m = (if SavedAt m = 0 then m\<lparr>SavedAt := now\<rparr> else m)
       in if LedgerFormat m = [] then m\<lparr>LedgerFormat := ''base64-xdr''\<rparr> else m), Snapshot = Some n\<rparr>)) = Ok p"
    using assms chk by (simp only: SavePersisted_value_def m option.case if_False s0_def Let_def not_True_eq_False)
  then obtain s n where s: "s0 = Ok s" and n: "normalizedForSave sha (Some s) = Ok n"
    and p: "p = \<lparr>Metadata = Some
      (let m = m\<lparr>SchemaVersion := PersistSchemaVersion\<rparr>;
           m = (if SavedAt m = 0 then m\<lparr>SavedAt := now\<rparr> else m)
       in if LedgerFormat m = [] then m\<lparr>LedgerFormat := ''base64-xdr''\<rparr> else m), Snapshot = Some n\<rparr>"
    by (auto simp only: obind_eq_Ok map_err_eq_Ok outcome.inject)
  have "map_of (ToMap s) = (case snap of None \<Rightarrow> Map.empty | Some s \<Rightarrow> map_of (ToMap s))"
    using s by (cases snap) (auto simp: s0_def FromMap_def FromMapWithOptions_def ToMap_def)
  with that m chk p normalizedForSave_Ok [OF n] show thesis
    by (auto simp: Let_def PersistSchemaVersion_def)
qed

lemma LoadPersisted_saved_value:
  assumes "SavePersisted_value sha now (Some m) snap = Ok p"
  shows "LoadPersisted_value now' p = Ok p" "Validate_persisted sha p (TxHash m) (Network m) = Ok ()"
    "map_option (\<lambda>s. map_of (ToMap s)) (Snapshot p) =
       Some (case snap of None \<Rightarrow> Map.empty | Some s \<Rightarrow> map_of (ToMap s))"
proof -
  have nets: "[] \<notin> set validNetworks" by (simp add: validNetworks_def)
  from assms have "LoadPersisted_value now' p = Ok p \<and> Validate_persisted sha p (TxHash m) (Network m) = Ok ()
       \<and> map_option (\<lambda>s. map_of (ToMap s)) (Snapshot p) =
         Some (case snap of None \<Rightarrow> Map.empty | Some s \<Rightarrow> map_of (ToMap s))"
    by (rule SavePersisted_value_Ok)
      (use nets in \<open>auto simp: LoadPersisted_value_def Validate_persisted_def Let_def classify_cases\<close>)
  then show "LoadPersisted_value now' p = Ok p" "Validate_persisted sha p (TxHash m) (Network m) = Ok ()"
    "map_option (\<lambda>s. map_of (ToMap s)) (Snapshot p) =
       Some (case snap of None \<Rightarrow> Map.empty | Some s \<Rightarrow> map_of (ToMap s))"
    by simp_all
qed

lemma temp_path: "path @ ''.tmp'' \<noteq> path"
  by simp

text \<open>
  A save that does not fail is loaded back when the codec gives back the value that was marshalled
  (\<open>encoding/json\<close> replaces bytes that are not UTF-8): it is valid for its own transaction and network and
  holds the map of the snapshot. A save that fails leaves the file of the path as it was.
\<close>

theorem LoadPersisted_saved:
  assumes "SavePersisted marshal fl part sha now path (Some m) snap fs = (res, fs')"
    and "\<And>p data. SavePersisted_value sha now (Some m) snap = Ok p \<Longrightarrow> marshal p = Some data \<Longrightarrow> unmarshal data = Some p"
  shows "if res = Ok () then
      (\<exists>p. LoadPersisted unmarshal (\<lambda>_. False) now' path fs' = Ok p
         \<and> Validate_persisted sha p (TxHash m) (Network m) = Ok ()
         \<and> map_option (\<lambda>s. map_of (ToMap s)) (Snapshot p) =
           Some (case snap of None \<Rightarrow> Map.empty | Some s \<Rightarrow> map_of (ToMap s)))
    else fs' path = fs path"
proof (cases "res = Ok ()")
  case True
  with assms(1) obtain p data where p: "SavePersisted_value sha now (Some m) snap = Ok p" and "marshal p = Some data"
    and "fs' path = Some data"
    by (auto simp: SavePersisted_def write_renamed_def Let_def split: outcome.splits option.splits if_splits)
  with assms(2) LoadPersisted_saved_value [OF p] True show ?thesis by (simp add: LoadPersisted_def)
next
  case False
  with assms(1) show ?thesis
    by (auto simp: SavePersisted_def write_renamed_def Let_def temp_path temp_path [symmetric]
        split: outcome.splits option.splits if_splits)
qed

lemma LoadPersisted_saved_witness:
  "let m = \<lparr>SchemaVersion = 0, GlassboxVersion = [], SavedAt = 0, TxHash = ''ab'', Network = ''testnet'',
            EnvelopeXdr = [], ResultMetaXdr = [], SourceHash = [], ParamFingerprint = ''x'', LedgerFormat = [],
            MigrationLog = []\<rparr>;
       s = \<lparr>LedgerEntries = [[''k'', ''v'']], LinearMemory = [], Fingerprint = []\<rparr>
   in (case SavePersisted_value (\<lambda>x. x) 7 (Some m) (Some s) of
         Ok p \<Rightarrow> LoadPersisted (\<lambda>_. Some p) (\<lambda>_. False) 9 ''f''
             (snd (SavePersisted (\<lambda>_. Some ''d'') (\<lambda>_. False) 0 (\<lambda>x. x) 7 ''f'' (Some m) (Some s) Map.empty)) = Ok p
       | _ \<Rightarrow> False)"
proof -
  let ?m = "\<lparr>SchemaVersion = 0, GlassboxVersion = [], SavedAt = 0, TxHash = ''ab'', Network = ''testnet'',
            EnvelopeXdr = [], ResultMetaXdr = [], SourceHash = [], ParamFingerprint = ''x'', LedgerFormat = [],
            MigrationLog = []\<rparr>"
  let ?s = "\<lparr>LedgerEntries = [[''k'', ''v'']], LinearMemory = [], Fingerprint = []\<rparr>"
  obtain p where p: "SavePersisted_value (\<lambda>x. x) 7 (Some ?m) (Some ?s) = Ok p"
    by (simp add: SavePersisted_value_def validNetworks_def normalizedForSave_def ComputeFingerprint_def sort_entries_def)
  define fs where "fs = snd (SavePersisted (\<lambda>_. Some ''d'') (\<lambda>_. False) 0 (\<lambda>x. x) 7 ''f'' (Some ?m) (Some ?s) Map.empty)"
  have "SavePersisted (\<lambda>_. Some ''d'') (\<lambda>_. False) 0 (\<lambda>x. x) 7 ''f'' (Some ?m) (Some ?s) Map.empty = (Ok (), fs)"
    by (simp add: fs_def SavePersisted_def p write_renamed_def)
  from LoadPersisted_saved [OF this, of "\<lambda>_. Some p" 9] p obtain q where
    "LoadPersisted (\<lambda>_. Some p) (\<lambda>_. False) 9 ''f'' fs = Ok q" by auto
  moreover have "LoadPersisted (\<lambda>_. Some p) (\<lambda>_. False) 9 ''f'' fs = LoadPersisted_value 9 p"
    by (simp add: fs_def SavePersisted_def p write_renamed_def LoadPersisted_def)
  ultimately show ?thesis using LoadPersisted_saved_value(1) [OF p, of 9] by (simp add: p fs_def)
qed

text \<open>C30. A saved snapshot is accepted for its own transaction and network exactly when it is not
  stale; one saved with a parameter fingerprint is refused as stale, with neither of the two
  reasons, when the caller has no parameters to compare with.\<close>

theorem replay_needs_params:
  assumes "SavePersisted_value sha now (Some m) snap = Ok p"
  shows "(ValidateSnapshotBeforeReplay sha (Some p) (TxHash m) (Network m) params source = Ok ()) =
         (\<not> IsStale sha m params source)
       \<and> ValidateSnapshotBeforeReplay sha (Some p) (TxHash m) (Network m) None [] =
         (if ParamFingerprint m = [] then Ok () else Err (Stale False False))"
  using assms
  by (rule SavePersisted_value_Ok) (auto simp: ValidateSnapshotBeforeReplay_def IsStale_def hashStringMap_def)

lemma replay_needs_params_witness:
  "let m = \<lparr>SchemaVersion = 0, GlassboxVersion = [], SavedAt = 0, TxHash = ''ab'', Network = ''testnet'',
            EnvelopeXdr = [], ResultMetaXdr = [], SourceHash = [], ParamFingerprint = ''x'', LedgerFormat = [],
            MigrationLog = []\<rparr>
   in (case SavePersisted_value (\<lambda>x. x) 7 (Some m) None of
         Ok p \<Rightarrow> ValidateSnapshotBeforeReplay (\<lambda>x. x) (Some p) ''ab'' ''testnet'' None [] = Err (Stale False False)
       | _ \<Rightarrow> False)"
proof -
  let ?m = "\<lparr>SchemaVersion = 0, GlassboxVersion = [], SavedAt = 0, TxHash = ''ab'', Network = ''testnet'',
            EnvelopeXdr = [], ResultMetaXdr = [], SourceHash = [], ParamFingerprint = ''x'', LedgerFormat = [],
            MigrationLog = []\<rparr>"
  obtain p where "SavePersisted_value (\<lambda>x. x) 7 (Some ?m) None = Ok p"
    by (simp add: SavePersisted_value_def validNetworks_def normalizedForSave_def ComputeFingerprint_def
      sort_entries_def FromMap_def FromMapWithOptions_def)
  with replay_needs_params [OF this] show ?thesis by (simp add: Let_def)
qed

text \<open>The text that hashStringMap hashes does not delimit keys and values: a value with a line break
  and an equals sign gives the text of a map with one more key, so different parameters have the same
  fingerprint and IsStale takes one for the other.
\<close>

theorem hashStringMap_collides:
  "let m = [(''a'', ''1'' @ [CHR 0x0A] @ ''b=2'')]; m' = [(''a'', ''1''), (''b'', ''2'')] in
     map_of m \<noteq> map_of m' \<and> hashStringMap sha (Some m) = hashStringMap sha (Some m')
   \<and> IsStale sha (meta\<lparr>ParamFingerprint := hashStringMap sha (Some m)\<rparr>) (Some m') [] = False"
proof -
  let ?m = "[(''a'', ''1'' @ [CHR 0x0A] @ ''b=2'')]" and ?m' = "[(''a'', ''1''), (''b'', ''2'')]"
  have "map_of ?m ''b'' \<noteq> map_of ?m' ''b''" by simp
  then have "map_of ?m \<noteq> map_of ?m'" by metis
  moreover have "string_map_input ?m = string_map_input ?m'" by code_simp
  then have "hashStringMap sha (Some ?m) = hashStringMap sha (Some ?m')" by (simp add: hashStringMap_def)
  ultimately show ?thesis by (simp add: Let_def IsStale_def)
qed

end
