(* ===== verification/AuthTracker.thy ===== *)
theory AuthTracker
  imports GoText "HOL-Library.AList"
begin

text \<open>
  \<open>internal/authtrace\<close>: the tracker of authorisation events (\<open>tracker.go\<close>), the checks on its trace and
  inputs (\<open>validate.go\<close>) and the handlers of custom contracts (\<open>custom_auth.go\<close>). A tracker is the record
  \<open>tracker\<close>; every access to it is one critical section of its mutex, and the sections are the steps
  \<open>work_step\<close> and \<open>Clear\<close>: the public operations are compositions of them, so what holds along the
  steps holds for calls from several goroutines. Weights are 32-bit words. Texts shown to the user
  are values: one constructor for each format. A Go map is an association list with distinct keys,
  its order being the order of iteration; the map of nonces, never iterated, is a function. The clock
  is an argument of each operation.
\<close>

section \<open>Data\<close>

datatype failure_reason =
    NoReason | MissingSignature | InvalidSignature | ThresholdNotMet | WeightInsufficient
  | InvalidPublicKey | ExpiredPreAuth | CustomContractFailed | ReplayAttackDetected | ReasonUnknown

record signer_info =
  si_account :: string
  si_address :: string
  SignerKey :: string
  SignerType :: string
  si_weight :: u32
  VerificationID :: string

record threshold_config =
  LowThreshold :: u32
  MediumThreshold :: u32
  HighThreshold :: u32

text \<open>What is wrong with a nonce, and the details of an event.\<close>

datatype anti_pattern = MissingNonce | StaleNonce int | DuplicateNonce string int

datatype event_details =
    NoDetails
  | Required u32 u32
  | CustomCall string string "string list"
  | SACCallDetails "string option" string string "string list" string "string option"
  | ReplayDetails bool anti_pattern
  | MissingNode nat string
  | UnexpectedNode nat string
  | NodeMismatch nat string string
  | OtherDetails string

record auth_event =
  ev_time :: int
  EventType :: string
  ev_account :: string
  ev_address :: string
  ev_signer :: string
  SignatureType :: string
  ev_weight :: u32
  ev_status :: string
  Details :: event_details
  ErrorReason :: failure_reason
  SourceFile :: string
  SourceLine :: u32

definition no_event :: auth_event where
  "no_event = \<lparr>ev_time = 0, EventType = [], ev_account = [], ev_address = [], ev_signer = [], SignatureType = [],
     ev_weight = 0, ev_status = [], Details = NoDetails, ErrorReason = NoReason, SourceFile = [], SourceLine = 0\<rparr>"

record auth_failure =
  fa_account :: string
  FailureReason :: failure_reason
  RequiredWeight :: u32
  fa_collected :: u32
  MissingWeight :: u32
  TotalSigners :: u32

record account_context =
  AccountID :: string
  Signers :: "(string \<times> signer_info) list"
  Thresholds :: threshold_config
  CollectedWeight :: u32
  WeightByType :: "(string \<times> u32) list"

record tracker =
  events :: "auth_event list"
  failures :: "auth_failure list"
  MaxEventDepth :: int
  contexts :: "(string \<times> account_context) list"
  seenNonces :: "string \<Rightarrow> (string \<Rightarrow> int option) option"

definition NewTracker :: "int \<Rightarrow> tracker" where
  "NewTracker depth = \<lparr>events = [], failures = [], MaxEventDepth = depth, contexts = [], seenNonces = (\<lambda>_. None)\<rparr>"

section \<open>Critical sections\<close>

definition RecordEvent :: "int \<Rightarrow> auth_event \<Rightarrow> tracker \<Rightarrow> tracker" where
  "RecordEvent now e t =
     (let e = (if ev_time e = 0 then e\<lparr>ev_time := now\<rparr> else e)
      in if MaxEventDepth t > 0 \<and> int (length (events t)) \<ge> MaxEventDepth t then t
         else t\<lparr>events := events t @ [e]\<rparr>)"

definition InitializeAccountContext ::
  "string \<Rightarrow> signer_info list \<Rightarrow> threshold_config \<Rightarrow> tracker \<Rightarrow> tracker" where
  "InitializeAccountContext acct signers th t =
     (let ctx = \<lparr>AccountID = acct, Signers = fold (\<lambda>s m. AList.update (SignerKey s) s m) signers [],
                 Thresholds = th, CollectedWeight = 0, WeightByType = []\<rparr>
      in t\<lparr>contexts := AList.update acct ctx (contexts t)\<rparr>)"

text \<open>The weights of a verified signature, added to the context of its account if there is one.\<close>

definition weight_of :: "string \<Rightarrow> (string \<times> u32) list \<Rightarrow> u32" where
  "weight_of ty m = (case map_of m ty of None \<Rightarrow> 0 | Some w \<Rightarrow> w)"

definition add_weight :: "string \<Rightarrow> string \<Rightarrow> u32 \<Rightarrow> tracker \<Rightarrow> tracker" where
  "add_weight acct ty w t =
     (case map_of (contexts t) acct of
        None \<Rightarrow> t
      | Some c \<Rightarrow>
          let c' = c\<lparr>CollectedWeight := CollectedWeight c + w,
                     WeightByType := AList.update ty (weight_of ty (WeightByType c) + w) (WeightByType c)\<rparr>
          in t\<lparr>contexts := AList.update acct c' (contexts t)\<rparr>)"

definition recordFailure :: "string \<Rightarrow> failure_reason \<Rightarrow> u32 \<Rightarrow> u32 \<Rightarrow> tracker \<Rightarrow> tracker" where
  "recordFailure acct reason required collected t =
     (let n = (case map_of (contexts t) acct of None \<Rightarrow> 0 | Some c \<Rightarrow> word_of_nat (length (Signers c)));
          f = \<lparr>fa_account = acct, FailureReason = reason, RequiredWeight = required, fa_collected = collected,
               MissingWeight = required - collected, TotalSigners = n\<rparr>
      in t\<lparr>failures := failures t @ [f]\<rparr>)"

text \<open>The third check of a nonce, the only one that holds the lock over the test and the update.\<close>

definition check_duplicate :: "int \<Rightarrow> string \<Rightarrow> string \<Rightarrow> tracker \<Rightarrow> tracker \<times> anti_pattern option" where
  "check_duplicate now acct nonce t =
     (let seen = (case seenNonces t acct of None \<Rightarrow> (\<lambda>_. None) | Some m \<Rightarrow> m);
          t = t\<lparr>seenNonces := (seenNonces t)(acct := Some seen)\<rparr>
      in case seen nonce of
           Some first \<Rightarrow>
             let w = DuplicateNonce nonce first;
                 e = no_event\<lparr>ev_time := now, EventType := ''replay_attack_detected'', ev_account := acct,
                       ev_status := ''failed'', ErrorReason := ReplayAttackDetected, Details := ReplayDetails False w\<rparr>
             in (if MaxEventDepth t = 0 \<or> int (length (events t)) < MaxEventDepth t
                 then t\<lparr>events := events t @ [e]\<rparr> else t, Some w)
         | None \<Rightarrow> (t\<lparr>seenNonces := (seenNonces t)(acct := Some (seen(nonce \<mapsto> now)))\<rparr>, None))"

definition Clear :: "tracker \<Rightarrow> tracker" where
  "Clear t = t\<lparr>events := [], failures := [], contexts := [], seenNonces := (\<lambda>_. None)\<rparr>"

section \<open>Operations\<close>

definition RecordSignatureVerification ::
  "int \<Rightarrow> string \<Rightarrow> string \<Rightarrow> string \<Rightarrow> bool \<Rightarrow> u32 \<Rightarrow> tracker \<Rightarrow> tracker" where
  "RecordSignatureVerification now acct key ty verified w t =
     (let t = RecordEvent now (no_event\<lparr>EventType := ''signature_verification'', ev_account := acct, ev_signer := key,
                SignatureType := ty, ev_weight := w, ev_status := (if verified then ''valid'' else ''invalid'')\<rparr>) t
      in if \<not> verified then t else add_weight acct ty w t)"

definition RecordThresholdCheck :: "int \<Rightarrow> string \<Rightarrow> u32 \<Rightarrow> u32 \<Rightarrow> bool \<Rightarrow> tracker \<Rightarrow> tracker" where
  "RecordThresholdCheck now acct required collected passed t =
     (let t = (if passed then t else recordFailure acct ThresholdNotMet required collected t)
      in RecordEvent now (no_event\<lparr>EventType := ''threshold_check'', ev_account := acct,
           ev_status := (if passed then ''passed'' else ''failed''),
           Details := (if passed then NoDetails else Required required collected)\<rparr>) t)"

definition RecordCustomContractCall ::
  "int \<Rightarrow> string \<Rightarrow> string \<Rightarrow> string \<Rightarrow> string list \<Rightarrow> string \<Rightarrow> bool \<Rightarrow> tracker \<Rightarrow> tracker" where
  "RecordCustomContractCall now acct contract meth params result failed t =
     RecordEvent now (no_event\<lparr>EventType := ''custom_contract_auth'', ev_account := acct, ev_status := result,
       Details := CustomCall contract meth params,
       ErrorReason := (if failed then CustomContractFailed else NoReason)\<rparr>) t"

definition staleThresholdMs :: int where
  "staleThresholdMs = 5 * 60 * 1000"

definition recordReplayEvent :: "int \<Rightarrow> string \<Rightarrow> anti_pattern \<Rightarrow> tracker \<Rightarrow> tracker" where
  "recordReplayEvent now acct w t =
     RecordEvent now (no_event\<lparr>ev_time := now, EventType := ''replay_attack_detected'', ev_account := acct,
       ev_status := ''failed'', ErrorReason := ReplayAttackDetected, Details := ReplayDetails True w\<rparr>) t"

definition CheckReplayAttack ::
  "int \<Rightarrow> string \<Rightarrow> string \<Rightarrow> int \<Rightarrow> tracker \<Rightarrow> tracker \<times> anti_pattern option" where
  "CheckReplayAttack now acct nonce ts t =
     (if trim_space nonce = [] then (recordReplayEvent now acct MissingNonce t, Some MissingNonce)
      else if ts > 0 \<and> now - ts > staleThresholdMs
      then (recordReplayEvent now acct (StaleNonce (now - ts)) t, Some (StaleNonce (now - ts)))
      else check_duplicate now acct nonce t)"

definition knownSACContracts :: "(string \<times> string) list" where
  "knownSACContracts =
     [(''CDLZFC3SYJYDZT7K67VZ75HPJVIEUVNIXF47ZG2FB2RMQQVU2HHGCYSC'', ''XLM (Native)''),
      (''CBIELTK6YBZJU5UP2WWQEQPMVNE6BEPVVD47VA5GFDSQLBPZS2FSPJVB'', ''USDC (Circle)'')]"

definition sacMethodSignatures :: "string list" where
  "sacMethodSignatures =
     [''transfer'', ''transfer_from'', ''approve'', ''allowance'', ''balance'', ''mint'', ''burn'', ''burn_from'',
      ''clawback'', ''set_admin'', ''admin'', ''decimals'', ''name'', ''symbol'', ''total_supply'',
      ''authorized'', ''set_authorized'']"

definition isSACContract :: "string \<Rightarrow> string \<Rightarrow> string option" where
  "isSACContract contract meth =
     (case map_of knownSACContracts contract of
        Some label \<Rightarrow> Some label
      | None \<Rightarrow> if list_ex (\<lambda>s. str_lower meth = str_lower s) sacMethodSignatures
                then Some ''unknown SAC asset'' else None)"

definition RecordSACCall ::
  "int \<Rightarrow> string \<Rightarrow> string \<Rightarrow> string \<Rightarrow> string list \<Rightarrow> string \<Rightarrow> string option \<Rightarrow> tracker \<Rightarrow> tracker" where
  "RecordSACCall now acct contract meth params result err t =
     (let sac = isSACContract contract meth
      in RecordEvent now (no_event\<lparr>
           EventType := (if sac = None then ''custom_contract_auth'' else ''sac_call''),
           ev_account := acct, ev_status := result, Details := SACCallDetails sac contract meth params result err,
           ErrorReason := (if err = None then NoReason else CustomContractFailed)\<rparr>) t)"

text \<open>The comparison of the two trees: the first mismatch is recorded and returned.\<close>

fun tree_mismatch :: "nat \<Rightarrow> string list \<Rightarrow> string list \<Rightarrow> event_details option" where
  "tree_mismatch i [] [] = None"
| "tree_mismatch i (x # xs) [] = Some (MissingNode i x)"
| "tree_mismatch i [] (y # ys) = Some (UnexpectedNode i y)"
| "tree_mismatch i (x # xs) (y # ys) =
     (if x \<noteq> y then Some (NodeMismatch i x y) else tree_mismatch (Suc i) xs ys)"

definition VerifyInvocationTreeIntegrity ::
  "int \<Rightarrow> string list \<Rightarrow> string list \<Rightarrow> tracker \<Rightarrow> tracker \<times> event_details option" where
  "VerifyInvocationTreeIntegrity now tree exec t =
     (case tree_mismatch 0 tree exec of
        None \<Rightarrow> (t, None)
      | Some d \<Rightarrow>
          (RecordEvent now (no_event\<lparr>EventType := ''invocation_tree_integrity'', ev_status := ''warning'',
             ErrorReason := ReasonUnknown, Details := d\<rparr>) t, Some d))"

definition GetFailureReport :: "string \<Rightarrow> tracker \<Rightarrow> auth_failure option" where
  "GetFailureReport acct t = find (\<lambda>f. fa_account f = acct) (failures t)"

definition GetAuthEvents :: "string \<Rightarrow> tracker \<Rightarrow> auth_event list" where
  "GetAuthEvents acct t = filter (\<lambda>e. ev_account e = acct) (events t)"

section \<open>The trace\<close>

record key_weight =
  kw_key :: string
  kw_weight :: u32
  kw_type :: string

datatype empty_reason = NotEmpty | NoEntries | FailuresOnly

record trace_diagnostics =
  SourceMappingAvailable :: bool
  EventsWithSourceCount :: nat
  TotalAuthEvents :: nat
  EmptyTraceReason :: empty_reason

record auth_trace =
  Success :: bool
  tr_account :: string
  SignerCount :: u32
  ValidSignatures :: u32
  SignatureWeights :: "key_weight list"
  AuthEvents :: "auth_event list"
  Failures :: "auth_failure list"
  Diagnostics :: trace_diagnostics

definition key_weight_of :: "string \<times> signer_info \<Rightarrow> key_weight" where
  "key_weight_of = (\<lambda>(k, s). \<lparr>kw_key = SignerKey s, kw_weight = si_weight s, kw_type = SignerType s\<rparr>)"

definition is_valid_signature :: "auth_event \<Rightarrow> bool" where
  "is_valid_signature e \<longleftrightarrow> EventType e = ''signature_verification'' \<and> ev_status e = ''valid''"

definition GenerateTrace :: "tracker \<Rightarrow> auth_trace" where
  "GenerateTrace t =
     (let es = events t;
          n = length (filter (\<lambda>e. SourceFile e \<noteq> []) es)
      in \<lparr>Success = (failures t = []),
          tr_account = (case find (\<lambda>a. a \<noteq> []) (map fst (contexts t)) of None \<Rightarrow> [] | Some a \<Rightarrow> a),
          SignerCount = sum_list (map (\<lambda>(_, c). word_of_nat (length (Signers c))) (contexts t)),
          ValidSignatures = word_of_nat (length (filter is_valid_signature es)),
          SignatureWeights = concat (map (\<lambda>(_, c). map key_weight_of (Signers c)) (contexts t)),
          AuthEvents = es, Failures = failures t,
          Diagnostics = \<lparr>SourceMappingAvailable = (n > 0), EventsWithSourceCount = n,
            TotalAuthEvents = length es,
            EmptyTraceReason = (if es \<noteq> [] then NotEmpty
                                else if failures t = [] then NoEntries else FailuresOnly)\<rparr>\<rparr>)"

section \<open>Validation of a trace and of inputs\<close>

datatype trace_issue =
    NilTrace
  | NoAccountID
  | NoEvents
  | NoEventType nat
  | NoStatus nat string
  | UnknownReason nat string
  | Inconsistent nat string u32 u32

definition event_issues :: "nat \<Rightarrow> auth_event \<Rightarrow> trace_issue list" where
  "event_issues i e =
     (if trim_space (EventType e) = [] then [NoEventType (i + 1)] else [])
   @ (if trim_space (ev_status e) = [] then [NoStatus (i + 1) (EventType e)] else [])"

definition failure_issues :: "nat \<Rightarrow> auth_failure \<Rightarrow> trace_issue list" where
  "failure_issues i f =
     (if FailureReason f = ReasonUnknown \<or> FailureReason f = NoReason then [UnknownReason (i + 1) (fa_account f)] else [])
   @ (if RequiredWeight f > 0 \<and> fa_collected f > RequiredWeight f
      then [Inconsistent (i + 1) (fa_account f) (fa_collected f) (RequiredWeight f)] else [])"

definition ValidateAuthTrace :: "auth_trace option \<Rightarrow> trace_issue list" where
  "ValidateAuthTrace tr =
     (case tr of
        None \<Rightarrow> [NilTrace]
      | Some tr \<Rightarrow>
          (if trim_space (tr_account tr) = [] then [NoAccountID] else [])
        @ (if AuthEvents tr = [] then [NoEvents] else [])
        @ concat (map (\<lambda>(i, e). event_issues i e) (List.enumerate 0 (AuthEvents tr)))
        @ concat (map (\<lambda>(i, f). failure_issues i f) (List.enumerate 0 (Failures tr))))"

text \<open>\<open>ValidateContractAuthInput\<close>: which of the two inputs are blank.\<close>

datatype input_issue = NoContractID | NoMethod

definition ValidateContractAuthInput :: "string \<Rightarrow> string \<Rightarrow> input_issue list" where
  "ValidateContractAuthInput contract meth =
     (if trim_space contract = [] then [NoContractID] else [])
   @ (if trim_space meth = [] then [NoMethod] else [])"

section \<open>Handlers of custom contracts\<close>

text \<open>A parameter is an \<open>interface\<close> value: the dynamic types the handlers ask for, and any other.\<close>

datatype param =
    PString string
  | PArray "param list"
  | PObject "(string \<times> param) list"
  | POther

datatype handler =
    MultiSig int u32 "(string \<times> u32) list"
  | Recovery string u64

datatype auth_error =
    InputError "input_issue list"
  | AuthError string string

text \<open>An error of a handler: its code and the rest of its text.\<close>

datatype handler_error = HandlerError string string

fun signer_weight :: "(string \<times> u32) list \<Rightarrow> param \<Rightarrow> u32" where
  "signer_weight signers (PObject o') =
     (case map_of o' ''signer_key'' of
        Some (PString k) \<Rightarrow> (case map_of signers k of None \<Rightarrow> 0 | Some w \<Rightarrow> w)
      | _ \<Rightarrow> 0)"
| "signer_weight signers _ = 0"

fun signatures_of :: "param \<Rightarrow> (handler_error, param list) outcome" where
  "signatures_of (PObject o') =
     (case map_of o' ''signatures'' of
        Some (PArray ss) \<Rightarrow> Ok ss
      | _ \<Rightarrow> Err (HandlerError ''INVALID_SIGNATURE'' ''signatures field not found or invalid type''))"
| "signatures_of _ = Err (HandlerError ''INVALID_SIGNATURE'' ''invalid signatures data format'')"

fun recovery_key :: "param \<Rightarrow> (handler_error, string) outcome" where
  "recovery_key (PString s) = Ok s"
| "recovery_key _ = Err (HandlerError ''INVALID_SIGNATURE'' ''invalid recovery key format'')"

fun MultiSig_ValidateAuth ::
  "int \<Rightarrow> u32 \<Rightarrow> (string \<times> u32) list \<Rightarrow> param list \<Rightarrow> (handler_error, bool) outcome" where
  "MultiSig_ValidateAuth required threshold signers [] =
     Err (HandlerError ''INSUFFICIENT_PARAMS'' ''insufficient parameters for multi-sig validation'')"
| "MultiSig_ValidateAuth required threshold signers (p # _) =
     obind (signatures_of p) (\<lambda>ss.
     if int (length ss) < required
     then Err (HandlerError ''THRESHOLD_NOT_MET'' ''insufficient signatures'')
     else Ok (sum_list (map (signer_weight signers) ss) \<ge> threshold))"

fun Recovery_ValidateAuth :: "string \<Rightarrow> param list \<Rightarrow> (handler_error, bool) outcome" where
  "Recovery_ValidateAuth key (p # _ # _) =
     obind (recovery_key p) (\<lambda>k.
     if k \<noteq> key then Err (HandlerError ''RECOVERY_MISMATCH'' ''recovery key mismatch'') else Ok True)"
| "Recovery_ValidateAuth key _ =
     Err (HandlerError ''INSUFFICIENT_PARAMS'' ''insufficient parameters for recovery validation'')"

text \<open>The call through the interface \<open>ContractAuthHandler\<close>.\<close>

fun ValidateAuth :: "handler \<Rightarrow> param list \<Rightarrow> (handler_error, bool) outcome" where
  "ValidateAuth (MultiSig required threshold signers) params = MultiSig_ValidateAuth required threshold signers params"
| "ValidateAuth (Recovery key delay) params = Recovery_ValidateAuth key params"

definition customAuthErrorMessages :: "(string \<times> string) list" where
  "customAuthErrorMessages =
     [(''AUTH_FAILED'', ''Authorization failed: invalid signature''),
      (''INVALID_SIGNATURE'', ''Authorization failed: invalid signature payload''),
      (''SIGNER_NOT_FOUND'', ''Authorization failed: signer is not registered''),
      (''THRESHOLD_NOT_MET'', ''Authorization failed: signer threshold was not met''),
      (''RECOVERY_MISMATCH'', ''Authorization failed: recovery key mismatch''),
      (''INSUFFICIENT_PARAMS'', ''Authorization failed: insufficient auth parameters'')]"

text \<open>
  \<open>mapCustomAuthError\<close> on a text that starts with an upper-case code: the code the pattern finds is
  that one, and it is looked up.
\<close>

definition mapCustomAuthError :: "handler_error \<Rightarrow> auth_error" where
  "mapCustomAuthError e =
     (case e of HandlerError code rest \<Rightarrow>
        (case map_of customAuthErrorMessages code of
           Some msg \<Rightarrow> AuthError code msg
         | None \<Rightarrow> AuthError code (''authorization failed: unknown custom auth error ('' @ code @ '')'')))"

type_synonym validator = "(string \<times> handler) list"

definition RegisterContract :: "string \<Rightarrow> handler option \<Rightarrow> validator \<Rightarrow> (string, validator) outcome" where
  "RegisterContract contract h v =
     (if contract = [] then Err ''contract ID cannot be empty''
      else case h of None \<Rightarrow> Err ''handler cannot be nil'' | Some h \<Rightarrow> Ok (AList.update contract h v))"

definition UnregisterContract :: "string \<Rightarrow> validator \<Rightarrow> validator" where
  "UnregisterContract contract v = AList.delete contract v"

definition ValidateContract :: "string \<Rightarrow> string \<Rightarrow> param list \<Rightarrow> validator \<Rightarrow> (auth_error, bool) outcome" where
  "ValidateContract contract meth params v =
     (let bad = ValidateContractAuthInput contract meth
      in if bad \<noteq> [] then Err (InputError bad)
         else case map_of v contract of
                None \<Rightarrow> Err (mapCustomAuthError (HandlerError ''SIGNER_NOT_FOUND'' ''no handler registered''))
              | Some h \<Rightarrow> map_err mapCustomAuthError (ValidateAuth h params))"

section \<open>Steps of a shared tracker\<close>

inductive work_step :: "tracker \<Rightarrow> tracker \<Rightarrow> bool" where
  event: "work_step t (RecordEvent now e t)"
| account: "work_step t (InitializeAccountContext acct signers th t)"
| weight: "work_step t (add_weight acct ty w t)"
| failure: "work_step t (recordFailure acct ThresholdNotMet required collected t)"
| nonce: "trim_space nonce \<noteq> [] \<Longrightarrow> work_step t (fst (check_duplicate now acct nonce t))"

inductive auth_step :: "tracker \<Rightarrow> tracker \<Rightarrow> bool" where
  work: "work_step t t' \<Longrightarrow> auth_step t t'"
| clear: "auth_step t (Clear t)"

inductive new_tracker :: "tracker \<Rightarrow> bool" where
  "new_tracker (NewTracker depth)"

inductive_cases work_stepE: "work_step t t'"
inductive_cases auth_stepE: "auth_step t t'"

abbreviation tracked :: "tracker \<Rightarrow> bool" where
  "tracked \<equiv> reachable new_tracker auth_step"

text \<open>The public operations are made of these steps.\<close>

lemma operations_are_steps:
  "work_step\<^sup>*\<^sup>* t (RecordEvent now e t)"
  "work_step\<^sup>*\<^sup>* t (RecordSignatureVerification now acct key ty verified w t)"
  "work_step\<^sup>*\<^sup>* t (RecordThresholdCheck now acct required collected passed t)"
  "work_step\<^sup>*\<^sup>* t (RecordCustomContractCall now acct contract meth params result failed t)"
  "work_step\<^sup>*\<^sup>* t (RecordSACCall now acct contract meth params result err t)"
  "work_step\<^sup>*\<^sup>* t (fst (VerifyInvocationTreeIntegrity now tree exec t))"
  "work_step\<^sup>*\<^sup>* t (fst (CheckReplayAttack now acct nonce ts t))"
proof -
  note one = r_into_rtranclp [of work_step] and two = rtranclp.rtrancl_into_rtrancl [of work_step]
  show "work_step\<^sup>*\<^sup>* t (RecordEvent now e t)" by (rule one) (rule work_step.event)
  show "work_step\<^sup>*\<^sup>* t (RecordSignatureVerification now acct key ty verified w t)"
    by (auto simp: RecordSignatureVerification_def Let_def intro: one two work_step.intros)
  show "work_step\<^sup>*\<^sup>* t (RecordThresholdCheck now acct required collected passed t)"
    by (auto simp: RecordThresholdCheck_def Let_def intro: one two work_step.intros)
  show "work_step\<^sup>*\<^sup>* t (RecordCustomContractCall now acct contract meth params result failed t)"
    "work_step\<^sup>*\<^sup>* t (RecordSACCall now acct contract meth params result err t)"
    by (auto simp: RecordCustomContractCall_def RecordSACCall_def Let_def intro: one work_step.intros)
  show "work_step\<^sup>*\<^sup>* t (fst (VerifyInvocationTreeIntegrity now tree exec t))"
    by (auto simp: VerifyInvocationTreeIntegrity_def intro: one work_step.intros split: option.split)
  show "work_step\<^sup>*\<^sup>* t (fst (CheckReplayAttack now acct nonce ts t))"
    by (auto simp: CheckReplayAttack_def recordReplayEvent_def intro: one work_step.intros)
qed

lemma tracked_steps: "work_step\<^sup>*\<^sup>* t t' \<Longrightarrow> tracked t \<Longrightarrow> tracked t'"
  by (induction rule: rtranclp_induct) (auto intro: reachable.step auth_step.work)

section \<open>Well-formed trackers\<close>

definition wf_context :: "string \<times> account_context \<Rightarrow> bool" where
  "wf_context = (\<lambda>(a, c). AccountID c = a \<and> distinct (map fst (Signers c))
     \<and> list_all (\<lambda>(k, s). SignerKey s = k) (Signers c) \<and> distinct (map fst (WeightByType c))
     \<and> CollectedWeight c = sum_list (map snd (WeightByType c)))"

definition wf_failure :: "auth_failure \<Rightarrow> bool" where
  "wf_failure f \<longleftrightarrow> FailureReason f = ThresholdNotMet \<and> MissingWeight f = RequiredWeight f - fa_collected f"

definition wf_tracker :: "tracker \<Rightarrow> bool" where
  "wf_tracker t \<longleftrightarrow>
     (MaxEventDepth t \<le> 0 \<or> int (length (events t)) \<le> MaxEventDepth t)
   \<and> list_all wf_failure (failures t)
   \<and> distinct (map fst (contexts t)) \<and> list_all wf_context (contexts t)
   \<and> (\<forall>a m n. seenNonces t a = Some m \<and> m n \<noteq> None \<longrightarrow> trim_space n \<noteq> [])"

lemma sum_update:
  fixes m :: "(string \<times> u32) list"
  assumes "distinct (map fst m)"
  shows "sum_list (map snd (AList.update k (weight_of k m + w) m)) = sum_list (map snd m) + w"
  using assms
proof (induction m)
  case (Cons x m)
  obtain a v where x: "x = (a, v)" by (cases x)
  show ?case
  proof (cases "a = k")
    case False
    with x Cons show ?thesis by (simp add: weight_of_def algebra_simps)
  qed (simp add: x weight_of_def algebra_simps)
qed (simp add: weight_of_def)

lemma list_all_update:
  "list_all P m \<Longrightarrow> P (k, v) \<Longrightarrow> list_all P (AList.update k v m)"
  by (induction m) auto

lemma wf_event: "wf_tracker t \<Longrightarrow> wf_tracker (RecordEvent now e t)"
  by (auto simp: wf_tracker_def RecordEvent_def Let_def)

lemma wf_account: "wf_tracker t \<Longrightarrow> wf_tracker (InitializeAccountContext acct signers th t)"
proof -
  have "distinct (map fst (fold (\<lambda>s m. AList.update (SignerKey s) s m) signers m))
      \<and> list_all (\<lambda>(k, s). SignerKey s = k) (fold (\<lambda>s m. AList.update (SignerKey s) s m) signers m)"
    if "distinct (map fst m)" "list_all (\<lambda>(k, s). SignerKey s = k) m" for m
    using that by (induction signers arbitrary: m) (simp_all add: distinct_update list_all_update)
  from this [of "[]"] show "wf_tracker t \<Longrightarrow> wf_tracker (InitializeAccountContext acct signers th t)"
    by (simp add: wf_tracker_def InitializeAccountContext_def Let_def distinct_update list_all_update wf_context_def)
qed

lemma wf_weight: "wf_tracker t \<Longrightarrow> wf_tracker (add_weight acct ty w t)"
proof (cases "map_of (contexts t) acct")
  case (Some c)
  assume t: "wf_tracker t"
  with Some have "wf_context (acct, c)"
    by (auto simp: wf_tracker_def list_all_iff dest: map_of_SomeD)
  then have "wf_context (acct, c\<lparr>CollectedWeight := CollectedWeight c + w,
      WeightByType := AList.update ty (weight_of ty (WeightByType c) + w) (WeightByType c)\<rparr>)"
    by (simp add: wf_context_def sum_update distinct_update)
  with t Some show ?thesis
    by (simp add: add_weight_def Let_def wf_tracker_def distinct_update list_all_update)
qed (simp add: add_weight_def)

lemma wf_fail: "wf_tracker t \<Longrightarrow> wf_tracker (recordFailure acct ThresholdNotMet required collected t)"
  by (simp add: wf_tracker_def recordFailure_def Let_def wf_failure_def)

lemma wf_nonce: "wf_tracker t \<Longrightarrow> trim_space nonce \<noteq> [] \<Longrightarrow> wf_tracker (fst (check_duplicate now acct nonce t))"
  by (auto simp: wf_tracker_def check_duplicate_def Let_def split: option.splits if_splits)

interpretation auth: machine new_tracker auth_step wf_tracker
proof
  show "wf_tracker t" if "new_tracker t" for t
    using that by (auto elim!: new_tracker.cases simp: wf_tracker_def NewTracker_def)
  show "wf_tracker t'" if t: "wf_tracker t" and st: "auth_step t t'" for t t'
    using st
  proof cases
    case work
    then show ?thesis using t by cases (simp_all add: wf_event wf_account wf_weight wf_fail wf_nonce)
  next
    case clear
    with t show ?thesis by (auto simp: wf_tracker_def Clear_def)
  qed
qed

text \<open>C31. Every tracker that the operations can produce, in any interleaving of their critical
  sections, is well-formed: at most MaxEventDepth events when that is positive, one context for
  each account under its own name, each signer under its own key, the collected weight equal to
  the sum of the weights by type, every failure a missed threshold whose missing weight is the
  difference, and no blank nonce among the nonces seen.\<close>

theorem tracker_well_formed: "tracked t \<Longrightarrow> wf_tracker t"
  by (rule auth.reachable_inv)

lemma tracked_new: "tracked (NewTracker depth)"
  by (rule reachable.start) (rule new_tracker.intros)

lemma tracker_well_formed_witness:
  "let t = RecordThresholdCheck 5 ''G'' 3 1 False (NewTracker 1) in
     wf_tracker t \<and> length (events t) = 1 \<and> map MissingWeight (failures t) = [2]"
proof -
  let ?t = "RecordThresholdCheck 5 ''G'' 3 1 False (NewTracker 1)"
  have "wf_tracker ?t"
    by (rule tracker_well_formed, rule tracked_steps [OF operations_are_steps(3) tracked_new])
  moreover have "length (events ?t) = 1 \<and> map MissingWeight (failures ?t) = [2]" by code_simp
  ultimately show ?thesis by (simp add: Let_def)
qed

section \<open>Nonces\<close>

lemma nonce_kept:
  assumes "work_step t t'" and "seenNonces t acct = Some m" and "m nonce = Some first"
  shows "\<exists>m'. seenNonces t' acct = Some m' \<and> m' nonce = Some first"
  using assms
proof cases
  case (nonce n now a)
  with assms(2,3) show ?thesis by (auto simp: check_duplicate_def Let_def split: option.splits)
qed (auto simp: RecordEvent_def InitializeAccountContext_def add_weight_def recordFailure_def Let_def
    split: option.splits)

lemma nonce_kept_steps:
  assumes "work_step\<^sup>*\<^sup>* t t'" and "seenNonces t acct = Some m" and "m nonce = Some first"
  shows "\<exists>m'. seenNonces t' acct = Some m' \<and> m' nonce = Some first"
  using assms by (induction rule: rtranclp_induct) (auto dest: nonce_kept)

lemma CheckReplayAttack_fresh:
  assumes "CheckReplayAttack now acct nonce ts t = (t', None)"
  shows "trim_space nonce \<noteq> [] \<and> (\<exists>m. seenNonces t' acct = Some m \<and> m nonce = Some now)"
  using assms by (auto simp: CheckReplayAttack_def check_duplicate_def Let_def split: if_splits option.splits)

lemma CheckReplayAttack_seen:
  assumes "trim_space nonce \<noteq> []" and "seenNonces t acct = Some m" and "m nonce = Some first"
  shows "snd (CheckReplayAttack now acct nonce ts t) =
    Some (if ts > 0 \<and> now - ts > staleThresholdMs then StaleNonce (now - ts) else DuplicateNonce nonce first)"
  using assms by (simp add: CheckReplayAttack_def check_duplicate_def Let_def)

text \<open>C32. A nonce is accepted once: after CheckReplayAttack has accepted one for an account, every
  later check of it for that account is a warning, whatever sections of other operations ran in
  between, as long as the tracker is not cleared: that it is stale when its timestamp is,
  otherwise that it was used, at the time of the acceptance.\<close>

theorem nonce_accepted_once:
  assumes "CheckReplayAttack now acct nonce ts t = (t', None)" and "work_step\<^sup>*\<^sup>* t' u"
  shows "snd (CheckReplayAttack now' acct nonce ts' u) =
    Some (if ts' > 0 \<and> now' - ts' > staleThresholdMs then StaleNonce (now' - ts') else DuplicateNonce nonce now)"
proof -
  from CheckReplayAttack_fresh [OF assms(1)] obtain m where
    n: "trim_space nonce \<noteq> []" and m: "seenNonces t' acct = Some m" "m nonce = Some now" by blast
  from nonce_kept_steps [OF assms(2) m] obtain m' where "seenNonces u acct = Some m'" "m' nonce = Some now"
    by blast
  with n show ?thesis by (rule CheckReplayAttack_seen)
qed

lemma nonce_accepted_once_witness:
  "snd (CheckReplayAttack 20 ''G'' ''n1'' 0
     (RecordThresholdCheck 15 ''G'' 3 1 False (fst (CheckReplayAttack 10 ''G'' ''n1'' 0 (NewTracker 0))))) =
   Some (DuplicateNonce ''n1'' 10)"
proof -
  let ?t = "fst (CheckReplayAttack 10 ''G'' ''n1'' 0 (NewTracker 0))"
  have "snd (CheckReplayAttack 10 ''G'' ''n1'' 0 (NewTracker 0)) = None"
    by (simp add: CheckReplayAttack_def trim_space_def is_space_def check_duplicate_def NewTracker_def Let_def)
  then have "CheckReplayAttack 10 ''G'' ''n1'' 0 (NewTracker 0) = (?t, None)" by (metis prod.collapse)
  from nonce_accepted_once [OF this operations_are_steps(3), of 20 0] show ?thesis by simp
qed

text \<open>A nonce that is not blank, not stale and not seen is accepted.\<close>

lemma CheckReplayAttack_accepts:
  "snd (CheckReplayAttack now acct nonce ts t) = None \<longleftrightarrow>
     trim_space nonce \<noteq> [] \<and> \<not> (ts > 0 \<and> now - ts > staleThresholdMs)
   \<and> (case seenNonces t acct of None \<Rightarrow> True | Some m \<Rightarrow> m nonce = None)"
  by (auto simp: CheckReplayAttack_def check_duplicate_def Let_def split: option.splits)

text \<open>A replay attack that is found leaves the trace successful: whatever CheckReplayAttack returns,
  the failures are the same as before, so the generated trace has the same Success; a new tracker that
  has just found a replay reports success.
\<close>

theorem replay_leaves_success:
  "Failures (GenerateTrace (fst (CheckReplayAttack now acct nonce ts t))) = Failures (GenerateTrace t)
 \<and> Success (GenerateTrace (fst (CheckReplayAttack now acct nonce ts t))) = Success (GenerateTrace t)
 \<and> snd (CheckReplayAttack now acct [] ts (NewTracker depth)) = Some MissingNonce
 \<and> Success (GenerateTrace (fst (CheckReplayAttack now acct [] ts (NewTracker depth))))"
proof -
  have fails: "failures (fst (CheckReplayAttack now acct nonce ts t)) = failures t" for nonce t
    by (auto simp: CheckReplayAttack_def recordReplayEvent_def RecordEvent_def check_duplicate_def Let_def
        split: option.split)
  have "snd (CheckReplayAttack now acct [] ts (NewTracker depth)) = Some MissingNonce"
    by (simp add: CheckReplayAttack_def trim_space_def)
  moreover have "failures (NewTracker depth) = []" by (simp add: NewTracker_def)
  ultimately show ?thesis by (simp add: GenerateTrace_def Let_def fails)
qed

section \<open>Weights in the trace\<close>

lemma validated_failures:
  assumes "ValidateAuthTrace (Some tr) = []" and "f \<in> set (Failures tr)"
  shows "RequiredWeight f = 0 \<or> fa_collected f \<le> RequiredWeight f"
proof -
  from assms(2) obtain i where "i < length (Failures tr)" "Failures tr ! i = f"
    by (auto simp: in_set_conv_nth)
  then have "(i, f) \<in> set (List.enumerate 0 (Failures tr))"
    by (auto simp: in_set_enumerate_eq)
  with assms(1) have "failure_issues i f = []" by (fastforce simp: ValidateAuthTrace_def)
  then show ?thesis by (auto simp: failure_issues_def not_less split: if_splits)
qed

text \<open>When ValidateAuthTrace finds nothing wrong with the trace of a tracker, every failure in it is a
  missed threshold, and the missing weight of a failure with a positive requirement is what the
  requirement exceeds the collected weight by, as numbers: it did not wrap around.
\<close>

theorem validated_missing_weight:
  assumes "tracked t" and "ValidateAuthTrace (Some (GenerateTrace t)) = []" and "f \<in> set (Failures (GenerateTrace t))"
    and "RequiredWeight f > 0"
  shows "FailureReason f = ThresholdNotMet \<and> unat (MissingWeight f) + unat (fa_collected f) = unat (RequiredWeight f)"
proof -
  have f: "f \<in> set (failures t)" using assms(3) by (simp add: GenerateTrace_def Let_def)
  have "wf_tracker t" using assms(1) by (rule auth.reachable_inv)
  with f have wf: "FailureReason f = ThresholdNotMet" "MissingWeight f = RequiredWeight f - fa_collected f"
    by (auto simp: wf_tracker_def wf_failure_def list_all_iff)
  from validated_failures [OF assms(2,3)] assms(4) have "fa_collected f \<le> RequiredWeight f" by auto
  then have "unat (fa_collected f) \<le> unat (RequiredWeight f)" by (simp add: word_le_nat_alt)
  with wf \<open>fa_collected f \<le> RequiredWeight f\<close> show ?thesis by (simp add: unat_sub)
qed

definition sample_tracker :: tracker where
  "sample_tracker = RecordThresholdCheck 5 ''G'' 3 1 False
     (InitializeAccountContext ''G'' [] \<lparr>LowThreshold = 1, MediumThreshold = 2, HighThreshold = 3\<rparr> (NewTracker 0))"

lemma tracked_sample: "tracked sample_tracker"
  unfolding sample_tracker_def
  by (rule tracked_steps [OF operations_are_steps(3)], rule reachable.step [OF tracked_new])
    (rule auth_step.work, rule work_step.account)

lemma validated_missing_weight_witness:
  "let f = hd (Failures (GenerateTrace sample_tracker))
   in unat (MissingWeight f) + unat (fa_collected f) = unat (RequiredWeight f) \<and> RequiredWeight f = 3"
proof -
  let ?f = "hd (Failures (GenerateTrace sample_tracker))"
  have "ValidateAuthTrace (Some (GenerateTrace sample_tracker)) = []"
    "?f \<in> set (Failures (GenerateTrace sample_tracker))" "RequiredWeight ?f = 3"
    by (simp_all add: sample_tracker_def RecordThresholdCheck_def RecordEvent_def recordFailure_def
      InitializeAccountContext_def NewTracker_def GenerateTrace_def ValidateAuthTrace_def event_issues_def
      failure_issues_def trim_space_def is_space_def no_event_def Let_def)
  with validated_missing_weight [OF tracked_sample, of ?f] show ?thesis by (simp add: Let_def)
qed

text \<open>A check recorded as failed with more weight than required has a missing weight near \<open>2 ^ 32\<close>.\<close>

lemma missing_weight_wraps:
  "map MissingWeight (failures (RecordThresholdCheck now acct 1 2 False (NewTracker 0))) = [4294967295]"
  by (simp add: RecordThresholdCheck_def recordFailure_def RecordEvent_def NewTracker_def Let_def)

section \<open>Custom contracts\<close>

text \<open>Every error of a handler has a code with a message.\<close>

definition known_error :: "handler_error \<Rightarrow> bool" where
  "known_error e = (case e of HandlerError code rest \<Rightarrow> map_of customAuthErrorMessages code \<noteq> None)"

lemma known_errors:
  "known_error (HandlerError ''INVALID_SIGNATURE'' rest)" "known_error (HandlerError ''INSUFFICIENT_PARAMS'' rest)"
  "known_error (HandlerError ''THRESHOLD_NOT_MET'' rest)" "known_error (HandlerError ''RECOVERY_MISMATCH'' rest)"
  "known_error (HandlerError ''SIGNER_NOT_FOUND'' rest)"
  by (simp_all add: known_error_def customAuthErrorMessages_def)

lemma signatures_of_error: "signatures_of p = Err e \<Longrightarrow> known_error e"
  by (cases p) (auto simp: known_errors split: option.splits param.splits)

lemma recovery_key_error: "recovery_key p = Err e \<Longrightarrow> known_error e"
  by (cases p) (auto simp: known_errors)

lemma obind_Err: "obind m f = Err e \<Longrightarrow> m = Err e \<or> (\<exists>x. m = Ok x \<and> f x = Err e)"
  by (cases m) auto

lemma ValidateAuth_error: "ValidateAuth h params = Err e \<Longrightarrow> known_error e"
proof (induction h params rule: ValidateAuth.induct)
  case (1 required threshold signers params)
  then show ?case
    by (cases params) (auto dest!: obind_Err dest: signatures_of_error simp: known_errors split: if_splits)
next
  case (2 key delay params)
  then show ?case
    by (cases "(key, params)" rule: Recovery_ValidateAuth.cases)
      (auto dest!: obind_Err dest: recovery_key_error simp: known_errors split: if_splits)
qed

lemma ValidateContract_error:
  assumes "ValidateContract contract meth params v = Err (AuthError code msg)"
  shows "map_of customAuthErrorMessages code = Some msg"
proof -
  have "map_of customAuthErrorMessages code = Some msg"
    if "mapCustomAuthError e = AuthError code msg" "known_error e" for e
    using that by (auto simp: mapCustomAuthError_def known_error_def split: handler_error.splits)
  moreover obtain e where "mapCustomAuthError e = AuthError code msg" "known_error e"
  proof (cases "map_of v contract")
    case None
    with assms that show thesis by (auto simp: ValidateContract_def Let_def known_errors split: if_splits)
  next
    case (Some h)
    with assms have "map_err mapCustomAuthError (ValidateAuth h params) = Err (AuthError code msg)"
      by (auto simp: ValidateContract_def Let_def split: if_splits)
    with that ValidateAuth_error [of h params] show thesis by (cases "ValidateAuth h params") auto
  qed
  ultimately show ?thesis by blast
qed

text \<open>C33. A multi-signature contract counts one signer as often as it signs: as many copies of the
  entry of one registered signer as signatures are required authorise the call, when the copies
  together have the threshold's weight and the sum fits in 32 bits.\<close>

theorem one_signer_reaches_threshold:
  assumes "map_of v contract = Some (MultiSig required threshold signers)"
    and "trim_space contract \<noteq> []" and "trim_space meth \<noteq> []"
    and "map_of signers k = Some w" and "required \<le> int n"
    and "n * unat w < 2 ^ 32" and "unat threshold \<le> n * unat w"
  shows "ValidateContract contract meth
           [PObject [(''signatures'', PArray (replicate n (PObject [(''signer_key'', PString k)])))]] v = Ok True"
proof -
  let ?p = "PObject [(''signer_key'', PString k)]"
  have "unat (of_nat n * w) = n * unat w"
  proof -
    have "of_nat n * w = word_of_nat (n * unat w)" by simp
    moreover have "unat (word_of_nat (n * unat w) :: u32) = n * unat w"
      unfolding unat_of_nat using assms(6) by simp
    ultimately show ?thesis by simp
  qed
  with assms(4,7) have "threshold \<le> of_nat n * signer_weight signers ?p" by (simp add: word_le_nat_alt)
  with assms show ?thesis
    by (simp add: ValidateContract_def ValidateContractAuthInput_def sum_list_replicate)
qed

lemma one_signer_reaches_threshold_witness:
  "ValidateContract ''C1'' ''pay''
     [PObject [(''signatures'', PArray (replicate 3 (PObject [(''signer_key'', PString ''alice'')])))]]
     [(''C1'', MultiSig 3 3 [(''alice'', 1), (''bob'', 1), (''carol'', 1)])] = Ok True"
  by (rule one_signer_reaches_threshold [where w = 1 and required = 3 and threshold = 3
        and signers = "[(''alice'', 1), (''bob'', 1), (''carol'', 1)]"])
    (simp_all add: trim_space_def is_space_def)

text \<open>Signatures of two signers whose weights add up to \<open>2 ^ 32\<close> weigh nothing.\<close>

lemma weights_wrap:
  "ValidateAuth (MultiSig 2 1 [(''a'', 2147483648), (''b'', 2147483648)])
     [PObject [(''signatures'', PArray [PObject [(''signer_key'', PString ''a'')], PObject [(''signer_key'', PString ''b'')]])]]
   = Ok False"
  by code_simp

end
