(* ===== verification/TraceDiff.thy ===== *)
theory TraceDiff
  imports Navigation "HOL-Library.Multiset"
begin

text \<open>
  \<open>internal/trace/diff.go\<close>: the comparison of two execution traces. Each old step is matched with the
  first new step of the same key that is still free, the free new steps follow as insertions, and
  the comparison is same when every entry is an equal pair. The values of a trace are of the type
  parameter \<open>'v\<close>, as in \<open>Navigation\<close>; \<open>cost_of\<close> reads the cost annotation behind a pointer. The
  renderers (text, JSON, HTML) and the time of generation are left out.
\<close>

section \<open>Data\<close>

datatype diff_kind = DiffEqual | DiffInsert | DiffRemove | DiffChanged | DiffDiverge

type_synonym diff_field = "string \<times> string \<times> string"

record diff_entry =
  Kind :: diff_kind
  OldStep :: nat
  NewStep :: nat
  OldSummary :: string
  NewSummary :: string
  Changes :: "diff_field list"

record trace_diff =
  OldTxHash :: string
  NewTxHash :: string
  Entries :: "diff_entry list"
  OldStepCount :: nat
  NewStepCount :: nat
  DivergenceIdx :: int
  IsEmpty :: bool

text \<open>The two numbers of a \<open>CostAnnotation\<close> that are compared.\<close>

record cost_annotation =
  CPU :: u64
  MemoryBytes :: u64

section \<open>Steps\<close>

fun str_join :: "string \<Rightarrow> string list \<Rightarrow> string" where
  "str_join sep [] = []"
| "str_join sep [s] = s"
| "str_join sep (s # t # ts) = s @ sep @ str_join sep (t # ts)"

definition stepKey :: "'v exec_state \<Rightarrow> string" where
  "stepKey s =
     (if SequenceID s > 0 then ''seq:'' @ fmt_nat (unat (SequenceID s))
      else str_join ''|'' [ContractID s, Function s, Operation s])"

definition stepSummary :: "'v exec_state \<Rightarrow> string" where
  "stepSummary s =
     (let parts = (if ContractID s \<noteq> [] then [take (min 12 (length (ContractID s))) (ContractID s)] else [])
                @ (if Function s \<noteq> [] then [Function s] else [])
                @ (if ErrorText s \<noteq> [] then [''ERR:'' @ ErrorText s] else [])
      in str_join '' / '' (if parts = [] then [Operation s] else parts))"

definition fmt_u64 :: "u64 \<Rightarrow> string" where
  "fmt_u64 w = fmt_nat (unat w)"

definition cost_fields :: "cost_annotation \<Rightarrow> cost_annotation \<Rightarrow> diff_field list" where
  "cost_fields c d =
     (if CPU c \<noteq> CPU d then [(''gas_cpu'', fmt_u64 (CPU c), fmt_u64 (CPU d))] else [])
   @ (if MemoryBytes c \<noteq> MemoryBytes d then [(''gas_mem'', fmt_u64 (MemoryBytes c), fmt_u64 (MemoryBytes d))] else [])"

definition field_diff :: "string \<Rightarrow> string \<Rightarrow> string \<Rightarrow> diff_field list" where
  "field_diff f x y = (if x \<noteq> y then [(f, x, y)] else [])"

definition compareFields :: "('v \<Rightarrow> cost_annotation) \<Rightarrow> 'v exec_state \<Rightarrow> 'v exec_state \<Rightarrow> diff_field list" where
  "compareFields cost_of s t =
     field_diff ''operation'' (Operation s) (Operation t)
   @ field_diff ''contract_id'' (ContractID s) (ContractID t)
   @ field_diff ''function'' (Function s) (Function t)
   @ field_diff ''error'' (ErrorText s) (ErrorText t)
   @ (if SourceFile s \<noteq> SourceFile t \<or> SourceLine s \<noteq> SourceLine t
      then [(''source'', SourceFile s @ '':'' @ fmt_int (SourceLine s), SourceFile t @ '':'' @ fmt_int (SourceLine t))]
      else [])
   @ (case (Cost s, Cost t) of (Some c, Some d) \<Rightarrow> cost_fields (cost_of c) (cost_of d) | _ \<Rightarrow> [])"

section \<open>Alignment\<close>

text \<open>The inner loop: the first free new step with the key, none for the key of a blank step.\<close>

definition find_match :: "string \<Rightarrow> bool list \<Rightarrow> 'v exec_state list \<Rightarrow> nat option" where
  "find_match key matched news =
     find (\<lambda>i. \<not> matched ! i \<and> stepKey (news ! i) = key \<and> key \<noteq> ''||'') [0..<length news]"

definition pair_entry :: "('v \<Rightarrow> cost_annotation) \<Rightarrow> nat \<Rightarrow> 'v exec_state \<Rightarrow> nat \<Rightarrow> 'v exec_state \<Rightarrow> diff_entry" where
  "pair_entry cost_of i s j t =
     (let fields = compareFields cost_of s t
      in \<lparr>Kind = (if fields \<noteq> [] then DiffChanged else DiffEqual), OldStep = i, NewStep = j,
          OldSummary = stepSummary s, NewSummary = stepSummary t, Changes = fields\<rparr>)"

definition removed_entry :: "nat \<Rightarrow> 'v exec_state \<Rightarrow> diff_entry" where
  "removed_entry i s = \<lparr>Kind = DiffRemove, OldStep = i, NewStep = 0, OldSummary = stepSummary s,
     NewSummary = [], Changes = []\<rparr>"

definition inserted_entry :: "nat \<Rightarrow> 'v exec_state \<Rightarrow> diff_entry" where
  "inserted_entry j t = \<lparr>Kind = DiffInsert, OldStep = 0, NewStep = j, OldSummary = [],
     NewSummary = stepSummary t, Changes = []\<rparr>"

fun align ::
  "('v \<Rightarrow> cost_annotation) \<Rightarrow> 'v exec_state list \<Rightarrow> nat \<Rightarrow> 'v exec_state list \<Rightarrow> bool list
   \<Rightarrow> diff_entry list \<times> bool list" where
  "align cost_of news i [] matched = ([], matched)"
| "align cost_of news i (s # olds) matched =
     (case find_match (stepKey s) matched news of
        Some j \<Rightarrow>
          (let (es, m) = align cost_of news (Suc i) olds (matched[j := True])
           in (pair_entry cost_of i s j (news ! j) # es, m))
      | None \<Rightarrow>
          (let (es, m) = align cost_of news (Suc i) olds matched in (removed_entry i s # es, m)))"

definition insertions :: "'v exec_state list \<Rightarrow> bool list \<Rightarrow> diff_entry list" where
  "insertions news matched =
     map (\<lambda>j. inserted_entry j (news ! j)) (filter (\<lambda>j. \<not> matched ! j) [0..<length news])"

definition diff_entries :: "('v \<Rightarrow> cost_annotation) \<Rightarrow> 'v exec_state list \<Rightarrow> 'v exec_state list \<Rightarrow> diff_entry list" where
  "diff_entries cost_of olds news =
     (let (es, m) = align cost_of news 0 olds (replicate (length news) False) in es @ insertions news m)"

text \<open>The last loop: the first entry that is not equal, and whether there is one.\<close>

fun divergence :: "nat \<Rightarrow> diff_entry list \<Rightarrow> int \<times> bool \<Rightarrow> int \<times> bool" where
  "divergence i [] r = r"
| "divergence i (e # es) (d, same) =
     divergence (Suc i) es
       (if Kind e \<noteq> DiffEqual then (if d < 0 then int i else d, False) else (d, same))"

definition ComputeTraceDiff ::
  "('v \<Rightarrow> cost_annotation) \<Rightarrow> 'v trace option \<Rightarrow> 'v trace option \<Rightarrow> trace_diff" where
  "ComputeTraceDiff cost_of old new =
     (let hash = (\<lambda>t. case t of None \<Rightarrow> [] | Some t \<Rightarrow> TransactionHash t);
          count = (\<lambda>t. case t of None \<Rightarrow> 0 | Some t \<Rightarrow> length (States t));
          d = \<lparr>OldTxHash = hash old, NewTxHash = hash new, Entries = [], OldStepCount = count old,
               NewStepCount = count new, DivergenceIdx = - 1, IsEmpty = False\<rparr>
      in case (old, new) of
           (Some o', Some n') \<Rightarrow>
             (let es = diff_entries cost_of (States o') (States n');
                  (idx, same) = divergence 0 es (- 1, True)
              in d\<lparr>Entries := es, DivergenceIdx := idx, IsEmpty := same\<rparr>)
         | _ \<Rightarrow> d)"

section \<open>What the entries say\<close>

text \<open>The old steps and the new steps that the entries are about, in the order of the entries.\<close>

definition old_steps :: "diff_entry list \<Rightarrow> nat list" where
  "old_steps es = map OldStep (filter (\<lambda>e. Kind e \<noteq> DiffInsert) es)"

definition new_steps :: "diff_entry list \<Rightarrow> nat list" where
  "new_steps es = map NewStep (filter (\<lambda>e. Kind e \<noteq> DiffRemove) es)"

text \<open>An entry with a step of both traces: the steps have one key, and it is equal when no field differs.\<close>

definition sound_entry :: "('v \<Rightarrow> cost_annotation) \<Rightarrow> 'v exec_state list \<Rightarrow> 'v exec_state list \<Rightarrow> diff_entry \<Rightarrow> bool" where
  "sound_entry cost_of olds news e =
     (if Kind e = DiffEqual \<or> Kind e = DiffChanged then
        stepKey (olds ! OldStep e) = stepKey (news ! NewStep e) \<and> stepKey (olds ! OldStep e) \<noteq> ''||''
      \<and> Changes e = compareFields cost_of (olds ! OldStep e) (news ! NewStep e)
      \<and> (Kind e = DiffEqual) = (Changes e = [])
      else Kind e \<noteq> DiffDiverge)"

lemma find_match_Some:
  assumes "find_match key matched news = Some j"
  shows "j < length news" "\<not> matched ! j" "stepKey (news ! j) = key" "key \<noteq> ''||''"
    "\<And>i. i < j \<Longrightarrow> matched ! i \<or> stepKey (news ! i) \<noteq> key"
  using assms by (auto simp: find_match_def find_Some_iff)

lemma find_match_None:
  "find_match key matched news = None \<longleftrightarrow>
   (\<forall>i<length news. matched ! i \<or> stepKey (news ! i) \<noteq> key \<or> key = ''||'')"
  by (auto simp: find_match_def find_None_iff)

lemma entry_kinds [simp]:
  "Kind (removed_entry i s) = DiffRemove" "Kind (inserted_entry j t) = DiffInsert"
  "Kind (pair_entry c i s j t) = DiffEqual \<or> Kind (pair_entry c i s j t) = DiffChanged"
  "Kind (pair_entry c i s j t) \<noteq> DiffInsert" "Kind (pair_entry c i s j t) \<noteq> DiffRemove"
  "OldStep (removed_entry i s) = i" "NewStep (inserted_entry j t) = j"
  "OldStep (pair_entry c i s j t) = i" "NewStep (pair_entry c i s j t) = j"
  by (simp_all add: removed_entry_def inserted_entry_def pair_entry_def Let_def)

lemma align_old_steps:
  "align c news i olds matched = (es, m) \<Longrightarrow> old_steps es = [i..<i + length olds]"
proof (induction c news i olds matched arbitrary: es m rule: align.induct)
  case (2 c news i s olds matched)
  have up: "[i..<i + length (s # olds)] = i # [Suc i..<Suc i + length olds]"
    by (simp add: upt_conv_Cons del: upt_Suc)
  show ?case
  proof (cases "find_match (stepKey s) matched news")
    case None
    from None "2.prems" obtain es' where
      al: "align c news (Suc i) olds matched = (es', m)" "es = removed_entry i s # es'"
      by (auto split: prod.splits)
    from "2.IH"(1) [OF None al(1)] al(2) show ?thesis unfolding up by (simp add: old_steps_def)
  next
    case (Some j)
    from Some "2.prems" obtain es' where
      al: "align c news (Suc i) olds (matched[j := True]) = (es', m)"
          "es = pair_entry c i s j (news ! j) # es'"
      by (auto split: prod.splits)
    from "2.IH"(2) [OF Some al(1)] al(2) show ?thesis unfolding up by (simp add: old_steps_def)
  qed
qed (simp add: old_steps_def)

lemma align_new_steps:
  "align c news i olds matched = (es, m) \<Longrightarrow> length matched = length news \<Longrightarrow>
   length m = length news \<and> distinct (new_steps es)
 \<and> set (new_steps es) = {j. j < length news \<and> \<not> matched ! j \<and> m ! j} \<and> (\<forall>j<length news. matched ! j \<longrightarrow> m ! j)"
proof (induction c news i olds matched arbitrary: es m rule: align.induct)
  case (2 c news i s olds matched)
  show ?case
  proof (cases "find_match (stepKey s) matched news")
    case None
    from None "2.prems" obtain es' where
      al: "align c news (Suc i) olds matched = (es', m)" "es = removed_entry i s # es'"
      by (auto split: prod.splits)
    from "2.IH"(1) [OF None al(1) "2.prems"(2)] al(2) show ?thesis by (simp add: new_steps_def)
  next
    case (Some j)
    note j = find_match_Some [OF Some]
    from Some "2.prems" obtain es' where
      al: "align c news (Suc i) olds (matched[j := True]) = (es', m)"
          "es = pair_entry c i s j (news ! j) # es'"
      by (auto split: prod.splits)
    have len: "length (matched[j := True]) = length news" using "2.prems"(2) by simp
    note IH = "2.IH"(2) [OF Some al(1) len]
    have ns: "new_steps es = j # new_steps es'" using al(2) by (simp add: new_steps_def)
    from IH j "2.prems"(2) show ?thesis
      by (auto simp: ns nth_list_update split: if_splits)
  qed
qed (auto simp: new_steps_def)

lemma align_sound:
  "align c news i olds matched = (es, m) \<Longrightarrow> i + length olds = length all \<Longrightarrow> drop i all = olds \<Longrightarrow>
   list_all (sound_entry c all news) es"
proof (induction c news i olds matched arbitrary: es m rule: align.induct)
  case (2 c news i s olds matched)
  from "2.prems"(2,3) have s: "all ! i = s" "drop (Suc i) all = olds" "Suc i + length olds = length all"
    by (metis nth_via_drop, metis drop_Suc tl_drop list.sel(3), simp)
  show ?case
  proof (cases "find_match (stepKey s) matched news")
    case None
    from None "2.prems"(1) obtain es' where
      al: "align c news (Suc i) olds matched = (es', m)" "es = removed_entry i s # es'"
      by (auto split: prod.splits)
    have "sound_entry c all news (removed_entry i s)" by (simp add: sound_entry_def)
    with "2.IH"(1) [OF None al(1) s(3,2)] al(2) show ?thesis by simp
  next
    case (Some j)
    note j = find_match_Some [OF Some]
    from Some "2.prems"(1) obtain es' where
      al: "align c news (Suc i) olds (matched[j := True]) = (es', m)"
          "es = pair_entry c i s j (news ! j) # es'"
      by (auto split: prod.splits)
    have "sound_entry c all news (pair_entry c i s j (news ! j))"
      using s j by (auto simp: sound_entry_def pair_entry_def Let_def)
    with "2.IH"(2) [OF Some al(1) s(3,2)] al(2) show ?thesis by simp
  qed
qed simp

lemma divergence_spec:
  "divergence i es (d, same) =
     (if d < 0 then (case find (\<lambda>k. Kind (es ! k) \<noteq> DiffEqual) [0..<length es] of None \<Rightarrow> d | Some k \<Rightarrow> int (i + k))
      else d,
      same \<and> list_all (\<lambda>e. Kind e = DiffEqual) es)"
proof (induction es arbitrary: i d same)
  case (Cons e es)
  have "find (\<lambda>k. Kind ((e # es) ! k) \<noteq> DiffEqual) [0..<length (e # es)] =
    (if Kind e \<noteq> DiffEqual then Some 0
     else map_option Suc (find (\<lambda>k. Kind (es ! k) \<noteq> DiffEqual) [0..<length es]))"
  proof -
    have "find P (map Suc xs) = map_option Suc (find (\<lambda>k. P (Suc k)) xs)" for P xs
      by (induction xs) auto
    moreover have "[0..<length (e # es)] = 0 # map Suc [0..<length es]"
      by (simp add: upt_conv_Cons map_Suc_upt del: upt_Suc)
    ultimately show ?thesis by (simp del: upt_Suc)
  qed
  with Cons show ?case
    by (cases "Kind e = DiffEqual") (auto simp del: upt_Suc split: option.splits)
qed simp

lemma diff_entries_align:
  obtains es m where "align c news 0 olds (replicate (length news) False) = (es, m)"
    "diff_entries c olds news = es @ insertions news m"
  by (cases "align c news 0 olds (replicate (length news) False)") (simp add: diff_entries_def)

lemma new_steps_insertions: "new_steps (insertions news m) = filter (\<lambda>j. \<not> m ! j) [0..<length news]"
  "old_steps (insertions news m) = []"
proof -
  have "new_steps (map (\<lambda>j. inserted_entry j (news ! j)) js) = js"
    "old_steps (map (\<lambda>j. inserted_entry j (news ! j)) js) = []" for js
    by (induction js) (simp_all add: new_steps_def old_steps_def)
  then show "new_steps (insertions news m) = filter (\<lambda>j. \<not> m ! j) [0..<length news]"
    "old_steps (insertions news m) = []" by (simp_all add: insertions_def)
qed

text \<open>What the alignment with no step taken matches.\<close>

lemma align_all_free:
  assumes "align c news 0 olds (replicate (length news) False) = (es, m)"
  shows "distinct (new_steps es)" "set (new_steps es) = {j. j < length news \<and> m ! j}"
proof -
  note new = align_new_steps [OF assms length_replicate]
  from new show "distinct (new_steps es)" by blast
  have "{j. j < length news \<and> \<not> replicate (length news) False ! j \<and> m ! j} = {j. j < length news \<and> m ! j}"
    by auto
  with new show "set (new_steps es) = {j. j < length news \<and> m ! j}" by simp
qed

lemma steps_append [simp]:
  "new_steps (es @ es') = new_steps es @ new_steps es'" "old_steps (es @ es') = old_steps es @ old_steps es'"
  by (simp_all add: new_steps_def old_steps_def)

lemma ComputeTraceDiff_fields:
  "Entries (ComputeTraceDiff c (Some old) (Some new)) = diff_entries c (States old) (States new)"
  "IsEmpty (ComputeTraceDiff c (Some old) (Some new)) =
   list_all (\<lambda>e. Kind e = DiffEqual) (diff_entries c (States old) (States new))"
  "DivergenceIdx (ComputeTraceDiff c (Some old) (Some new)) =
   (case find (\<lambda>k. Kind (diff_entries c (States old) (States new) ! k) \<noteq> DiffEqual)
           [0..<length (diff_entries c (States old) (States new))] of None \<Rightarrow> - 1 | Some k \<Rightarrow> int k)"
  by (simp_all add: ComputeTraceDiff_def Let_def divergence_spec del: upt_Suc cong: option.case_cong)

text \<open>C34. The entries of a comparison are a matching: they name every old step once, in order, and
  every new step once; an entry with both steps joins two steps of one key, that is not the key
  of a blank step, and is equal exactly when no field differs. The comparison is empty when all
  entries are equal, and the divergence is the index of the first that is not, or -1.\<close>

theorem ComputeTraceDiff_matching:
  "let d = ComputeTraceDiff c (Some old) (Some new); es = Entries d in
     old_steps es = [0..<length (States old)]
   \<and> mset (new_steps es) = mset [0..<length (States new)]
   \<and> list_all (sound_entry c (States old) (States new)) es
   \<and> IsEmpty d = list_all (\<lambda>e. Kind e = DiffEqual) es
   \<and> DivergenceIdx d = (case find (\<lambda>k. Kind (es ! k) \<noteq> DiffEqual) [0..<length es] of None \<Rightarrow> - 1 | Some k \<Rightarrow> int k)"
proof -
  let ?o = "States old" and ?n = "States new"
  obtain es m where al: "align c ?n 0 ?o (replicate (length ?n) False) = (es, m)"
    and d: "diff_entries c ?o ?n = es @ insertions ?n m" by (rule diff_entries_align)
  note new = align_all_free [OF al]
  have "list_all (sound_entry c ?o ?n) es" by (rule align_sound [OF al]) simp_all
  moreover have "sound_entry c ?o ?n (inserted_entry j (?n ! j))" for j by (simp add: sound_entry_def)
  then have "list_all (sound_entry c ?o ?n) (insertions ?n m)"
    unfolding insertions_def list.pred_map by (simp add: list_all_iff del: upt_Suc)
  moreover have "mset (new_steps (es @ insertions ?n m)) = mset [0..<length ?n]"
  proof (rule set_eq_iff_mset_eq_distinct [THEN iffD1])
    show "distinct (new_steps (es @ insertions ?n m))"
      unfolding steps_append new_steps_insertions distinct_append new(2)
      using new(1) by (intro conjI) (simp_all add: distinct_filter set_filter Int_def del: upt_Suc)
    show "set (new_steps (es @ insertions ?n m)) = set [0..<length ?n]"
      unfolding steps_append new_steps_insertions set_append new(2) set_filter set_upt by fastforce
  qed (rule distinct_upt)
  moreover have "old_steps (es @ insertions ?n m) = [0..<length ?o]"
    using align_old_steps [OF al] by (simp add: new_steps_insertions)
  ultimately show ?thesis
    unfolding Let_def ComputeTraceDiff_fields d list_all_append by (intro conjI) (rule refl | assumption)+
qed

section \<open>Traces reported as equivalent\<close>

lemma compareFields_same [simp]: "compareFields c s s = []"
  by (simp add: compareFields_def field_diff_def cost_fields_def split: option.split)

text \<open>When every old step is matched with an equal one and the traces are equally long, nothing is inserted.\<close>

lemma no_insertions:
  assumes al: "align c news 0 olds (replicate (length news) False) = (es, m)"
    and eq: "list_all (\<lambda>e. Kind e = DiffEqual) es" and len: "length olds = length news"
  shows "insertions news m = []"
proof -
  note new = align_all_free [OF al]
  from eq have "filter (\<lambda>e. Kind e \<noteq> DiffRemove) es = es" "filter (\<lambda>e. Kind e \<noteq> DiffInsert) es = es"
    by (simp_all add: filter_id_conv list_all_iff)
  then have "length (new_steps es) = length es" "length (old_steps es) = length es"
    by (simp_all add: new_steps_def old_steps_def)
  moreover have "length (old_steps es) = length news"
    using align_old_steps [OF al] len by simp
  ultimately have "card (set (new_steps es)) = length news" by (simp only: distinct_card [OF new(1)])
  moreover have "set (new_steps es) \<subseteq> {..<length news}" using new by auto
  ultimately have "set (new_steps es) = {..<length news}" by (intro card_subset_eq) simp_all
  with new have "\<forall>j<length news. m ! j" by blast
  then show ?thesis by (simp add: insertions_def filter_empty_conv)
qed

lemma pair_same [simp]: "Kind (pair_entry c i s j s) = DiffEqual"
  by (simp add: pair_entry_def Let_def)

text \<open>The alignment of a trace with itself matches each step that is not blank with itself.\<close>

lemma align_self:
  assumes "align c all i olds matched = (es, m)" and "drop i all = olds" and "length matched = length all"
    and "\<forall>j<i. matched ! j \<or> stepKey (all ! j) = ''||''" and "\<forall>j<length all. i \<le> j \<longrightarrow> \<not> matched ! j"
  shows "list_all (\<lambda>e. Kind e = DiffEqual) es \<longleftrightarrow> ''||'' \<notin> stepKey ` set olds"
  using assms
proof (induction c all i olds matched arbitrary: es m rule: align.induct)
  case (2 c all i s olds matched)
  from "2.prems"(2) have i: "i < length all" "all ! i = s" "drop (Suc i) all = olds"
    by (metis drop_eq_Nil list.distinct(1) not_le, metis nth_via_drop, metis drop_Suc tl_drop list.sel(3))
  show ?case
  proof (cases "stepKey s = ''||''")
    case True
    then have "find_match (stepKey s) matched all = None" by (simp add: find_match_None)
    with "2.prems"(1) True show ?thesis by (auto split: prod.splits)
  next
    case False
    have "find_match (stepKey s) matched all = Some i"
      unfolding find_match_def find_Some_iff
      using i False "2.prems"(4,5) by (intro exI [of _ i]) auto
    moreover from this "2.prems"(1) i obtain es' where
      al: "align c all (Suc i) olds (matched[i := True]) = (es', m)" "es = pair_entry c i s i s # es'"
      by (auto split: prod.splits)
    moreover have "\<forall>j<Suc i. matched[i := True] ! j \<or> stepKey (all ! j) = ''||''"
      using "2.prems"(3,4) i by (auto simp: nth_list_update less_Suc_eq)
    moreover have "\<forall>j<length all. Suc i \<le> j \<longrightarrow> \<not> matched[i := True] ! j"
      using "2.prems"(5) by auto
    ultimately have "list_all (\<lambda>e. Kind e = DiffEqual) es' \<longleftrightarrow> ''||'' \<notin> stepKey ` set olds"
      using "2.IH"(2) i(3) "2.prems"(3) by simp
    with al False show ?thesis by auto
  qed
qed simp

text \<open>The comparison of a trace with itself is empty exactly when no step is blank (without sequence
  number, contract, function and operation): a blank step is reported as removed and inserted.
\<close>

theorem ComputeTraceDiff_self:
  "IsEmpty (ComputeTraceDiff c (Some t) (Some t)) = (''||'' \<notin> stepKey ` set (States t))"
proof -
  obtain es m where al: "align c (States t) 0 (States t) (replicate (length (States t)) False) = (es, m)"
    and d: "diff_entries c (States t) (States t) = es @ insertions (States t) m" by (rule diff_entries_align)
  have "list_all (\<lambda>e. Kind e = DiffEqual) es \<longleftrightarrow> ''||'' \<notin> stepKey ` set (States t)"
    by (rule align_self [OF al]) simp_all
  with no_insertions [OF al] show ?thesis by (auto simp: ComputeTraceDiff_fields(2) d)
qed

lemma align_permuted:
  assumes "align c news i olds matched = (es, m)" and "length matched = length news"
    and "distinct (map stepKey olds)" and "distinct (map stepKey news)"
    and "set olds \<subseteq> set news" and "''||'' \<notin> stepKey ` set olds"
    and "\<forall>j<length news. matched ! j \<longrightarrow> stepKey (news ! j) \<notin> stepKey ` set olds"
  shows "list_all (\<lambda>e. Kind e = DiffEqual) es"
  using assms
proof (induction c news i olds matched arbitrary: es m rule: align.induct)
  case (2 c news i s olds matched)
  then obtain j where j: "j < length news" "news ! j = s" by (auto simp: in_set_conv_nth)
  have only: "k = j" if "k < length news" "stepKey (news ! k) = stepKey s" for k
    using that j "2.prems"(4) by (simp add: distinct_conv_nth) metis
  have "\<not> matched ! j" using "2.prems"(7) j by auto
  then have "find_match (stepKey s) matched news \<noteq> None"
    using j "2.prems"(6) unfolding find_match_None by auto
  then have f: "find_match (stepKey s) matched news = Some j"
    using find_match_Some(1,3) only by (metis not_None_eq)
  from f "2.prems"(1) j obtain es' where
    al: "align c news (Suc i) olds (matched[j := True]) = (es', m)" "es = pair_entry c i s j s # es'"
    by (auto split: prod.splits)
  have "\<forall>k<length news. matched[j := True] ! k \<longrightarrow> stepKey (news ! k) \<notin> stepKey ` set olds"
    using "2.prems"(2,3,7) j by (auto simp: nth_list_update)
  with "2.IH"(2) [OF f al(1)] "2.prems" al(2) show ?case by simp
qed simp

text \<open>C35. The order of the steps does not count: when the new trace is any permutation of the steps
  of the old one, with distinct keys and no blank step, the comparison is empty.\<close>

theorem reordered_traces_equivalent:
  assumes "mset (States new) = mset (States old)" and "distinct (map stepKey (States old))"
    and "''||'' \<notin> stepKey ` set (States old)"
  shows "IsEmpty (ComputeTraceDiff c (Some old) (Some new))
       \<and> DivergenceIdx (ComputeTraceDiff c (Some old) (Some new)) = - 1"
proof -
  let ?o = "States old" and ?n = "States new"
  obtain es m where al: "align c ?n 0 ?o (replicate (length ?n) False) = (es, m)"
    and d: "diff_entries c ?o ?n = es @ insertions ?n m" by (rule diff_entries_align)
  from assms(1) have set: "set ?o = set ?n" and len: "length ?o = length ?n"
    by (metis mset_eq_setD, metis mset_eq_length)
  from assms(1,2) have "distinct (map stepKey ?n)" by (metis mset_eq_imp_distinct_iff mset_map)
  with assms set have eq: "list_all (\<lambda>e. Kind e = DiffEqual) es" by (intro align_permuted [OF al]) auto
  with no_insertions [OF al eq len] have "list_all (\<lambda>e. Kind e = DiffEqual) (diff_entries c ?o ?n)"
    by (simp add: d)
  moreover from this have "find (\<lambda>k. Kind (diff_entries c ?o ?n ! k) \<noteq> DiffEqual) [0..<length (diff_entries c ?o ?n)] = None"
    by (auto simp: find_None_iff list_all_length)
  ultimately show ?thesis by (simp only: ComputeTraceDiff_fields option.case simp_thms)
qed

definition sample_step :: "string \<Rightarrow> nat exec_state" where
  "sample_step f = \<lparr>Step = 0, Timestamp = 0, Operation = ''call'', EventType = [], ContractID = ''C'',
     Function = f, ContractMetadata = None, Arguments = [], RawArguments = [], ReturnValue = None,
     RawReturnValue = [], ErrorText = [], HostState = None, Memory = None, WasmInstruction = [],
     SourceFile = [], SourceLine = 0, SourceColumn = 0, ConfidenceLevel = [], ConfidenceReason = [],
     GitHubLink = [], Cost = None, SequenceID = 0, ParentSequenceID = 0\<rparr>"

lemma reordered_traces_equivalent_witness:
  "let old = (NewExecutionTrace [] 0 0)\<lparr>States := [sample_step ''pay'', sample_step ''check'']\<rparr>;
       new = (NewExecutionTrace [] 0 0)\<lparr>States := [sample_step ''check'', sample_step ''pay'']\<rparr>
   in IsEmpty (ComputeTraceDiff (\<lambda>_. \<lparr>CPU = 0, MemoryBytes = 0\<rparr>) (Some old) (Some new)) \<and> States old \<noteq> States new"
proof -
  let ?old = "(NewExecutionTrace [] 0 0)\<lparr>States := [sample_step ''pay'', sample_step ''check'']\<rparr>"
  let ?new = "(NewExecutionTrace [] 0 0)\<lparr>States := [sample_step ''check'', sample_step ''pay'']\<rparr>"
  have "mset (States ?new) = mset (States ?old)" by simp
  moreover have "distinct (map stepKey (States ?old))" "''||'' \<notin> stepKey ` set (States ?old)"
    "States ?old \<noteq> States ?new"
    by (simp_all add: stepKey_def sample_step_def)
  ultimately show ?thesis
    using reordered_traces_equivalent [of ?new ?old "\<lambda>_. \<lparr>CPU = 0, MemoryBytes = 0\<rparr>"] by (simp add: Let_def)
qed

end
