(* ===== verification/Failover.thy ===== *)
theory Failover
  imports GoPrelude Complex_Main
begin

text \<open>
  \<open>internal/rpc\<close>: the circuit breaker and the rotation of Horizon endpoints (\<open>failover.go\<close>), the
  scores they are chosen by (\<open>network_health.go\<close>), and the two loops of \<open>client.go\<close> that retry a
  request on another endpoint. A client is the record \<open>client\<close>; the answer of an endpoint to an
  attempt, with its latency, and the clock are parameters: functions of the number of the attempt.
  Times are nanoseconds. Scores are rational numbers; Go computes them in floating point, which is
  exact for the two values the theorems depend on, 0 for an endpoint with failures only and 1/2 for
  one that was never asked. The caches in front of the loops, logging, metrics and the construction
  of a new HTTP client are left out.
\<close>

section \<open>Health of the endpoints\<close>

record node_stats =
  ns_total :: nat
  ns_success :: nat
  ns_failure :: nat
  recentLatency :: "int list"

type_synonym collector = "string \<Rightarrow> node_stats option"

definition recentLatencySamples :: nat where
  "recentLatencySamples = 10"

definition RecordRequest :: "string \<Rightarrow> int \<Rightarrow> bool \<Rightarrow> collector \<Rightarrow> collector" where
  "RecordRequest url latency ok hc =
     (if url = [] then hc
      else
        let st = (case hc url of None \<Rightarrow> \<lparr>ns_total = 0, ns_success = 0, ns_failure = 0, recentLatency = []\<rparr> | Some st \<Rightarrow> st);
            st = st\<lparr>ns_total := ns_total st + 1\<rparr>;
            st = (if ok then
                    let l = recentLatency st; l = (if length l \<ge> recentLatencySamples then tl l else l)
                    in st\<lparr>ns_success := ns_success st + 1, recentLatency := l @ [latency]\<rparr>
                  else st\<lparr>ns_failure := ns_failure st + 1\<rparr>)
        in hc(url := Some st))"

definition latency_score :: "int list \<Rightarrow> rat" where
  "latency_score ls =
     (if ls = [] then 0
      else let avg = of_int (sum_list ls div 1000000) / of_nat (length ls); s = 1 - avg / 5000
           in if s < 0 then 0 else if s > 1 then 1 else s)"

definition success_rate :: "node_stats \<Rightarrow> rat" where
  "success_rate st = (if ns_total st = 0 then 0 else of_nat (ns_success st) / of_nat (ns_total st))"

definition computeHealthScore :: "node_stats \<Rightarrow> rat" where
  "computeHealthScore st =
     (if ns_total st = 0 then 1 / 2
      else success_rate st * (6 / 10) + latency_score (recentLatency st) * (4 / 10))"

text \<open>One turn of the loop of \<open>GetHealthiestURL\<close>, on the best URL and score so far.\<close>

definition health_turn :: "collector \<Rightarrow> string \<Rightarrow> string \<times> rat \<Rightarrow> string \<times> rat" where
  "health_turn hc url = (\<lambda>(best, score).
     if url = [] then (best, score)
     else case hc url of
            None \<Rightarrow> if score < 1 / 2 then (url, 1 / 2) else (best, score)
          | Some st \<Rightarrow> if computeHealthScore st > score then (url, computeHealthScore st) else (best, score))"

definition GetHealthiestURL :: "collector \<Rightarrow> string list \<Rightarrow> string" where
  "GetHealthiestURL hc urls = fst (fold (health_turn hc) urls ([], - 1))"

section \<open>The client\<close>

record client =
  HorizonURL :: string
  SorobanURL :: string
  AltURLs :: "string list"
  currIndex :: nat
  cl_failures :: "string \<Rightarrow> nat"
  lastFailure :: "string \<Rightarrow> int option"
  cl_threshold :: int
  RetryTimeout :: int
  rotateCount :: nat
  healthCollector :: "collector option"

definition endpointAttempts :: "client \<Rightarrow> nat" where
  "endpointAttempts c = (if length (AltURLs c) = 0 then 1 else length (AltURLs c))"

text \<open>The time since the zero time, when there is no last failure, is above every timeout.\<close>

definition isHealthyLocked :: "int \<Rightarrow> string \<Rightarrow> client \<Rightarrow> bool" where
  "isHealthyLocked now url c =
     (let threshold = (if cl_threshold c = 0 then 5 else cl_threshold c);
          timeout = (if RetryTimeout c = 0 then 60 else RetryTimeout c)
      in if int (cl_failures c url) < threshold then True
         else case lastFailure c url of
                None \<Rightarrow> True
              | Some l \<Rightarrow> now - l > timeout * 1000000000)"

definition markFailure :: "int \<Rightarrow> string \<Rightarrow> client \<Rightarrow> client" where
  "markFailure now url c =
     c\<lparr>cl_failures := (cl_failures c)(url := cl_failures c url + 1), lastFailure := (lastFailure c)(url := Some now)\<rparr>"

definition markSuccess :: "string \<Rightarrow> client \<Rightarrow> client" where
  "markSuccess url c =
     c\<lparr>cl_failures := (cl_failures c)(url := 0), lastFailure := (lastFailure c)(url := None)\<rparr>"

text \<open>The loop that looks a URL up in \<open>AltURLs\<close>; the index stays when it is not there.\<close>

definition index_of_url :: "string \<Rightarrow> client \<Rightarrow> nat" where
  "index_of_url url c =
     (case find (\<lambda>i. AltURLs c ! i = url) [0..<length (AltURLs c)] of None \<Rightarrow> currIndex c | Some i \<Rightarrow> i)"

definition next_index :: "int \<Rightarrow> string \<Rightarrow> client \<Rightarrow> nat" where
  "next_index now current c =
     (let candidates = filter (\<lambda>u. u \<noteq> current \<and> isHealthyLocked now u c) (AltURLs c);
          round_robin = (currIndex c + 1) mod length (AltURLs c)
      in if candidates = [] then round_robin
         else case healthCollector c of
                Some hc \<Rightarrow>
                  let best = GetHealthiestURL hc candidates
                  in if best \<noteq> [] then index_of_url best c else round_robin
              | None \<Rightarrow> index_of_url (hd candidates) c)"

definition rotateURL :: "int \<Rightarrow> client \<Rightarrow> (client \<times> bool) may_panic" where
  "rotateURL now c =
     (if length (AltURLs c) \<le> 1 then Ok (c, False)
      else
        obind (at_idx (AltURLs c) (currIndex c)) (\<lambda>current.
        let i = next_index now current c
        in obind (at_idx (AltURLs c) i) (\<lambda>url.
           Ok (c\<lparr>currIndex := i, HorizonURL := url, SorobanURL := url, rotateCount := rotateCount c + 1\<rparr>, True))))"

section \<open>Requests\<close>

text \<open>
  What an endpoint does with a request: it answers, refuses with an HTTP status, or cannot be asked; and
  how an attempt or a request fails.
\<close>

datatype 'a reply = Answer 'a | Refused int | Transport

datatype attempt_error = CircuitOpen | NotFoundError | Archived | ResponseTooLarge | RateLimited
  | HorizonStatus int | ConnectionFailed | InvalidResponse

datatype fetch_error = NodeError attempt_error | AllNodesFailed "(string \<times> attempt_error) list"

definition recordTelemetry :: "string \<Rightarrow> int \<Rightarrow> bool \<Rightarrow> client \<Rightarrow> client" where
  "recordTelemetry url latency ok c =
     c\<lparr>healthCollector := map_option (RecordRequest url latency ok) (healthCollector c)\<rparr>"

text \<open>
  \<open>getTransactionAttempt\<close>: an open circuit fails the attempt; a failed request is recorded once, and
  again as a success when the transaction is unknown, as a failure otherwise. \<open>valid\<close> is
  \<open>ValidateTransactionResponse\<close> on the answer for the hash asked for.
\<close>

definition getTransactionAttempt ::
  "('a \<Rightarrow> bool) \<Rightarrow> (nat \<Rightarrow> string \<Rightarrow> 'a reply \<times> int) \<Rightarrow> (nat \<Rightarrow> int) \<Rightarrow> nat \<Rightarrow> client \<Rightarrow> client \<times> (attempt_error + 'a)" where
  "getTransactionAttempt valid env now i c =
     (let url = HorizonURL c
      in if \<not> isHealthyLocked (now i) url c then (recordTelemetry url 0 False c, Inl CircuitOpen)
         else
           case env i url of
             (Answer x, d) \<Rightarrow> (recordTelemetry url d True c, if valid x then Inr x else Inl InvalidResponse)
           | (Refused status, d) \<Rightarrow>
               (if status = 404 then (recordTelemetry url d True (recordTelemetry url d False c), Inl NotFoundError)
                else (recordTelemetry url d False (recordTelemetry url d False c), Inl ConnectionFailed))
           | (Transport, d) \<Rightarrow> (recordTelemetry url d False (recordTelemetry url d False c), Inl ConnectionFailed))"

text \<open>\<open>handleLedgerError\<close>, on the status of a Horizon error or on another error.\<close>

definition handleLedgerError :: "int option \<Rightarrow> attempt_error" where
  "handleLedgerError err = (case err of
     Some status \<Rightarrow> if status = 404 then NotFoundError else if status = 410 then Archived
       else if status = 413 then ResponseTooLarge else if status = 429 then RateLimited else HorizonStatus status
   | None \<Rightarrow> ConnectionFailed)"

text \<open>\<open>getLedgerHeaderAttempt\<close> records nothing.\<close>

definition getLedgerHeaderAttempt ::
  "(nat \<Rightarrow> string \<Rightarrow> 'a reply \<times> int) \<Rightarrow> (nat \<Rightarrow> int) \<Rightarrow> nat \<Rightarrow> client \<Rightarrow> client \<times> (attempt_error + 'a)" where
  "getLedgerHeaderAttempt env now i c =
     (let url = HorizonURL c
      in if \<not> isHealthyLocked (now i) url c then (c, Inl CircuitOpen)
         else
           case env i url of
             (Answer x, _) \<Rightarrow> (c, Inr x)
           | (Refused status, _) \<Rightarrow> (c, Inl (handleLedgerError (Some status)))
           | (Transport, _) \<Rightarrow> (c, Inl (handleLedgerError None)))"

fun fetch_loop ::
  "(nat \<Rightarrow> client \<Rightarrow> client \<times> (attempt_error + 'a)) \<Rightarrow> (nat \<Rightarrow> int) \<Rightarrow> nat \<Rightarrow> nat \<Rightarrow> client
   \<Rightarrow> (string \<times> attempt_error) list \<Rightarrow> (client \<times> (fetch_error + 'a)) may_panic" where
  "fetch_loop att now i 0 c fs = Ok (c, Inl (AllNodesFailed fs))"
| "fetch_loop att now i (Suc left) c fs =
     (case att i c of
        (c, Inr x) \<Rightarrow> Ok (markSuccess (HorizonURL c) c, Inr x)
      | (c, Inl e) \<Rightarrow>
          (let c = markFailure (now i) (HorizonURL c) c; fs = fs @ [(HorizonURL c, e)]
           in if left > 0 \<and> length (AltURLs c) > 1 then
                obind (rotateURL (now i) c) (\<lambda>(c, ok).
                  if \<not> ok then Ok (c, Inl (AllNodesFailed fs)) else fetch_loop att now (Suc i) left c fs)
              else if length (AltURLs c) \<le> 1 then Ok (c, Inl (NodeError e))
              else fetch_loop att now (Suc i) left c fs))"

definition GetTransaction ::
  "('a \<Rightarrow> bool) \<Rightarrow> (nat \<Rightarrow> string \<Rightarrow> 'a reply \<times> int) \<Rightarrow> (nat \<Rightarrow> int) \<Rightarrow> client \<Rightarrow> (client \<times> (fetch_error + 'a)) may_panic" where
  "GetTransaction valid env now c = fetch_loop (getTransactionAttempt valid env now) now 0 (endpointAttempts c) c []"

text \<open>\<open>GetLedgerHeader\<close> returns the reason itself when there is only one.\<close>

fun unwrap_single :: "fetch_error + 'a \<Rightarrow> fetch_error + 'a" where
  "unwrap_single (Inl (AllNodesFailed [(u, e)])) = Inl (NodeError e)"
| "unwrap_single r = r"

definition GetLedgerHeader ::
  "(nat \<Rightarrow> string \<Rightarrow> 'a reply \<times> int) \<Rightarrow> (nat \<Rightarrow> int) \<Rightarrow> client \<Rightarrow> (client \<times> (fetch_error + 'a)) may_panic" where
  "GetLedgerHeader env now c =
     obind (fetch_loop (getLedgerHeaderAttempt env now) now 0 (endpointAttempts c) c [])
       (\<lambda>(c, r). Ok (c, unwrap_single r))"

text \<open>A client as \<open>NewClient\<close> makes it from a Soroban URL and a list of Horizon URLs.\<close>

definition new_client :: "string \<Rightarrow> string list \<Rightarrow> int \<Rightarrow> int \<Rightarrow> client" where
  "new_client soroban urls threshold timeout =
     \<lparr>HorizonURL = hd urls, SorobanURL = soroban, AltURLs = urls, currIndex = 0, cl_failures = (\<lambda>_. 0),
      lastFailure = (\<lambda>_. None), cl_threshold = threshold, RetryTimeout = timeout, rotateCount = 0,
      healthCollector = Some (\<lambda>_. None)\<rparr>"

section \<open>Rotation\<close>

lemma score_nonneg: "0 \<le> computeHealthScore st"
  by (auto simp: computeHealthScore_def success_rate_def latency_score_def Let_def)

lemma health_fold:
  assumes "score \<ge> 0 \<or> best = []"
  shows "let (b, s) = fold (health_turn hc) urls (best, score) in
           (b = best \<or> b \<in> set urls) \<and> (s \<ge> 0 \<or> b = [])
         \<and> (score < 0 \<longrightarrow> (\<exists>u\<in>set urls. u \<noteq> []) \<longrightarrow> b \<noteq> []) \<and> (best \<noteq> [] \<longrightarrow> b \<noteq> [])"
  using assms
proof (induction urls arbitrary: best score)
  case (Cons u urls)
  obtain b s where t: "health_turn hc u (best, score) = (b, s)" by fastforce
  have turn: "(b = best \<or> b = u) \<and> (s \<ge> 0 \<or> b = []) \<and> (score < 0 \<longrightarrow> u \<noteq> [] \<longrightarrow> b \<noteq> [])
      \<and> (best \<noteq> [] \<longrightarrow> b \<noteq> []) \<and> (u = [] \<longrightarrow> s = score)"
    using t Cons.prems score_nonneg
    by (auto simp: health_turn_def split: if_splits option.splits intro: order.trans [OF score_nonneg less_imp_le])
      (metis less_le_trans not_less score_nonneg)+
  then have "s \<ge> 0 \<or> b = []" by blast
  from Cons.IH [OF this] turn show ?case
    by (auto simp: t Let_def split: prod.splits)
qed simp

lemma GetHealthiestURL_in:
  assumes "\<exists>u\<in>set urls. u \<noteq> []"
  shows "GetHealthiestURL hc urls \<in> set urls \<and> GetHealthiestURL hc urls \<noteq> []"
  using health_fold [of "- 1" "[]" hc urls] assms by (auto simp: GetHealthiestURL_def Let_def split: prod.splits)

lemma index_of_url_in:
  assumes "url \<in> set (AltURLs c)"
  shows "index_of_url url c < length (AltURLs c) \<and> AltURLs c ! index_of_url url c = url"
proof -
  from assms have "find (\<lambda>i. AltURLs c ! i = url) [0..<length (AltURLs c)] \<noteq> None"
    by (auto simp: find_None_iff in_set_conv_nth)
  then obtain i where i: "find (\<lambda>i. AltURLs c ! i = url) [0..<length (AltURLs c)] = Some i" by blast
  then have "index_of_url url c = i" by (simp add: index_of_url_def)
  with i show ?thesis by (auto simp: find_Some_iff)
qed

lemma index_of_url_bound: "currIndex c < length (AltURLs c) \<Longrightarrow> index_of_url url c < length (AltURLs c)"
  by (auto simp: index_of_url_def find_Some_iff split: option.split)

lemma next_index_bound:
  assumes "currIndex c < length (AltURLs c)"
  shows "next_index now current c < length (AltURLs c)"
proof -
  have "(currIndex c + 1) mod length (AltURLs c) < length (AltURLs c)"
    using assms by (intro mod_less_divisor) linarith
  with index_of_url_bound [OF assms] show ?thesis
    by (auto simp: next_index_def Let_def split: option.split)
qed

lemma next_index_healthy:
  assumes "\<exists>u\<in>set (AltURLs c). u \<noteq> current \<and> u \<noteq> [] \<and> isHealthyLocked now u c"
  shows "AltURLs c ! next_index now current c \<noteq> current \<and> isHealthyLocked now (AltURLs c ! next_index now current c) c"
proof -
  let ?cs = "filter (\<lambda>u. u \<noteq> current \<and> isHealthyLocked now u c) (AltURLs c)"
  from assms have ne: "?cs \<noteq> []" and cand: "\<exists>u\<in>set ?cs. u \<noteq> []" by (auto simp: filter_empty_conv)
  have pick: "AltURLs c ! index_of_url u c = u" if "u \<in> set ?cs" for u
    using that index_of_url_in [of u c] by simp
  show ?thesis
  proof (cases "healthCollector c")
    case None
    have "hd ?cs \<in> set ?cs" using ne by (rule hd_in_set)
    with pick [OF this] ne None show ?thesis by (auto simp: next_index_def Let_def)
  next
    case (Some hc)
    have "GetHealthiestURL hc ?cs \<in> set ?cs" "GetHealthiestURL hc ?cs \<noteq> []"
      using GetHealthiestURL_in [OF cand] by blast+
    with pick [OF this(1)] ne Some show ?thesis by (auto simp: next_index_def Let_def)
  qed
qed

lemma rotateURL_eq:
  assumes "currIndex c < length (AltURLs c)" and "1 < length (AltURLs c)"
  shows "rotateURL now c = Ok (let i = next_index now (AltURLs c ! currIndex c) c; url = AltURLs c ! i
    in (c\<lparr>currIndex := i, HorizonURL := url, SorobanURL := url, rotateCount := rotateCount c + 1\<rparr>, True))"
  using assms next_index_bound [OF assms(1)] by (simp add: rotateURL_def Let_def)

lemma isHealthyLocked_moved [simp]:
  "isHealthyLocked now u (c\<lparr>currIndex := i, HorizonURL := x, SorobanURL := y, rotateCount := n\<rparr>) =
   isHealthyLocked now u c"
  by (simp add: isHealthyLocked_def cong: option.case_cong)

text \<open>On a client with two endpoints or more rotateURL does not panic; afterwards the Horizon and the
  Soroban URL are the endpoint at the new index, and when another endpoint is healthy it is a healthy
  one, different from the one before.
\<close>

theorem rotateURL_moves:
  assumes "currIndex c < length (AltURLs c)" and "1 < length (AltURLs c)"
  shows "case rotateURL now c of
      Ok (c', moved) \<Rightarrow>
        moved \<and> currIndex c' < length (AltURLs c) \<and> AltURLs c' = AltURLs c
      \<and> HorizonURL c' = AltURLs c ! currIndex c' \<and> SorobanURL c' = HorizonURL c'
      \<and> (list_ex (\<lambda>u. u \<noteq> AltURLs c ! currIndex c \<and> u \<noteq> [] \<and> isHealthyLocked now u c) (AltURLs c) \<longrightarrow>
         HorizonURL c' \<noteq> AltURLs c ! currIndex c \<and> isHealthyLocked now (HorizonURL c') c')
    | _ \<Rightarrow> False"
proof -
  note healthy = next_index_healthy [of c "AltURLs c ! currIndex c" now]
  show ?thesis
    using next_index_bound [OF assms(1)] healthy
    by (simp add: rotateURL_eq [OF assms] Let_def list_ex_iff)
qed

lemma rotateURL_moves_witness:
  "case rotateURL 5 (markFailure 5 ''a'' (new_client ''s'' [''a'', ''b''] 1 60)) of
     Ok (c', moved) \<Rightarrow> moved \<and> HorizonURL c' = ''b'' | _ \<Rightarrow> False"
proof -
  let ?c = "markFailure 5 ''a'' (new_client ''s'' [''a'', ''b''] 1 60)"
  have c: "currIndex ?c = 0" "AltURLs ?c = [''a'', ''b'']" "isHealthyLocked 5 ''b'' ?c"
    by (simp_all add: markFailure_def new_client_def isHealthyLocked_def)
  have two: "i = 0 \<or> i = 1" if "i < 2" for i :: nat using that by linarith
  have "case rotateURL 5 ?c of Ok (c', moved) \<Rightarrow>
      moved \<and> currIndex c' < 2 \<and> HorizonURL c' = [''a'', ''b''] ! currIndex c' \<and> HorizonURL c' \<noteq> ''a''
    | _ \<Rightarrow> False"
    using rotateURL_moves [of ?c 5] c by (auto split: outcome.splits prod.splits)
  then show ?thesis by (auto split: outcome.splits prod.splits dest!: two)
qed

section \<open>Retries\<close>

text \<open>
  A request in which the endpoints of \<open>V\<close> have failed and the others were not asked: what was asked
  has the score 0, the rest is unknown to the collector and has no failure.
\<close>

definition asked :: "string list \<Rightarrow> string set \<Rightarrow> client \<Rightarrow> bool" where
  "asked urls V c \<longleftrightarrow>
     AltURLs c = urls \<and> currIndex c < length urls \<and> HorizonURL c = urls ! currIndex c \<and> cl_threshold c \<ge> 0
   \<and> (\<forall>u\<in>set urls. u \<notin> V \<longrightarrow> cl_failures c u = 0)
   \<and> (\<exists>hc. healthCollector c = Some hc \<and>
        (\<forall>u\<in>set urls. case hc u of None \<Rightarrow> u \<notin> V | Some st \<Rightarrow> u \<in> V \<and> computeHealthScore st = 0))"

lemma fresh_picked:
  assumes "\<forall>u\<in>set us. u \<noteq> [] \<and> (case hc u of None \<Rightarrow> u \<notin> V | Some st \<Rightarrow> u \<in> V \<and> computeHealthScore st = 0)"
    and "score < 1 / 2" and "\<exists>u\<in>set us. u \<notin> V"
  shows "fst (fold (health_turn hc) us (best, score)) \<in> set us - V"
  using assms
proof (induction us arbitrary: best score)
  case (Cons u us)
  note known = Cons.prems(1)
  show ?case
  proof (cases "u \<in> V")
    case True
    with Cons.prems obtain st where st: "hc u = Some st" "computeHealthScore st = 0"
      by (auto split: option.splits)
    obtain b s where t: "health_turn hc u (best, score) = (b, s)" by fastforce
    with st Cons.prems(1,2) have "s < 1 / 2" by (auto simp: health_turn_def split: if_splits)
    with Cons.IH [of s b] Cons.prems(1,3) True t show ?thesis by auto
  next
    case False
    with Cons.prems(1) have "hc u = None" by (auto split: option.splits)
    with Cons.prems(1,2) have t: "health_turn hc u (best, score) = (u, 1 / 2)" by (simp add: health_turn_def)
    have "fst (fold (health_turn hc) us (u, 1 / 2)) = u"
    proof -
      have "fold (health_turn hc) vs (u, 1 / 2) = (u, 1 / 2)" if "set vs \<subseteq> set us" for vs
        using that
      proof (induction vs)
        case (Cons v vs)
        then have "v \<in> set us" by simp
        with known have "health_turn hc v (u, 1 / 2) = (u, 1 / 2)"
          by (auto simp: health_turn_def split: option.splits dest!: bspec [of _ _ v])
        with Cons show ?case by simp
      qed simp
      then show ?thesis by simp
    qed
    with t False show ?thesis by simp
  qed
qed simp

lemma asked_fail:
  assumes V: "asked urls V c" and cur: "HorizonURL c \<notin> V" "[] \<notin> set urls"
    and env: "env i (HorizonURL c) = (Transport, d)"
  shows "\<exists>c'. getTransactionAttempt valid env now i c = (c', Inl ConnectionFailed)
       \<and> asked urls (insert (HorizonURL c) V) (markFailure t (HorizonURL c') c') \<and> HorizonURL c' = HorizonURL c
       \<and> AltURLs c' = urls"
proof -
  let ?u = "HorizonURL c"
  let ?st = "\<lparr>ns_total = 2, ns_success = 0, ns_failure = 2, recentLatency = []\<rparr>"
  from V obtain hc where hc: "healthCollector c = Some hc"
    "\<forall>u\<in>set urls. case hc u of None \<Rightarrow> u \<notin> V | Some st \<Rightarrow> u \<in> V \<and> computeHealthScore st = 0"
    by (auto simp: asked_def)
  from V have u: "?u \<in> set urls" by (auto simp: asked_def)
  with cur have "?u \<noteq> []" by auto
  from hc(2) u cur have none: "hc ?u = None" by (auto split: option.splits)
  have healthy: "isHealthyLocked (now i) ?u c"
    using V u cur by (auto simp: asked_def isHealthyLocked_def Let_def)
  define c' where "c' = recordTelemetry ?u d False (recordTelemetry ?u d False c)"
  have "RecordRequest ?u d False (RecordRequest ?u d False hc) = hc(?u := Some ?st)"
    using none \<open>?u \<noteq> []\<close> by (simp add: RecordRequest_def Let_def numeral_2_eq_2)
  moreover define hc' where "hc' = hc(?u := Some ?st)"
  ultimately have c': "c' = c\<lparr>healthCollector := Some hc'\<rparr>"
    using hc(1) by (simp add: c'_def recordTelemetry_def)
  have "computeHealthScore ?st = 0"
    by (simp add: computeHealthScore_def success_rate_def latency_score_def)
  with hc(2) have "\<forall>u\<in>set urls. case hc' u of None \<Rightarrow> u \<notin> insert ?u V
      | Some st \<Rightarrow> u \<in> insert ?u V \<and> computeHealthScore st = 0"
    by (auto simp: hc'_def split: option.splits)
  with V have "asked urls (insert ?u V) (markFailure t (HorizonURL c') c')"
    by (simp add: asked_def markFailure_def c' cong: option.case_cong)
  moreover have "getTransactionAttempt valid env now i c = (c', Inl ConnectionFailed)"
    using healthy env by (simp add: getTransactionAttempt_def c'_def Let_def)
  moreover have "HorizonURL c' = HorizonURL c" "AltURLs c' = urls" using V by (simp_all add: c' asked_def)
  ultimately show ?thesis by blast
qed

lemma asked_rotate:
  assumes V: "asked urls V c" and cur: "HorizonURL c \<in> V" "[] \<notin> set urls"
    and fresh: "\<exists>u\<in>set urls. u \<notin> V"
  shows "\<exists>c'. rotateURL now c = Ok (c', True) \<and> asked urls V c' \<and> HorizonURL c' \<notin> V"
proof -
  from V obtain hc where hc: "healthCollector c = Some hc"
    "\<forall>u\<in>set urls. case hc u of None \<Rightarrow> u \<notin> V | Some st \<Rightarrow> u \<in> V \<and> computeHealthScore st = 0"
    by (auto simp: asked_def)
  from V have c: "AltURLs c = urls" "currIndex c < length urls" "HorizonURL c = urls ! currIndex c"
    by (auto simp: asked_def)
  from fresh cur c have len: "1 < length urls"
    by (cases urls; cases "tl urls") auto
  let ?cs = "filter (\<lambda>u. u \<noteq> urls ! currIndex c \<and> isHealthyLocked now u c) urls"
  from fresh obtain u where u: "u \<in> set urls" "u \<notin> V" by blast
  with V cur c have "u \<in> set ?cs" by (auto simp: asked_def isHealthyLocked_def Let_def)
  then have ne: "?cs \<noteq> []" and ex: "\<exists>u\<in>set ?cs. u \<notin> V" using u(2) by (auto simp: filter_empty_conv)
  have known: "\<forall>u\<in>set ?cs. u \<noteq> [] \<and> (case hc u of None \<Rightarrow> u \<notin> V | Some st \<Rightarrow> u \<in> V \<and> computeHealthScore st = 0)"
    using hc(2) cur(2) by auto
  have best: "GetHealthiestURL hc ?cs \<in> set ?cs - V"
    unfolding GetHealthiestURL_def by (rule fresh_picked [OF known _ ex]) simp
  with known have "GetHealthiestURL hc ?cs \<noteq> []" by blast
  then have "next_index now (urls ! currIndex c) c = index_of_url (GetHealthiestURL hc ?cs) c"
    using ne hc(1) c(1) by (simp add: next_index_def Let_def)
  with best index_of_url_in [of "GetHealthiestURL hc ?cs" c] c(1)
  have i: "next_index now (urls ! currIndex c) c < length urls" "urls ! next_index now (urls ! currIndex c) c \<notin> V"
    by auto
  have "rotateURL now c = Ok (let i = next_index now (AltURLs c ! currIndex c) c; url = AltURLs c ! i
    in (c\<lparr>currIndex := i, HorizonURL := url, SorobanURL := url, rotateCount := rotateCount c + 1\<rparr>, True))"
    by (rule rotateURL_eq) (use c len in simp_all)
  then show ?thesis using i V c by (auto simp: asked_def Let_def)
qed

lemma fetch_finds:
  assumes "asked urls V c" and "HorizonURL c \<notin> V" and "[] \<notin> set urls" and "V \<subseteq> set urls"
    and "\<And>i u. fst (env i u) = Transport \<or> (\<exists>x. fst (env i u) = Answer x \<and> valid x)"
    and "g \<in> set urls" and "g \<notin> V" and "\<And>i. fst (env i g) \<noteq> Transport"
    and "card (set urls) \<le> card V + left"
  shows "\<exists>c' x. fetch_loop (getTransactionAttempt valid env now) now i left c fs = Ok (c', Inr x)"
  using assms(1,2,4,7,9)
proof (induction left arbitrary: i c fs V)
  case 0
  have "V \<subset> set urls" using 0 assms(6) by blast
  then have "card V < card (set urls)" by (rule psubset_card_mono [rotated]) simp
  with 0 show ?case by simp
next
  case (Suc left)
  let ?u = "HorizonURL c"
  obtain r d where rd: "env i ?u = (r, d)" by fastforce
  show ?case
  proof (cases "r = Transport")
    case False
    with assms(5) [of i ?u] rd obtain x where x: "r = Answer x" "valid x" by auto
    have "isHealthyLocked (now i) ?u c"
      using Suc.prems by (auto simp: asked_def isHealthyLocked_def Let_def)
    with rd x have "getTransactionAttempt valid env now i c = (recordTelemetry ?u d True c, Inr x)"
      by (simp add: getTransactionAttempt_def Let_def)
    then show ?thesis by simp
  next
    case True
    let ?V = "insert ?u V"
    have "env i ?u = (Transport, d)" using rd True by simp
    from asked_fail [where env = env and i = i and valid = valid and now = now and t = "now i", OF Suc.prems(1,2) assms(3) this]
    obtain c' where c': "getTransactionAttempt valid env now i c = (c', Inl ConnectionFailed)"
      "asked urls ?V (markFailure (now i) (HorizonURL c') c')" "HorizonURL c' = ?u" "AltURLs c' = urls" by blast
    let ?c = "markFailure (now i) (HorizonURL c') c'"
    from Suc.prems(1) have u: "?u \<in> set urls" by (auto simp: asked_def)
    have g: "g \<notin> ?V" using Suc.prems(4) assms(8) [of i] rd True by auto
    have fin: "finite V" using Suc.prems(3) by (rule finite_subset) simp
    have V: "?V \<subseteq> set urls" "card (set urls) \<le> card ?V + left"
      using Suc.prems(2,3,5) u fin by simp_all
    have "?V \<subset> set urls" using V(1) g assms(6) by blast
    then have "card ?V < card (set urls)" by (rule psubset_card_mono [rotated]) simp
    with V(2) have left: "0 < left" by simp
    have "HorizonURL ?c \<in> ?V" by (simp add: markFailure_def c'(3))
    from asked_rotate [OF c'(2) this assms(3)] g assms(6)
    obtain c'' where c'': "rotateURL (now i) ?c = Ok (c'', True)" "asked urls ?V c''" "HorizonURL c'' \<notin> ?V"
      by blast
    have len: "1 < length (AltURLs ?c)"
    proof -
      have "card {?u, g} \<le> card (set urls)" using u assms(6) by (intro card_mono) auto
      moreover have "?u \<noteq> g" using g by blast
      then have "card {?u, g} = 2" by simp
      ultimately show ?thesis using card_length [of urls] c'(4) by (simp add: markFailure_def)
    qed
    from Suc.IH [OF c''(2,3) V(1) g V(2)]
    show ?thesis using left len c'(1) c''(1) by (simp add: Let_def)
  qed
qed

text \<open>C36. A new client with distinct endpoints gets a transaction as long as one of the endpoints
  always answers and the others answer or fail to connect: the collector ranks what has failed
  below what was not asked, so no endpoint is asked twice before all were.\<close>

theorem GetTransaction_finds:
  assumes "distinct urls" and "[] \<notin> set urls" and "0 \<le> threshold"
    and "\<And>i u. fst (env i u) = Transport \<or> (\<exists>x. fst (env i u) = Answer x \<and> valid x)"
    and "good \<in> set urls" and "\<And>i. fst (env i good) \<noteq> Transport"
  shows "\<exists>c' x. GetTransaction valid env now (new_client soroban urls threshold timeout) = Ok (c', Inr x)"
proof -
  let ?c = "new_client soroban urls threshold timeout"
  from assms(5) have ne: "urls \<noteq> []" by auto
  then have "asked urls {} ?c"
    using assms(3) by (simp add: asked_def new_client_def hd_conv_nth)
  moreover have "endpointAttempts ?c = length urls" using ne by (simp add: endpointAttempts_def new_client_def)
  moreover have "card (set urls) \<le> card ({} :: string set) + length urls" by (simp add: card_length)
  ultimately show ?thesis
    unfolding GetTransaction_def using assms
    by (intro fetch_finds [of urls "{}" ?c env valid good]) auto
qed

text \<open>An environment in which only \<open>g\<close> answers.\<close>

definition only :: "string \<Rightarrow> nat \<Rightarrow> string \<Rightarrow> nat reply \<times> int" where
  "only g i u = (if u = g then Answer 7 else Transport, 0)"

lemma GetTransaction_finds_witness:
  "\<exists>c' x. GetTransaction (\<lambda>_. True) (only ''c'') (\<lambda>_. 0) (new_client ''s'' [''a'', ''b'', ''c''] 5 60) = Ok (c', Inr x)"
  by (rule GetTransaction_finds [where good = "''c''"]) (simp_all add: only_def)

lemma markFailure_url [simp]: "HorizonURL (markFailure t u c) = HorizonURL c"
  by (simp add: markFailure_def)

lemma unknown_first: "u \<noteq> [] \<Longrightarrow> GetHealthiestURL (\<lambda>_. None) (u # us) = u"
proof -
  have "fold (health_turn (\<lambda>_. None)) us (v, 1 / 2) = (v, 1 / 2)" for v
    by (induction us) (simp_all add: health_turn_def)
  then show "u \<noteq> [] \<Longrightarrow> GetHealthiestURL (\<lambda>_. None) (u # us) = u"
    by (simp add: GetHealthiestURL_def health_turn_def)
qed

lemma rotate_unknown:
  assumes "healthCollector c = Some (\<lambda>_. None)" and "AltURLs c = [a, b, g]" and "distinct [a, b, g]"
    and "[] \<notin> {a, b, g}" and "\<And>u. isHealthyLocked now u c"
  shows "currIndex c = 0 \<Longrightarrow> rotateURL now c =
      Ok (c\<lparr>currIndex := 1, HorizonURL := b, SorobanURL := b, rotateCount := rotateCount c + 1\<rparr>, True)"
    and "currIndex c = 1 \<Longrightarrow> rotateURL now c =
      Ok (c\<lparr>currIndex := 0, HorizonURL := a, SorobanURL := a, rotateCount := rotateCount c + 1\<rparr>, True)"
proof -
  have ne: "a \<noteq> b" "b \<noteq> a" "a \<noteq> g" "g \<noteq> a" "b \<noteq> g" "g \<noteq> b" "a \<noteq> []" "b \<noteq> []"
    using assms(3,4) by auto
  show "currIndex c = 0 \<Longrightarrow> rotateURL now c =
      Ok (c\<lparr>currIndex := 1, HorizonURL := b, SorobanURL := b, rotateCount := rotateCount c + 1\<rparr>, True)"
    "currIndex c = 1 \<Longrightarrow> rotateURL now c =
      Ok (c\<lparr>currIndex := 0, HorizonURL := a, SorobanURL := a, rotateCount := rotateCount c + 1\<rparr>, True)"
    using assms(1,2,5)
    by (simp_all add: ne rotateURL_def next_index_def unknown_first index_of_url_def at_idx_def upt_rec Let_def)
qed

text \<open>The number of failures, once an attempt at a header has failed.\<close>

lemma header_fails:
  assumes "env i (HorizonURL c) = (Transport, d)" and "isHealthyLocked (now i) (HorizonURL c) c"
  shows "getLedgerHeaderAttempt env now i c = (c, Inl ConnectionFailed)"
  using assms by (simp add: getLedgerHeaderAttempt_def handleLedgerError_def)

lemma few_failures: "2 \<le> cl_threshold c \<Longrightarrow> cl_failures c u \<le> 1 \<Longrightarrow> isHealthyLocked now u c"
  by (simp add: isHealthyLocked_def)

text \<open>
  With a threshold of the circuit breaker of at least 2, the same client does not get a ledger header
  when the first two of three endpoints fail to connect: these attempts are not recorded in the
  collector, \<open>GetHealthiestURL\<close> returns the first URL that it knows nothing about (its comment promises
  an empty string), so after the second failure the first endpoint is chosen again, and the third,
  which would answer, is not asked. With a threshold of 1 the first endpoint is skipped and the third
  is asked.
\<close>

theorem GetLedgerHeader_skips:
  assumes "distinct [a, b, g]" and "[] \<notin> {a, b, g}" and "2 \<le> threshold"
    and "\<And>i. fst (env i a) = Transport" and "\<And>i. fst (env i b) = Transport"
  shows "\<exists>c'. GetLedgerHeader env now (new_client soroban [a, b, g] threshold timeout) =
    Ok (c', Inl (AllNodesFailed [(a, ConnectionFailed), (b, ConnectionFailed), (a, ConnectionFailed)]))"
proof -
  define da db where "da i = snd (env i a)" and "db i = snd (env i b)" for i
  then have env: "\<And>i. env i a = (Transport, da i)" "\<And>i. env i b = (Transport, db i)"
    using assms(4,5) by (simp_all add: prod_eq_iff)
  define c0 where "c0 = new_client soroban [a, b, g] threshold timeout"
  define c1 where "c1 = (markFailure (now 0) a c0)\<lparr>currIndex := 1, HorizonURL := b, SorobanURL := b, rotateCount := 1\<rparr>"
  define c2 where "c2 = (markFailure (now 1) b c1)\<lparr>currIndex := 0, HorizonURL := a, SorobanURL := a, rotateCount := 2\<rparr>"
  note defs = c0_def c1_def c2_def new_client_def markFailure_def
  have healthy: "isHealthyLocked t u c" if "c \<in> {c0, markFailure (now 0) a c0, c1, markFailure (now 1) b c1, c2}" for t u c
    using that assms(1,3) by (intro few_failures) (auto simp: defs)
  have r0: "rotateURL (now 0) (markFailure (now 0) a c0) = Ok (c1, True)"
    using rotate_unknown(1) [of "markFailure (now 0) a c0" a b g "now 0", OF _ _ assms(1,2) healthy] by (simp add: defs)
  have r1: "rotateURL (now 1) (markFailure (now 1) b c1) = Ok (c2, True)"
    using rotate_unknown(2) [of "markFailure (now 1) b c1" a b g "now 1", OF _ _ assms(1,2) healthy] by (simp add: defs)
  have urls: "HorizonURL c0 = a" "HorizonURL c1 = b" "HorizonURL c2 = a" and alt:
    "AltURLs (markFailure t u c0) = [a, b, g]" "AltURLs (markFailure t u c1) = [a, b, g]" "AltURLs (markFailure t u c2) = [a, b, g]"
    for t u
    by (simp_all add: defs)
  have at: "getLedgerHeaderAttempt env now 0 c0 = (c0, Inl ConnectionFailed)"
    "getLedgerHeaderAttempt env now 1 c1 = (c1, Inl ConnectionFailed)"
    "getLedgerHeaderAttempt env now 2 c2 = (c2, Inl ConnectionFailed)"
    using env healthy by (auto intro!: header_fails simp: urls)
  have "endpointAttempts c0 = Suc (Suc (Suc 0))" by (simp add: endpointAttempts_def defs)
  then show ?thesis
    unfolding GetLedgerHeader_def c0_def [symmetric]
    using at r0 r1 by (simp add: urls alt Let_def numeral_2_eq_2)
qed

lemma GetLedgerHeader_skips_witness:
  "\<exists>c'. GetLedgerHeader (only ''c'') (\<lambda>_. 0) (new_client ''s'' [''a'', ''b'', ''c''] 5 60) =
    Ok (c', Inl (AllNodesFailed [(''a'', ConnectionFailed), (''b'', ConnectionFailed), (''a'', ConnectionFailed)]))"
  by (rule GetLedgerHeader_skips) (simp_all add: only_def)

end
