(* ===== verification/AuditLog.thy ===== *)
theory AuditLog
  imports GoText "HOL-Library.AList" "HOL-Library.List_Lexorder" "HOL-Library.Char_ord"
    "HOL-Library.Product_Lexorder" "HOL-Library.Multiset"
begin

text \<open>
  The rotating audit log: segment names and manifests (\<open>internal/audit/segment.go\<close>), atomic writes
  (\<open>atomic.go\<close>) and the writer with its rotation (\<open>rotation.go\<close>).

  The log directory is an association list from file names to files; \<open>os.ReadDir\<close> sorts it by name.
  A system call may fail, and a fault may be injected at the named stages: the argument \<open>fl\<close> says which
  of them do in one operation, \<open>wr\<close> how many bytes a failing write leaves, and the record \<open>times\<close> what the
  clock reads. A crash is a fault after which the writer is not used again. The temporary files of an
  atomic write are left out: no reader looks at their names. SHA-256 and the JSON codec of manifests
  are the parameter \<open>env\<close>; \<open>good_env\<close> says that a digest has 32 bytes and that unmarshalling gives back
  a marshalled manifest whose strings are ASCII. Sizes are integers: a segment has less than \<open>2^63\<close> bytes.
\<close>

section \<open>Decimal numbers and time stamps\<close>

definition is_digit :: "char \<Rightarrow> bool" where
  "is_digit c \<longleftrightarrow> 48 \<le> (of_char c :: nat) \<and> (of_char c :: nat) \<le> 57"

definition dec_value :: "string \<Rightarrow> nat" where
  "dec_value s = foldl (\<lambda>v c. 10 * v + (of_char c - 48)) 0 s"

text \<open>\<open>%0wd\<close>, on a number that is not negative.\<close>

definition pad :: "nat \<Rightarrow> nat \<Rightarrow> string" where
  "pad w n = (let s = fmt_nat n in replicate (w - length s) (CHR ''0'') @ s)"

text \<open>
  \<open>Format("20060102T150405Z")\<close> of a UTC time, in nanoseconds since 1970. The day is split into cycles of
  400, 100, 4 and 1 years that start in March.
\<close>

definition civil :: "nat \<Rightarrow> nat \<times> nat \<times> nat" where
  "civil days =
     (let z = days + 719468; era = z div 146097; doe = z mod 146097;
          n100 = min 3 (doe div 36524); d2 = doe - 36524 * n100;
          n4 = d2 div 1461; d3 = d2 - 1461 * n4;
          n1 = min 3 (d3 div 365); doy = d3 - 365 * n1;
          mp = (5 * doy + 2) div 153; d = doy - (153 * mp + 2) div 5 + 1;
          m = (if mp < 10 then mp + 3 else mp - 9)
      in (400 * era + 100 * n100 + 4 * n4 + n1 + (if m \<le> 2 then 1 else 0), m, d))"

definition stamp :: "nat \<Rightarrow> string" where
  "stamp t =
     (let s = t div 1000000000; (y, m, d) = civil (s div 86400); r = s mod 86400
      in pad 4 y @ pad 2 m @ pad 2 d @ ''T'' @
         pad 2 (r div 3600) @ pad 2 (r mod 3600 div 60) @ pad 2 (r mod 60) @ ''Z'')"

lemma is_digit_char_of: "n < 10 \<Longrightarrow> is_digit (char_of (48 + n :: nat))"
  by (simp add: is_digit_def)

lemma fmt_nat_digits: "list_all is_digit (fmt_nat n)"
proof (induction n rule: less_induct)
  case (less n)
  then show ?case
    by (subst fmt_nat.simps) (simp add: is_digit_char_of)
qed

lemma dec_value_snoc: "dec_value (s @ [c]) = 10 * dec_value s + (of_char c - 48)"
  by (simp add: dec_value_def)

lemma dec_value_fmt_nat: "dec_value (fmt_nat n) = n"
proof (induction n rule: less_induct)
  case (less n)
  show ?case
  proof (cases "n < 10")
    case True
    then show ?thesis by (subst fmt_nat.simps) (simp add: dec_value_def)
  next
    case False
    with less have "dec_value (fmt_nat (n div 10)) = n div 10" by simp
    with False show ?thesis by (subst fmt_nat.simps) (simp add: dec_value_snoc)
  qed
qed

lemma fmt_nat_length: "n < 10 ^ Suc w \<Longrightarrow> length (fmt_nat n) \<le> Suc w"
proof (induction w arbitrary: n)
  case 0
  then show ?case by (simp add: fmt_nat.simps)
next
  case (Suc w)
  show ?case
  proof (cases "n < 10")
    case True
    then show ?thesis by (simp add: fmt_nat.simps)
  next
    case False
    have "n div 10 < 10 ^ Suc w" using Suc.prems by (simp add: less_mult_imp_div_less mult.commute)
    with Suc.IH False show ?thesis by (subst fmt_nat.simps) simp
  qed
qed

lemma dec_value_zeros: "dec_value (replicate k (CHR ''0'') @ s) = dec_value s"
  by (induction k) (simp_all add: dec_value_def)

lemma pad_value: "dec_value (pad w n) = n"
  by (simp add: pad_def Let_def dec_value_zeros dec_value_fmt_nat)

lemma pad_digits: "list_all is_digit (pad w n)"
  using fmt_nat_digits [of n] by (auto simp: pad_def Let_def list_all_iff is_digit_def)

lemma pad_length: "0 < w \<Longrightarrow> n < 10 ^ w \<Longrightarrow> length (pad w n) = w"
  using fmt_nat_length [of n "w - 1"] by (simp add: pad_def Let_def)

lemma pad_long: "w \<le> length (pad w n)"
  by (simp add: pad_def Let_def)

lemma civil_bounds:
  assumes "days < 2786860" "civil days = (y, m, d)"
  shows "y < 10000" "m < 100" "d < 100"
proof -
  define z where "z = days + 719468"
  define era where "era = z div 146097"
  define doe where "doe = z mod 146097"
  define n100 where "n100 = min 3 (doe div 36524)"
  define d2 where "d2 = doe - 36524 * n100"
  define n4 where "n4 = d2 div 1461"
  define d3 where "d3 = d2 - 1461 * n4"
  define n1 where "n1 = min 3 (d3 div 365)"
  define doy where "doy = d3 - 365 * n1"
  define mp where "mp = (5 * doy + 2) div 153"
  note defs = z_def era_def doe_def n100_def d2_def n4_def d3_def n1_def doy_def mp_def
  have "(y, m, d) = (400 * era + 100 * n100 + 4 * n4 + n1 + (if (if mp < 10 then mp + 3 else mp - 9) \<le> 2 then 1 else 0),
      (if mp < 10 then mp + 3 else mp - 9), doy - (153 * mp + 2) div 5 + 1)"
    by (simp only: assms(2) [symmetric] civil_def Let_def defs)
  then have ymd: "m = (if mp < 10 then mp + 3 else mp - 9)" "d = doy - (153 * mp + 2) div 5 + 1"
    "y = 400 * era + 100 * n100 + 4 * n4 + n1 + (if m \<le> 2 then 1 else 0)"
    by simp_all
  have "z < 3506328" using assms(1) by (simp add: z_def)
  then have era: "era \<le> 23" by (simp add: era_def)
  have doe: "doe < 146097" by (simp add: doe_def)
  have d2: "d2 \<le> 36524"
  proof (cases "doe div 36524 \<le> 3")
    case True
    then have "d2 = doe mod 36524" by (simp add: d2_def n100_def minus_mult_div_eq_mod)
    then show ?thesis by (simp add: less_imp_le)
  next
    case False
    then have "n100 = 3" by (simp add: n100_def)
    with doe show ?thesis by (simp add: d2_def)
  qed
  have n4: "n4 \<le> 24" using d2 by (simp add: n4_def)
  have d3: "d3 \<le> 1460" by (simp add: d3_def n4_def minus_mult_div_eq_mod less_Suc_eq_le [symmetric])
  have doy: "doy \<le> 365"
  proof (cases "d3 div 365 \<le> 3")
    case True
    then have "doy = d3 mod 365" by (simp add: doy_def n1_def minus_mult_div_eq_mod)
    then show ?thesis by (simp add: less_imp_le)
  next
    case False
    then have "n1 = 3" by (simp add: n1_def)
    with d3 show ?thesis by (simp add: doy_def)
  qed
  have mp: "mp \<le> 11" using doy by (simp add: mp_def)
  show "m < 100" using mp ymd(1) by (cases "mp < 10") simp_all
  have "153 * mp \<le> 5 * doy + 2" "5 * doy + 2 < 153 * mp + 153"
    using times_div_less_eq_dividend [of 153 "5 * doy + 2"] dividend_less_times_div [of 153 "5 * doy + 2"]
    by (simp_all add: mp_def add.commute)
  then have "doy - (153 * mp + 2) div 5 \<le> 31" by linarith
  then show "d < 100" using ymd(2) by simp
  have n: "n100 \<le> 3" "n1 \<le> 3" by (simp_all add: n100_def n1_def)
  show "y < 10000" using era n n4 ymd(3) by (auto split: if_splits)
qed

text \<open>The clock between 1970 and 9600: the year has four digits.\<close>

definition clock_ok :: "nat \<Rightarrow> bool" where
  "clock_ok t \<longleftrightarrow> t div 1000000000 div 86400 < 2786860"

lemma stamp_shape:
  assumes "clock_ok t"
  shows "\<exists>a b. stamp t = a @ CHR ''T'' # b @ ''Z'' \<and> length a = 8 \<and> length b = 6 \<and>
    list_all is_digit a \<and> list_all is_digit b"
proof -
  define s where "s = t div 1000000000"
  obtain y m d where c: "civil (s div 86400) = (y, m, d)" by (cases "civil (s div 86400)") auto
  with assms civil_bounds [of "s div 86400"] have b: "y < 10000" "m < 100" "d < 100"
    by (auto simp: clock_ok_def s_def)
  define r where "r = s mod 86400"
  have "r < 86400" by (simp add: r_def)
  then have h: "r div 3600 < 100" by simp
  have m': "r mod 3600 div 60 < 100" "r mod 60 < 100"
    using mod_less_divisor [of 3600 r] mod_less_divisor [of 60 r] by auto
  have "stamp t = (pad 4 y @ pad 2 m @ pad 2 d) @
      CHR ''T'' # (pad 2 (r div 3600) @ pad 2 (r mod 3600 div 60) @ pad 2 (r mod 60)) @ ''Z''"
    by (simp add: stamp_def Let_def c r_def flip: s_def)
  then show ?thesis using b h m'
    by (intro exI [of _ "pad 4 y @ pad 2 m @ pad 2 d"]
          exI [of _ "pad 2 (r div 3600) @ pad 2 (r mod 3600 div 60) @ pad 2 (r mod 60)"] conjI)
       (simp_all add: pad_length pad_digits)
qed

section \<open>Names of segments and manifests\<close>

definition ActiveSegmentName :: string where
  "ActiveSegmentName = ''current.jsonl''"

definition ManifestSuffix :: string where
  "ManifestSuffix = ''.manifest.json''"

definition has_suffix :: "string \<Rightarrow> string \<Rightarrow> bool" where
  "has_suffix s p \<longleftrightarrow> length p \<le> length s \<and> drop (length s - length p) s = p"

definition trim_suffix :: "string \<Rightarrow> string \<Rightarrow> string" where
  "trim_suffix s p = (if has_suffix s p then take (length s - length p) s else s)"

definition FormatSegmentName :: "nat \<Rightarrow> nat \<Rightarrow> string" where
  "FormatSegmentName q t = ''segment-'' @ pad 6 q @ ''-'' @ stamp t @ ''.jsonl''"

text \<open>The regular expression \<open>^segment-(\d{6})-(\d{8}T\d{6}Z)\.jsonl$\<close>, and the number of its first group.\<close>

definition ParseSegmentSequence :: "string \<Rightarrow> nat option" where
  "ParseSegmentSequence s =
     (if length s = 37 \<and> take 8 s = ''segment-'' \<and> list_all is_digit (take 6 (drop 8 s)) \<and>
         s ! 14 = CHR ''-'' \<and> list_all is_digit (take 8 (drop 15 s)) \<and> s ! 23 = CHR ''T'' \<and>
         list_all is_digit (take 6 (drop 24 s)) \<and> drop 30 s = ''Z.jsonl''
      then Some (dec_value (take 6 (drop 8 s))) else None)"

definition IsClosedSegmentName :: "string \<Rightarrow> bool" where
  "IsClosedSegmentName s \<longleftrightarrow> ParseSegmentSequence s \<noteq> None"

text \<open>\<open>ManifestPathFor\<close> on the name of a file of the log directory.\<close>

definition ManifestPathFor :: "string \<Rightarrow> string" where
  "ManifestPathFor s = trim_suffix s ''.jsonl'' @ ManifestSuffix"

lemma ParseSegmentSequence_Format:
  assumes "q < 1000000" "clock_ok t"
  shows "ParseSegmentSequence (FormatSegmentName q t) = Some q"
proof -
  from assms(2) stamp_shape obtain a b where st: "stamp t = a @ CHR ''T'' # b @ ''Z''"
    and l: "length a = 8" "length b = 6" "list_all is_digit a" "list_all is_digit b" by blast
  have p: "length (pad 6 q) = 6" "list_all is_digit (pad 6 q)" "dec_value (pad 6 q) = q"
    using assms(1) by (simp_all add: pad_length pad_digits pad_value)
  define n where "n = FormatSegmentName q t"
  have n: "n = ''segment-'' @ pad 6 q @ ''-'' @ a @ ''T'' @ b @ ''Z.jsonl''"
    by (simp add: n_def FormatSegmentName_def st)
  have "length n = 37" "take 8 n = ''segment-''" "take 6 (drop 8 n) = pad 6 q" "n ! 14 = CHR ''-''"
    "take 8 (drop 15 n) = a" "n ! 23 = CHR ''T''" "take 6 (drop 24 n) = b" "drop 30 n = ''Z.jsonl''"
    by (simp_all add: n p l nth_append)
  then show ?thesis unfolding ParseSegmentSequence_def n_def [symmetric] by (simp add: p l)
qed

lemma ParseSegmentSequence_bound: "ParseSegmentSequence s = Some q \<Longrightarrow> q < 1000000"
proof -
  have b: "dec_value s < 10 ^ length s" if "list_all is_digit s" for s
    using that
  proof (induction s rule: rev_induct)
    case (snoc c s)
    then have "dec_value s + 1 \<le> 10 ^ length s" "(of_char c :: nat) - 48 \<le> 9"
      by (auto simp: is_digit_def)
    then show ?case by (simp add: dec_value_snoc)
  qed (simp add: dec_value_def)
  assume "ParseSegmentSequence s = Some q"
  then show ?thesis using b [of "take 6 (drop 8 s)"]
    by (auto simp: ParseSegmentSequence_def split: if_splits)
qed

text \<open>A segment name is its stem and the suffix: the name of its manifest determines it.\<close>

lemma segment_name_stem:
  assumes "ParseSegmentSequence s = Some q"
  shows "s = take 31 s @ ''.jsonl''" "length s = 37" "ManifestPathFor s = take 31 s @ ManifestSuffix"
proof -
  from assms have l: "length s = 37" and d: "drop 30 s = ''Z.jsonl''"
    by (auto simp: ParseSegmentSequence_def split: if_splits)
  have "drop 31 s = drop 1 (drop 30 s)" by simp
  with d have d': "drop 31 s = ''.jsonl''" by simp
  show "s = take 31 s @ ''.jsonl''" using append_take_drop_id [of 31 s] d' by simp
  show "length s = 37" by (rule l)
  show "ManifestPathFor s = take 31 s @ ManifestSuffix"
    by (simp add: ManifestPathFor_def trim_suffix_def has_suffix_def l d')
qed

lemma ManifestPathFor_inj:
  assumes "ParseSegmentSequence s = Some q" "ParseSegmentSequence s' = Some q'"
    "ManifestPathFor s = ManifestPathFor s'"
  shows "s = s'"
  using segment_name_stem [OF assms(1)] segment_name_stem [OF assms(2)] assms(3) by (metis append_same_eq)

lemma segment_not_manifest: "ParseSegmentSequence s = Some q \<Longrightarrow> \<not> has_suffix s ManifestSuffix"
proof
  assume s: "ParseSegmentSequence s = Some q" and m: "has_suffix s ManifestSuffix"
  from m have "last s = CHR ''n''"
    by (auto simp: has_suffix_def ManifestSuffix_def) (metis append_take_drop_id last_ConsL last_ConsR last_appendR list.distinct(1))
  moreover have "last s = CHR ''l''" using segment_name_stem(1) [OF s]
    by (metis last_ConsL last_ConsR last_appendR list.distinct(1))
  ultimately show False by simp
qed

lemma manifest_suffix: "has_suffix (x @ ManifestSuffix) ManifestSuffix"
  by (simp add: has_suffix_def)

lemma manifest_not_segment: "has_suffix s ManifestSuffix \<Longrightarrow> ParseSegmentSequence s = None"
  using segment_not_manifest by (metis not_None_eq)

lemma active_not_segment [simp]: "ParseSegmentSequence ActiveSegmentName = None"
  by (simp add: ParseSegmentSequence_def ActiveSegmentName_def)

lemma active_not_manifest [simp]: "\<not> has_suffix ActiveSegmentName ManifestSuffix"
  by (simp add: has_suffix_def ActiveSegmentName_def ManifestSuffix_def)

lemma manifest_of_segment [simp]:
  "ParseSegmentSequence (ManifestPathFor s) = None" "ManifestPathFor s \<noteq> ActiveSegmentName"
  "has_suffix (ManifestPathFor s) ManifestSuffix"
proof -
  show suf: "has_suffix (ManifestPathFor s) ManifestSuffix"
    by (simp add: ManifestPathFor_def manifest_suffix)
  then show "ParseSegmentSequence (ManifestPathFor s) = None" by (rule manifest_not_segment)
  from suf show "ManifestPathFor s \<noteq> ActiveSegmentName" using active_not_manifest by metis
qed

section \<open>Manifests and digests\<close>

definition SchemaVersion :: string where
  "SchemaVersion = ''1''"

text \<open>\<open>SegmentManifest\<close>; the times are nanoseconds since 1970.\<close>

record manifest =
  sm_SchemaVersion :: string
  sm_Segment :: string
  sm_Sequence :: nat
  sm_CreatedAt :: int
  sm_ClosedAt :: int
  sm_RecordCount :: int
  sm_SizeBytes :: int
  sm_SHA256 :: string
  sm_PreviousSegmentHash :: string

record env =
  sha256 :: "string \<Rightarrow> string"
  marshal :: "manifest \<Rightarrow> string option"
  unmarshal :: "string \<Rightarrow> manifest option"

text \<open>
  \<open>encoding/json\<close> gives back a manifest whose strings are ASCII; bytes that are not UTF-8 it replaces.
\<close>

definition plain_text :: "string \<Rightarrow> bool" where
  "plain_text s \<longleftrightarrow> list_all (\<lambda>c. of_char c < (128 :: nat)) s"

definition plain_manifest :: "manifest \<Rightarrow> bool" where
  "plain_manifest m \<longleftrightarrow> plain_text (sm_SchemaVersion m) \<and> plain_text (sm_Segment m) \<and>
     plain_text (sm_SHA256 m) \<and> plain_text (sm_PreviousSegmentHash m)"

definition good_env :: "env \<Rightarrow> bool" where
  "good_env e \<longleftrightarrow> (\<forall>s. length (sha256 e s) = 32) \<and>
     (\<forall>m s. plain_manifest m \<longrightarrow> marshal e m = Some s \<longrightarrow> unmarshal e (s @ [CHR 0x0A]) = Some m)"

definition hex_char :: "nat \<Rightarrow> char" where
  "hex_char n = ''0123456789abcdef'' ! n"

definition hex_encode :: "string \<Rightarrow> string" where
  "hex_encode s = concat (map (\<lambda>c. [hex_char (of_char c div 16), hex_char (of_char c mod 16)]) s)"

definition HashBytes :: "env \<Rightarrow> string \<Rightarrow> string" where
  "HashBytes e s = hex_encode (sha256 e s)"

datatype hash_error = WrongLength nat | NonHex char

fun first_non_hex :: "string \<Rightarrow> char option" where
  "first_non_hex [] = None"
| "first_non_hex (c # s) =
     (let n = of_char c :: nat in
      if 48 \<le> n \<and> n \<le> 57 \<or> 97 \<le> n \<and> n \<le> 102 \<or> 65 \<le> n \<and> n \<le> 70 then first_non_hex s else Some c)"

definition ValidateSHA256Hex :: "string \<Rightarrow> hash_error option" where
  "ValidateSHA256Hex h = (if length h \<noteq> 64 then Some (WrongLength (length h))
     else map_option NonHex (first_non_hex h))"

lemma hex_encode_length: "length (hex_encode s) = 2 * length s"
  by (induction s) (simp_all add: hex_encode_def)

lemma hex_char_ok: "n < 16 \<Longrightarrow> first_non_hex [hex_char n] = None"
  by (simp add: hex_char_def less_Suc_eq numeral_eq_Suc nth_Cons') (auto simp: nth_Cons')

lemma hex_encode_ok: "first_non_hex (hex_encode s) = None"
proof (induction s)
  case (Cons c s)
  have "(of_char c :: nat) < 256" by simp
  then have "(of_char c :: nat) div 16 < 16" "(of_char c :: nat) mod 16 < 16" by linarith+
  note this [THEN hex_char_ok]
  with Cons show ?case by (auto simp: hex_encode_def Let_def split: if_splits)
qed (simp add: hex_encode_def)

lemma plain_text_simps [simp]:
  "plain_text ''''" "plain_text (c # s) \<longleftrightarrow> of_char c < (128 :: nat) \<and> plain_text s"
  "plain_text (s @ s') \<longleftrightarrow> plain_text s \<and> plain_text s'"
  by (simp_all add: plain_text_def)

lemma plain_digits: "list_all is_digit s \<Longrightarrow> plain_text s"
  by (auto simp: plain_text_def list_all_iff is_digit_def)

lemma plain_stamp: "plain_text (stamp t)"
  by (simp add: stamp_def Let_def plain_digits pad_digits split: prod.split)

lemma plain_segment: "plain_text (FormatSegmentName q t)"
  by (simp add: FormatSegmentName_def plain_stamp plain_digits pad_digits)

lemma plain_hex: "first_non_hex s = None \<Longrightarrow> plain_text s"
  by (induction s) (auto simp: Let_def split: if_splits)

lemma plain_digest: "plain_text (HashBytes e s)"
  by (simp add: HashBytes_def plain_hex hex_encode_ok)

lemma HashBytes_valid: "good_env e \<Longrightarrow> ValidateSHA256Hex (HashBytes e s) = None"
  by (simp add: ValidateSHA256Hex_def HashBytes_def hex_encode_length hex_encode_ok good_env_def)

lemma HashBytes_not_empty: "good_env e \<Longrightarrow> HashBytes e s \<noteq> ''''"
  using hex_encode_length [of "sha256 e s"] by (auto simp: HashBytes_def good_env_def)

section \<open>The log directory\<close>

text \<open>A file has its content and its modification time.\<close>

datatype node = RegularFile string nat | SubDir

type_synonym dir = "(string \<times> node) list"

definition read_file :: "dir \<Rightarrow> string \<Rightarrow> string option" where
  "read_file d n = (case map_of d n of Some (RegularFile s t) \<Rightarrow> Some s | _ \<Rightarrow> None)"

definition put_file :: "string \<Rightarrow> string \<Rightarrow> nat \<Rightarrow> dir \<Rightarrow> dir" where
  "put_file n s t d = AList.update n (RegularFile s t) d"

text \<open>\<open>os.Remove\<close> of a file; it is no error here that there is none.\<close>

definition remove_file :: "string \<Rightarrow> dir \<Rightarrow> dir" where
  "remove_file n d = AList.delete n d"

text \<open>\<open>os.Rename\<close> replaces a file of the new name, and fails on a directory.\<close>

definition rename_file :: "string \<Rightarrow> string \<Rightarrow> dir \<Rightarrow> dir option" where
  "rename_file a b d = (case map_of d a of None \<Rightarrow> None
     | Some x \<Rightarrow> if map_of d b = Some SubDir then None else Some (AList.update b x (AList.delete a d)))"

definition ReadDir :: "dir \<Rightarrow> dir" where
  "ReadDir d = sort_key fst d"

definition HashFile :: "env \<Rightarrow> dir \<Rightarrow> string \<Rightarrow> string option" where
  "HashFile e d n = map_option (HashBytes e) (read_file d n)"

definition ReadManifest :: "env \<Rightarrow> dir \<Rightarrow> string \<Rightarrow> manifest option" where
  "ReadManifest e d n = Option.bind (read_file d n) (unmarshal e)"

section \<open>System calls and faults\<close>

datatype stage = AfterCreate | AfterWrite | AfterSync | AfterClose | BeforeRename
  | RotateAfterCloseActive | RotateAfterHash | RotateBeforeManifest | RotateAfterManifest
  | RotateBeforeSegmentRename | RotateAfterSegmentRename | RotateBeforeOpenActive

datatype call = MkdirAll | ReadNames | ReadHashes | OpenActive | StatActive | CountActive
  | SyncActive | CloseActive | HashActive | MarshalManifest
  | TempMkdir | TempCreate | TempWrite | TempSync | TempClose | TempRename
  | RenameActive | RemoveManifest | Hook stage

type_synonym faults = "call \<Rightarrow> bool"

datatype audit_error = WriterClosed | EmptyRecord | WriteFailed | Failed call

record times =
  at_check :: nat
  at_close :: nat
  at_open :: nat

text \<open>\<open>writeFileAtomic\<close>: whatever fails, the target is the old one or the new one.\<close>

definition atomic_calls :: "call list" where
  "atomic_calls = [TempMkdir, TempCreate, Hook AfterCreate, TempWrite, Hook AfterWrite, TempSync,
     Hook AfterSync, TempClose, Hook AfterClose, Hook BeforeRename, TempRename]"

definition writeFileAtomic :: "faults \<Rightarrow> string \<Rightarrow> string \<Rightarrow> nat \<Rightarrow> dir \<Rightarrow> audit_error option \<times> dir" where
  "writeFileAtomic fl n data t d = (case find fl atomic_calls of
     Some c \<Rightarrow> (Some (Failed c), d)
   | None \<Rightarrow> if map_of d n = Some SubDir then (Some (Failed TempRename), d) else (None, put_file n data t d))"

definition WriteManifestAtomic ::
    "env \<Rightarrow> faults \<Rightarrow> string \<Rightarrow> manifest \<Rightarrow> nat \<Rightarrow> dir \<Rightarrow> audit_error option \<times> dir" where
  "WriteManifestAtomic e fl n m t d = (case marshal e m of
     None \<Rightarrow> (Some (Failed MarshalManifest), d)
   | Some data \<Rightarrow> writeFileAtomic fl n (data @ [CHR 0x0A]) t d)"

section \<open>The writer\<close>

record rotation_config =
  MaxSizeBytes :: int
  MaxAge :: int

text \<open>\<open>w_open\<close> says that \<open>file\<close> is not nil; the active segment is always \<open>current.jsonl\<close>.\<close>

record writer =
  w_open :: bool
  w_size :: nat
  w_records :: nat
  w_openedAt :: nat
  w_nextSeq :: nat
  w_prevHash :: string

text \<open>\<open>countRecordsInFile\<close>: lines, the last one also without its newline.\<close>

definition countRecordsInFile :: "faults \<Rightarrow> string \<Rightarrow> nat" where
  "countRecordsInFile fl s = (if fl CountActive \<or> s = '''' then 0
     else length (filter (\<lambda>c. c = CHR 0x0A) s) + (if last s \<noteq> CHR 0x0A then 1 else 0))"

text \<open>Opening the active segment, creating it when there is none, and its size: its content is returned.\<close>

definition open_active :: "faults \<Rightarrow> times \<Rightarrow> dir \<Rightarrow> (audit_error + string) \<times> dir" where
  "open_active fl t d =
     (if fl OpenActive \<or> map_of d ActiveSegmentName = Some SubDir then (Inl (Failed OpenActive), d)
      else let d1 = (if map_of d ActiveSegmentName = None then put_file ActiveSegmentName '''' (at_open t) d else d) in
        case read_file d1 ActiveSegmentName of
          None \<Rightarrow> (Inl (Failed OpenActive), d1)
        | Some s \<Rightarrow> if fl StatActive then (Inl (Failed StatActive), d1) else (Inr s, d1))"

definition reopenActiveLocked :: "faults \<Rightarrow> times \<Rightarrow> writer \<Rightarrow> dir \<Rightarrow> audit_error option \<times> writer \<times> dir" where
  "reopenActiveLocked fl t w d = (case open_active fl t d of
     (Inl err, d1) \<Rightarrow> (Some err, w, d1)
   | (Inr s, d1) \<Rightarrow> let w1 = w\<lparr>w_open := True, w_size := length s\<rparr> in
       (None, if length s = 0 then w1\<lparr>w_records := 0, w_openedAt := at_open t\<rparr>
              else w1\<lparr>w_records := countRecordsInFile fl s\<rparr>, d1))"

text \<open>\<open>highestSequence\<close> and \<open>latestSegmentHashByName\<close>, loops over the entries of the directory.\<close>

definition highestSequence :: "dir \<Rightarrow> nat" where
  "highestSequence d = foldl (\<lambda>mx (n, x). case ParseSegmentSequence n of
     Some q \<Rightarrow> if mx < q then q else mx | None \<Rightarrow> mx) 0 (ReadDir d)"

definition better_name :: "string \<times> nat \<Rightarrow> string \<times> node \<Rightarrow> string \<times> nat" where
  "better_name best en = (case (best, en) of ((bn, bq), (n, x)) \<Rightarrow>
     (case ParseSegmentSequence n of None \<Rightarrow> (bn, bq)
      | Some q \<Rightarrow> if bn = '''' \<or> bq < q \<or> q = bq \<and> bn < n then (n, q) else (bn, bq)))"

definition latestSegmentHashByName :: "env \<Rightarrow> dir \<Rightarrow> audit_error + string" where
  "latestSegmentHashByName e d =
     (let (bn, bq) = foldl better_name ('''', 0) (ReadDir d) in
      if bn = '''' then Inr ''''
      else case ReadManifest e d (ManifestPathFor bn) of
             Some m \<Rightarrow> Inr (sm_SHA256 m)
           | None \<Rightarrow> (case HashFile e d bn of Some h \<Rightarrow> Inr h | None \<Rightarrow> Inl (Failed ReadHashes)))"

definition OpenWriter :: "env \<Rightarrow> faults \<Rightarrow> times \<Rightarrow> dir \<Rightarrow> (audit_error + writer) \<times> dir" where
  "OpenWriter e fl t d = (case find fl [MkdirAll, ReadNames, ReadHashes] of
     Some c \<Rightarrow> (Inl (Failed c), d)
   | None \<Rightarrow> (case latestSegmentHashByName e d of
       Inl err \<Rightarrow> (Inl err, d)
     | Inr prev \<Rightarrow> (case open_active fl t d of
         (Inl err, d1) \<Rightarrow> (Inl err, d1)
       | (Inr s, d1) \<Rightarrow>
           (Inr \<lparr>w_open = True, w_size = length s, w_records = countRecordsInFile fl s, w_openedAt = at_open t,
              w_nextSeq = (highestSequence d + 1) mod 2 ^ 64, w_prevHash = prev\<rparr>, d1))))"

definition manifest_of :: "writer \<Rightarrow> times \<Rightarrow> string \<Rightarrow> manifest" where
  "manifest_of w t dig = \<lparr>sm_SchemaVersion = SchemaVersion, sm_Segment = FormatSegmentName (w_nextSeq w) (at_close t),
     sm_Sequence = w_nextSeq w, sm_CreatedAt = int (w_openedAt w), sm_ClosedAt = int (at_close t),
     sm_RecordCount = int (w_records w), sm_SizeBytes = int (w_size w), sm_SHA256 = dig,
     sm_PreviousSegmentHash = w_prevHash w\<rparr>"

text \<open>\<open>rotateLocked\<close>, from the rename on: the last steps, and all of it.\<close>

definition rotate_done :: "faults \<Rightarrow> times \<Rightarrow> string \<Rightarrow> writer \<Rightarrow> dir \<Rightarrow> audit_error option \<times> writer \<times> dir" where
  "rotate_done fl t dig w d =
     (if fl (Hook RotateAfterSegmentRename) then (Some (Failed (Hook RotateAfterSegmentRename)), w, d)
      else let w1 = w\<lparr>w_prevHash := dig, w_nextSeq := (w_nextSeq w + 1) mod 2 ^ 64, w_size := 0,
                      w_records := 0, w_openedAt := at_close t\<rparr> in
        if fl (Hook RotateBeforeOpenActive) then (Some (Failed (Hook RotateBeforeOpenActive)), w1, d)
        else reopenActiveLocked fl t w1 d)"

text \<open>From the manifest on; \<open>w\<close> has no open file, \<open>dig\<close> is the digest of the active segment.\<close>

definition rotate_manifest :: "env \<Rightarrow> faults \<Rightarrow> times \<Rightarrow> string \<Rightarrow> writer \<Rightarrow> dir \<Rightarrow> audit_error option \<times> writer \<times> dir" where
  "rotate_manifest e fl t dig w d =
     (let segName = FormatSegmentName (w_nextSeq w) (at_close t); manPath = ManifestPathFor segName in
      case WriteManifestAtomic e fl manPath (manifest_of w t dig) (at_close t) d of
        (Some err, d1) \<Rightarrow> (Some err, snd (reopenActiveLocked fl t w d1))
      | (None, d1) \<Rightarrow>
        (case find fl [Hook RotateAfterManifest, Hook RotateBeforeSegmentRename] of
           Some c \<Rightarrow> (Some (Failed c), w, d1)
         | None \<Rightarrow>
           (case (if fl RenameActive then None else rename_file ActiveSegmentName segName d1) of
              None \<Rightarrow> (Some (Failed RenameActive),
                       snd (reopenActiveLocked fl t w (if fl RemoveManifest then d1 else remove_file manPath d1)))
            | Some d2 \<Rightarrow> rotate_done fl t dig w d2)))"

definition rotateLocked :: "env \<Rightarrow> faults \<Rightarrow> times \<Rightarrow> writer \<Rightarrow> dir \<Rightarrow> audit_error option \<times> writer \<times> dir" where
  "rotateLocked e fl t w d =
     (if \<not> w_open w then (Some WriterClosed, w, d)
      else if w_size w = 0 then (None, w, d)
      else case find fl [SyncActive, CloseActive] of Some c \<Rightarrow> (Some (Failed c), w, d)
      | None \<Rightarrow>
        let w1 = w\<lparr>w_open := False\<rparr> in
        if fl (Hook RotateAfterCloseActive) then (Some (Failed (Hook RotateAfterCloseActive)), w1, d)
        else case (if fl HashActive then None else HashFile e d ActiveSegmentName) of
          None \<Rightarrow> (Some (Failed HashActive), w1, d)
        | Some dig \<Rightarrow>
          (case find fl [Hook RotateAfterHash, Hook RotateBeforeManifest] of
             Some c \<Rightarrow> (Some (Failed c), w1, d)
           | None \<Rightarrow> rotate_manifest e fl t dig w1 d))"

definition maybeRotateLocked ::
    "env \<Rightarrow> rotation_config \<Rightarrow> faults \<Rightarrow> times \<Rightarrow> nat \<Rightarrow> writer \<Rightarrow> dir \<Rightarrow> audit_error option \<times> writer \<times> dir" where
  "maybeRotateLocked e cfg fl t n w d =
     (if w_size w = 0 then (None, w, d)
      else if MaxSizeBytes cfg > 0 \<and> int (w_size w + n) > MaxSizeBytes cfg then rotateLocked e fl t w d
      else if MaxAge cfg > 0 \<and> int (at_check t) - int (w_openedAt w) \<ge> MaxAge cfg then rotateLocked e fl t w d
      else (None, w, d))"

definition with_newline :: "string \<Rightarrow> string" where
  "with_newline r = (if last r \<noteq> CHR 0x0A then r @ [CHR 0x0A] else r)"

text \<open>The file is open for appending; a failing write leaves the first \<open>k\<close> bytes, when \<open>wr\<close> is \<open>Some k\<close>.\<close>

definition append_active :: "string \<Rightarrow> nat \<Rightarrow> dir \<Rightarrow> dir" where
  "append_active s t d = put_file ActiveSegmentName
     ((case read_file d ActiveSegmentName of Some c \<Rightarrow> c | None \<Rightarrow> '''') @ s) t d"

definition WriteRecord :: "env \<Rightarrow> rotation_config \<Rightarrow> faults \<Rightarrow> nat option \<Rightarrow> times \<Rightarrow> string \<Rightarrow>
    writer \<Rightarrow> dir \<Rightarrow> audit_error option \<times> writer \<times> dir" where
  "WriteRecord e cfg fl wr t r w d =
     (if \<not> w_open w then (Some WriterClosed, w, d)
      else if r = '''' then (Some EmptyRecord, w, d)
      else let payload = with_newline r in
        case maybeRotateLocked e cfg fl t (length payload) w d of
          (Some err, w1, d1) \<Rightarrow> (Some err, w1, d1)
        | (None, w1, d1) \<Rightarrow>
            (case wr of
               Some k \<Rightarrow> (Some WriteFailed, w1, append_active (take k payload) (at_check t) d1)
             | None \<Rightarrow> (None, w1\<lparr>w_size := w_size w1 + length payload, w_records := w_records w1 + 1\<rparr>,
                        append_active payload (at_check t) d1)))"

definition Rotate :: "env \<Rightarrow> faults \<Rightarrow> times \<Rightarrow> writer \<Rightarrow> dir \<Rightarrow> audit_error option \<times> writer \<times> dir" where
  "Rotate e fl t w d = rotateLocked e fl t w d"

text \<open>\<open>Close\<close>, whose last \<open>file.Close\<close> is reached with the file the rotation opened.\<close>

definition Close :: "env \<Rightarrow> faults \<Rightarrow> times \<Rightarrow> writer \<Rightarrow> dir \<Rightarrow> audit_error option \<times> writer \<times> dir" where
  "Close e fl t w d =
     (if \<not> w_open w then (None, w, d)
      else if w_size w > 0 then
        (case rotateLocked e fl t w d of
           (Some err, w1, d1) \<Rightarrow> (Some err, w1\<lparr>w_open := False\<rparr>, d1)
         | (None, w1, d1) \<Rightarrow> (None, w1\<lparr>w_open := False\<rparr>, d1))
      else (if fl CloseActive then Some (Failed CloseActive) else None, w\<lparr>w_open := False\<rparr>, d))"

section \<open>What is in the log\<close>

text \<open>The closed segments as entries of the directory, and as numbers and contents in their order.\<close>

definition segs :: "dir \<Rightarrow> dir" where
  "segs d = filter (\<lambda>(n, x). IsClosedSegmentName n) d"

definition seg_of :: "string \<times> node \<Rightarrow> nat \<times> string" where
  "seg_of en = (case en of (n, x) \<Rightarrow>
     (the (ParseSegmentSequence n), case x of RegularFile s t \<Rightarrow> s | SubDir \<Rightarrow> ''''))"

lemma snd_seg_of: "snd (seg_of (n, RegularFile s t)) = s"
  by (simp add: seg_of_def)

definition log_segments :: "dir \<Rightarrow> (nat \<times> string) list" where
  "log_segments d = sort_key fst (map seg_of (segs d))"

definition active_text :: "dir \<Rightarrow> string" where
  "active_text d = (case read_file d ActiveSegmentName of Some s \<Rightarrow> s | None \<Rightarrow> '''')"

definition wf_names :: "dir \<Rightarrow> bool" where
  "wf_names d \<longleftrightarrow> distinct (map fst d) \<and> map_of d ActiveSegmentName \<noteq> Some SubDir"

definition wf_dir :: "dir \<Rightarrow> bool" where
  "wf_dir d \<longleftrightarrow> wf_names d \<and> sorted_wrt (<) (map (fst \<circ> seg_of) (segs d)) \<and>
     (\<forall>en \<in> set (segs d). snd en \<noteq> SubDir)"

lemma sort_key_sorted: "sorted (map f xs) \<Longrightarrow> sort_key f xs = xs"
  by (induction xs) (auto simp: insort_is_Cons)

lemma log_segments_wf: "wf_dir d \<Longrightarrow> log_segments d = map seg_of (segs d)"
proof -
  assume "wf_dir d"
  then have "sorted_wrt (<) (map fst (map seg_of (segs d)))" by (simp add: wf_dir_def)
  then have "sorted (map fst (map seg_of (segs d)))" by (rule strict_sorted_imp_sorted)
  then show ?thesis unfolding log_segments_def by (rule sort_key_sorted)
qed

lemma map_of_put: "map_of (put_file n s t d) = (map_of d)(n \<mapsto> RegularFile s t)"
  by (simp add: put_file_def update_conv')

lemma map_of_remove: "map_of (remove_file n d) = (map_of d)(n := None)"
  by (auto simp: remove_file_def delete_conv')

lemma read_file_put [simp]: "read_file (put_file n s t d) m = (if m = n then Some s else read_file d m)"
  by (simp add: read_file_def map_of_put)

lemma read_file_remove [simp]: "read_file (remove_file n d) m = (if m = n then None else read_file d m)"
  by (simp add: read_file_def map_of_remove)

lemma segs_update_other: "\<not> IsClosedSegmentName n \<Longrightarrow> segs (AList.update n x d) = segs d"
  unfolding segs_def by (induction d) auto

lemma segs_delete_other: "\<not> IsClosedSegmentName n \<Longrightarrow> segs (AList.delete n d) = segs d"
  unfolding segs_def AList.delete_eq filter_filter by (rule filter_cong) auto

lemma update_new: "n \<notin> fst ` set d \<Longrightarrow> AList.update n x d = d @ [(n, x)]"
  by (induction d) auto

lemma wf_names_put: "wf_names d \<Longrightarrow> wf_names (put_file n s t d)"
  by (simp add: wf_names_def put_file_def distinct_update update_conv')

lemma wf_names_remove: "wf_names d \<Longrightarrow> wf_names (remove_file n d)"
  by (auto simp: wf_names_def remove_file_def distinct_delete delete_conv')

text \<open>Operations that do not touch the log.\<close>

definition keeps :: "dir \<Rightarrow> dir \<Rightarrow> bool" where
  "keeps d d' \<longleftrightarrow> segs d' = segs d \<and> active_text d' = active_text d \<and> (wf_names d \<longrightarrow> wf_names d')"

lemma keeps_refl: "keeps d d"
  by (simp add: keeps_def)

lemma keeps_trans: "keeps d d' \<Longrightarrow> keeps d' d'' \<Longrightarrow> keeps d d''"
  by (simp add: keeps_def)

lemma keeps_wf: "keeps d d' \<Longrightarrow> wf_dir d \<Longrightarrow> wf_dir d'"
  by (simp add: keeps_def wf_dir_def)

lemma keeps_put: "\<not> IsClosedSegmentName n \<Longrightarrow> n \<noteq> ActiveSegmentName \<Longrightarrow> keeps d (put_file n s t d)"
  by (simp add: keeps_def active_text_def wf_names_put) (simp add: put_file_def segs_update_other)

lemma keeps_remove: "\<not> IsClosedSegmentName n \<Longrightarrow> n \<noteq> ActiveSegmentName \<Longrightarrow> keeps d (remove_file n d)"
  by (simp add: keeps_def active_text_def wf_names_remove) (simp add: remove_file_def segs_delete_other)

lemma not_closed [simp]: "\<not> IsClosedSegmentName ActiveSegmentName" "\<not> IsClosedSegmentName (ManifestPathFor s)"
  by (simp_all add: IsClosedSegmentName_def)

lemma open_active_dir:
  "snd (open_active fl t d) = d \<or>
   map_of d ActiveSegmentName = None \<and> snd (open_active fl t d) = put_file ActiveSegmentName '''' (at_open t) d"
  by (auto simp: open_active_def Let_def split: option.splits)

lemma keeps_open: "keeps d (snd (open_active fl t d))"
  using open_active_dir [of fl t d]
  by (auto simp: keeps_refl) (auto simp: keeps_def active_text_def wf_names_put read_file_def map_of_put,
      simp add: put_file_def segs_update_other)

lemma open_active_text: "open_active fl t d = (Inr s, d') \<Longrightarrow> s = active_text d'"
  by (auto simp: open_active_def Let_def active_text_def split: if_splits option.splits)

lemma reopen_result:
  assumes "reopenActiveLocked fl t w d = (err, w', d')"
  shows "d' = snd (open_active fl t d)" "w_nextSeq w' = w_nextSeq w" "w_prevHash w' = w_prevHash w"
  using assms by (auto simp: reopenActiveLocked_def Let_def split: sum.splits prod.splits if_splits)

section \<open>The outcomes of a rotation\<close>

text \<open>
  A rotation leaves the directory alone, or reopens the active segment in a directory without or with
  a manifest that has no segment yet, or leaves such a manifest, or moves the active segment.
\<close>

definition manifest_left :: "env \<Rightarrow> times \<Rightarrow> writer \<Rightarrow> dir \<Rightarrow> dir \<Rightarrow> bool" where
  "manifest_left e t w d d' \<longleftrightarrow> (\<exists>data.
     marshal e (manifest_of w t (HashBytes e (active_text d))) = Some data \<and>
     d' = put_file (ManifestPathFor (FormatSegmentName (w_nextSeq w) (at_close t))) (data @ [CHR 0x0A]) (at_close t) d)"

definition moved :: "env \<Rightarrow> times \<Rightarrow> writer \<Rightarrow> dir \<Rightarrow> dir \<Rightarrow> bool" where
  "moved e t w d d' \<longleftrightarrow> (\<exists>d1. manifest_left e t w d d1 \<and>
     rename_file ActiveSegmentName (FormatSegmentName (w_nextSeq w) (at_close t)) d1 = Some d')"

lemma WriteManifest_left:
  assumes "WriteManifestAtomic e fl (ManifestPathFor (FormatSegmentName (w_nextSeq w) (at_close t)))
      (manifest_of w t (HashBytes e (active_text d))) (at_close t) d = (r, d1)"
  shows "case r of None \<Rightarrow> manifest_left e t w d d1 | Some err \<Rightarrow> d1 = d"
  using assms
  by (auto simp: WriteManifestAtomic_def writeFileAtomic_def manifest_left_def split: option.splits if_splits)

lemma HashFile_active: "HashFile e d ActiveSegmentName = Some dig \<Longrightarrow> dig = HashBytes e (active_text d)"
  by (auto simp: HashFile_def active_text_def)

lemma rotate_done_cases:
  assumes "rotate_done fl t dig w d = (err, w', d')"
  shows "d' = d \<and> \<not> w_open w' \<or> d' = snd (open_active fl t d) \<and>
      w_nextSeq w' = (w_nextSeq w + 1) mod 2 ^ 64 \<and> w_prevHash w' = dig \<or> w_open w"
  using assms by (auto simp: rotate_done_def Let_def split: if_splits dest: reopen_result)


text \<open>What the rotation did, by the directories before and after it.\<close>

definition reopened :: "env \<Rightarrow> faults \<Rightarrow> times \<Rightarrow> writer \<Rightarrow> dir \<Rightarrow> dir \<Rightarrow> bool" where
  "reopened e fl t w d d' \<longleftrightarrow> (\<exists>d0 d1. d' = snd (open_active fl t d0) \<and> (d0 = d \<or> manifest_left e t w d d1 \<and>
     (fl RemoveManifest \<and> d0 = d1 \<or> d0 = remove_file (ManifestPathFor (FormatSegmentName (w_nextSeq w) (at_close t))) d1)))"

definition rotated :: "env \<Rightarrow> faults \<Rightarrow> times \<Rightarrow> writer \<Rightarrow> writer \<Rightarrow> dir \<Rightarrow> dir \<Rightarrow> bool" where
  "rotated e fl t w w' d d' \<longleftrightarrow> (\<exists>d1. moved e t w d d1 \<and> (d' = d1 \<and> \<not> w_open w' \<or>
     d' = snd (open_active fl t d1) \<and> w_nextSeq w' = (w_nextSeq w + 1) mod 2 ^ 64 \<and>
     w_prevHash w' = HashBytes e (active_text d)))"

lemma rotate_manifest_cases:
  assumes R: "rotate_manifest e fl t dig w d = (err, w', d')" and dig: "dig = HashBytes e (active_text d)"
    and nopen: "\<not> w_open w"
  shows "reopened e fl t w d d' \<and> w_nextSeq w' = w_nextSeq w \<and> w_prevHash w' = w_prevHash w \<or>
    manifest_left e t w d d' \<and> \<not> w_open w' \<and> (fl (Hook RotateAfterManifest) \<or> fl (Hook RotateBeforeSegmentRename)) \<or>
    rotated e fl t w w' d d'"
proof -
  define seg where "seg = FormatSegmentName (w_nextSeq w) (at_close t)"
  obtain r d1 where W: "WriteManifestAtomic e fl (ManifestPathFor seg) (manifest_of w t dig) (at_close t) d = (r, d1)"
    by fastforce
  note m = WriteManifest_left [OF W [unfolded seg_def dig]]
  note R' = R [unfolded rotate_manifest_def Let_def, folded seg_def, unfolded W]
  show ?thesis
  proof (cases r)
    case (Some er)
    with R' m have "reopenActiveLocked fl t w d = (fst (reopenActiveLocked fl t w d), w', d')"
      by (auto simp: prod_eq_iff)
    from reopen_result [OF this] show ?thesis by (auto simp: reopened_def)
  next
    case None
    with m have m: "manifest_left e t w d d1" by simp
    show ?thesis
    proof (cases "find fl [Hook RotateAfterManifest, Hook RotateBeforeSegmentRename]")
      case (Some c)
      with R' None m nopen show ?thesis by (auto split: if_splits)
    next
      case no: None
      show ?thesis
      proof (cases "if fl RenameActive then None else rename_file ActiveSegmentName seg d1")
        case Ren: None
        define d2 where "d2 = (if fl RemoveManifest then d1 else remove_file (ManifestPathFor seg) d1)"
        from R' None no Ren have "reopenActiveLocked fl t w d2 = (fst (reopenActiveLocked fl t w d2), w', d')"
          by (simp add: prod_eq_iff d2_def)
        from reopen_result [OF this] m show ?thesis
          by (auto simp: reopened_def d2_def seg_def split: if_splits)
      next
        case Ren: (Some d2)
        with R' None no have "rotate_done fl t dig w d2 = (err, w', d')" by simp
        from rotate_done_cases [OF this] nopen dig Ren m show ?thesis
          by (auto simp: rotated_def moved_def seg_def split: if_splits)
      qed
    qed
  qed
qed

lemma opened_same:
  "manifest_left e t (w\<lparr>w_open := b\<rparr>) = manifest_left e t w" "reopened e fl t (w\<lparr>w_open := b\<rparr>) = reopened e fl t w"
  "rotated e fl t (w\<lparr>w_open := b\<rparr>) w' = rotated e fl t w w'"
  by (auto simp: fun_eq_iff manifest_left_def reopened_def rotated_def moved_def manifest_of_def)

lemma rotate_cases:
  assumes R: "rotateLocked e fl t w d = (err, w', d')"
  shows "(d' = d \<or> reopened e fl t w d d') \<and> w_nextSeq w' = w_nextSeq w \<and> w_prevHash w' = w_prevHash w \<or>
    manifest_left e t w d d' \<and> \<not> w_open w' \<and> (fl (Hook RotateAfterManifest) \<or> fl (Hook RotateBeforeSegmentRename)) \<or>
    rotated e fl t w w' d d'"
  using R
  by (auto simp: rotateLocked_def Let_def split: if_splits option.splits
      dest!: HashFile_active rotate_manifest_cases simp: opened_same simp del: find.simps)

section \<open>No record is lost\<close>

lemma keeps_manifest_left: "manifest_left e t w d d' \<Longrightarrow> keeps d d'"
  by (auto simp: manifest_left_def intro!: keeps_put)

lemma keeps_reopened: "reopened e fl t w d d' \<Longrightarrow> keeps d d'"
  unfolding reopened_def
  by (metis keeps_manifest_left keeps_open keeps_refl keeps_remove keeps_trans manifest_of_segment(2) not_closed(2))

text \<open>The active segment becomes the last closed one, when its number is larger than all others.\<close>

lemma moved_log:
  assumes M: "moved e t w d d'" and wf: "wf_dir d" and q: "w_nextSeq w < 1000000" "clock_ok (at_close t)"
    and fresh: "\<forall>en \<in> set (segs d). fst (seg_of en) < w_nextSeq w"
  shows "\<exists>tt. segs d' = segs d @ [(FormatSegmentName (w_nextSeq w) (at_close t), RegularFile (active_text d) tt)]"
    and "active_text d' = ''''" and "wf_dir d'"
proof -
  define seg where "seg = FormatSegmentName (w_nextSeq w) (at_close t)"
  from M obtain d1 where m: "manifest_left e t w d d1" and R: "rename_file ActiveSegmentName seg d1 = Some d'"
    by (auto simp: moved_def seg_def)
  have k: "keeps d d1" by (rule keeps_manifest_left [OF m])
  from k wf have wf1: "wf_dir d1" by (rule keeps_wf)
  have P: "ParseSegmentSequence seg = Some (w_nextSeq w)"
    using ParseSegmentSequence_Format [OF q] by (simp add: seg_def)
  then have cl: "IsClosedSegmentName seg" by (simp add: IsClosedSegmentName_def)
  have new: "seg \<notin> fst ` set d1"
  proof
    assume "seg \<in> fst ` set d1"
    then obtain x where "(seg, x) \<in> set (segs d1)" using cl by (auto simp: segs_def)
    then have "(seg, x) \<in> set (segs d)" using k by (simp add: keeps_def)
    with fresh have "fst (seg_of (seg, x)) < w_nextSeq w" by blast
    with P show False by (simp add: seg_of_def)
  qed
  from R obtain x where x: "map_of d1 ActiveSegmentName = Some x" and d': "d' = AList.update seg x (AList.delete ActiveSegmentName d1)"
    by (auto simp: rename_file_def split: option.splits if_splits)
  have "x \<noteq> SubDir" using wf1 x by (auto simp: wf_dir_def wf_names_def)
  then obtain c tt where xc: "x = RegularFile c tt" by (cases x) auto
  then have c: "c = active_text d" using k x by (simp add: keeps_def active_text_def read_file_def)
  have d'_app: "d' = AList.delete ActiveSegmentName d1 @ [(seg, x)]"
    unfolding d' by (rule update_new) (use new in \<open>auto simp: AList.delete_eq\<close>)
  have segs: "segs d' = segs d @ [(seg, RegularFile (active_text d) tt)]"
    using k cl segs_delete_other [of ActiveSegmentName d1]
    by (simp add: d'_app segs_def xc c keeps_def del: AList.delete_eq)
  show "\<exists>tt. segs d' = segs d @ [(FormatSegmentName (w_nextSeq w) (at_close t), RegularFile (active_text d) tt)]"
    using segs by (auto simp: seg_def)
  have "seg \<noteq> ActiveSegmentName" using P by auto
  then have act: "map_of d' ActiveSegmentName = None"
    by (simp add: d' update_conv' delete_conv')
  then show "active_text d' = ''''" by (simp add: active_text_def read_file_def)
  have "distinct (map fst d')"
    using wf1 by (simp add: d' distinct_update distinct_delete wf_dir_def wf_names_def)
  with act wf fresh P segs show "wf_dir d'"
    by (auto simp: wf_dir_def wf_names_def sorted_wrt_append seg_of_def)
qed

text \<open>
  The directory, its writer, and the bytes of each write in their order. A crash drops the writer; the
  bytes a failing write left count as written. \<open>ok\<close> restricts the faults. The sequence numbers are those
  of six digits.
\<close>

record system =
  sy_dir :: dir
  sy_writer :: "writer option"
  sy_written :: "string list"

definition fragment :: "nat option \<Rightarrow> string \<Rightarrow> audit_error option \<Rightarrow> string" where
  "fragment wr r err = (case err of None \<Rightarrow> with_newline r
     | Some er \<Rightarrow> if er = WriteFailed then (case wr of Some k \<Rightarrow> take k (with_newline r) | None \<Rightarrow> '''') else '''')"

definition in_range :: "times \<Rightarrow> writer \<Rightarrow> bool" where
  "in_range t w \<longleftrightarrow> w_nextSeq w < 1000000 \<and> clock_ok (at_close t)"

inductive log_step :: "env \<Rightarrow> rotation_config \<Rightarrow> (faults \<Rightarrow> bool) \<Rightarrow> system \<Rightarrow> system \<Rightarrow> bool"
  for e cfg ok where
  opens: "ok fl \<Longrightarrow> OpenWriter e fl t (sy_dir s) = (Inr w, d) \<Longrightarrow>
    log_step e cfg ok s (s\<lparr>sy_dir := d, sy_writer := Some w\<rparr>)"
| opens_not: "ok fl \<Longrightarrow> OpenWriter e fl t (sy_dir s) = (Inl er, d) \<Longrightarrow>
    log_step e cfg ok s (s\<lparr>sy_dir := d, sy_writer := None\<rparr>)"
| crashes: "log_step e cfg ok s (s\<lparr>sy_writer := None\<rparr>)"
| writes: "ok fl \<Longrightarrow> sy_writer s = Some w \<Longrightarrow> in_range t w \<Longrightarrow>
    WriteRecord e cfg fl wr t r w (sy_dir s) = (err, w', d) \<Longrightarrow>
    log_step e cfg ok s \<lparr>sy_dir = d, sy_writer = Some w', sy_written = sy_written s @ [fragment wr r err]\<rparr>"
| rotates: "ok fl \<Longrightarrow> sy_writer s = Some w \<Longrightarrow> in_range t w \<Longrightarrow>
    Rotate e fl t w (sy_dir s) = (err, w', d) \<Longrightarrow>
    log_step e cfg ok s (s\<lparr>sy_dir := d, sy_writer := Some w'\<rparr>)"
| closes: "ok fl \<Longrightarrow> sy_writer s = Some w \<Longrightarrow> in_range t w \<Longrightarrow>
    Close e fl t w (sy_dir s) = (err, w', d) \<Longrightarrow>
    log_step e cfg ok s (s\<lparr>sy_dir := d, sy_writer := Some w'\<rparr>)"

inductive_cases log_stepE: "log_step e cfg ok s s'"

definition new_log :: "system \<Rightarrow> bool" where
  "new_log s \<longleftrightarrow> s = \<lparr>sy_dir = [], sy_writer = None, sy_written = []\<rparr>"

text \<open>The invariant: closed segments and the active one are the writes, in their order, none split.\<close>

definition holds :: "dir \<Rightarrow> string list \<Rightarrow> bool" where
  "holds d ps \<longleftrightarrow> (\<exists>pss cur. map (snd \<circ> seg_of) (segs d) = map concat pss \<and>
     active_text d = concat cur \<and> concat pss @ cur = ps)"

definition fresh :: "dir \<Rightarrow> writer \<Rightarrow> bool" where
  "fresh d w \<longleftrightarrow> (w_open w \<longrightarrow> (\<forall>en \<in> set (segs d). fst (seg_of en) < w_nextSeq w))"

definition log_ok :: "dir \<Rightarrow> writer \<Rightarrow> string list \<Rightarrow> bool" where
  "log_ok d w ps \<longleftrightarrow> wf_dir d \<and> holds d ps \<and> fresh d w"

definition log_inv :: "system \<Rightarrow> bool" where
  "log_inv s \<longleftrightarrow> wf_dir (sy_dir s) \<and> holds (sy_dir s) (sy_written s) \<and>
     (\<forall>w. sy_writer s = Some w \<longrightarrow> fresh (sy_dir s) w)"

lemma keeps_holds: "keeps d d' \<Longrightarrow> holds d ps \<Longrightarrow> holds d' ps"
  by (simp add: keeps_def holds_def)

lemma moved_holds:
  assumes "segs d' = segs d @ [(n, RegularFile (active_text d) tt)]" "active_text d' = ''''" "holds d ps"
  shows "holds d' ps"
proof -
  from assms(3) obtain pss cur where "map (snd \<circ> seg_of) (segs d) = map concat pss"
    "active_text d = concat cur" "concat pss @ cur = ps" by (auto simp: holds_def)
  with assms(1,2) show ?thesis unfolding holds_def
    by (intro exI [of _ "pss @ [cur]"] exI [of _ "[]"]) (simp add: seg_of_def)
qed

lemma rotated_log:
  assumes C: "rotated e fl t w w' d d'" and wf: "wf_dir d" and q: "in_range t w"
    and fr: "\<forall>en \<in> set (segs d). fst (seg_of en) < w_nextSeq w"
  obtains tt where "segs d' = segs d @ [(FormatSegmentName (w_nextSeq w) (at_close t), RegularFile (active_text d) tt)]"
    "active_text d' = ''''" "wf_dir d'" "fresh d' w'"
proof -
  from C obtain d1 where m: "moved e t w d d1" and k: "keeps d1 d'" and
    w': "\<not> w_open w' \<or> w_nextSeq w' = (w_nextSeq w + 1) mod 2 ^ 64"
    by (auto simp: rotated_def keeps_refl keeps_open)
  from q have q': "w_nextSeq w < 1000000" "clock_ok (at_close t)" by (auto simp: in_range_def)
  from moved_log [OF m wf q' fr] obtain tt where
    s: "segs d1 = segs d @ [(FormatSegmentName (w_nextSeq w) (at_close t), RegularFile (active_text d) tt)]"
    and "active_text d1 = ''''" "wf_dir d1" by blast
  with k have d': "segs d' = segs d1" "active_text d' = ''''" "wf_dir d'" by (auto simp: keeps_def wf_dir_def)
  have "fst (seg_of (FormatSegmentName (w_nextSeq w) (at_close t), x)) = w_nextSeq w" for x
    using ParseSegmentSequence_Format [OF q'] by (simp add: seg_of_def)
  with s d' w' fr q' have "fresh d' w'" by (auto simp: fresh_def less_Suc_eq)
  with that s d' show thesis by simp
qed

lemma rotateLocked_inv:
  assumes R: "rotateLocked e fl t w d = (err, w', d')" and ok: "log_ok d w ps" and q: "in_range t w"
  shows "log_ok d' w' ps"
proof (cases "w_open w")
  case False
  with R ok show ?thesis by (auto simp: rotateLocked_def)
next
  case True
  with ok have fr: "\<forall>en \<in> set (segs d). fst (seg_of en) < w_nextSeq w" by (simp add: log_ok_def fresh_def)
  from rotate_cases [OF R] show ?thesis
  proof (elim disjE conjE)
    assume "rotated e fl t w w' d d'"
    then show ?thesis using ok moved_holds by (metis rotated_log fr log_ok_def q)
  qed (use ok fr in \<open>auto simp: log_ok_def fresh_def keeps_def dest: keeps_manifest_left keeps_reopened
      intro: keeps_wf keeps_holds\<close>)
qed

lemma append_log:
  "segs (append_active x t d) = segs d" "active_text (append_active x t d) = active_text d @ x"
  "wf_names d \<Longrightarrow> wf_names (append_active x t d)"
  by (simp_all add: append_active_def wf_names_put active_text_def split: option.splits)
     (simp_all add: put_file_def segs_update_other)

lemma append_ok: "log_ok d w ps \<Longrightarrow> w_nextSeq w' = w_nextSeq w \<Longrightarrow> w_open w' = w_open w \<Longrightarrow>
    log_ok (append_active x t d) w' (ps @ [x])"
  unfolding log_ok_def holds_def wf_dir_def fresh_def append_log by (auto intro: append_log)

lemma maybeRotateLocked_inv:
  assumes "maybeRotateLocked e cfg fl t n w d = (err, w', d')" "log_ok d w ps" "in_range t w"
  shows "log_ok d' w' ps"
  using assms by (auto simp: maybeRotateLocked_def split: if_splits intro: rotateLocked_inv)

lemma open_active_err: "open_active fl t d = (Inl er, d') \<Longrightarrow> er \<noteq> WriteFailed"
  by (auto simp: open_active_def Let_def split: if_splits option.splits)

lemma reopen_err: "reopenActiveLocked fl t w d = (Some er, w', d') \<Longrightarrow> er \<noteq> WriteFailed"
  by (auto simp: reopenActiveLocked_def Let_def split: sum.splits prod.splits if_splits dest: open_active_err)

lemma rotate_done_err: "rotate_done fl t dig w d = (Some er, w', d') \<Longrightarrow> er \<noteq> WriteFailed"
  by (auto simp: rotate_done_def Let_def split: if_splits dest: reopen_err)

lemma WriteManifest_err: "WriteManifestAtomic e fl n m t d = (Some er, d') \<Longrightarrow> er \<noteq> WriteFailed"
  by (auto simp: WriteManifestAtomic_def writeFileAtomic_def split: option.splits if_splits)

lemma rotate_manifest_err: "rotate_manifest e fl t dig w d = (Some er, w', d') \<Longrightarrow> er \<noteq> WriteFailed"
  by (auto simp: rotate_manifest_def Let_def simp del: find.simps split: if_splits option.splits prod.splits
      dest: rotate_done_err WriteManifest_err)

lemma rotateLocked_err: "rotateLocked e fl t w d = (Some er, w', d') \<Longrightarrow> er \<noteq> WriteFailed"
  by (auto simp: rotateLocked_def Let_def simp del: find.simps split: if_splits option.splits
      dest: rotate_manifest_err)

lemma WriteRecord_inv:
  assumes W: "WriteRecord e cfg fl wr t r w d = (err, w', d')" and ok: "log_ok d w ps" and q: "in_range t w"
  shows "log_ok d' w' (ps @ [fragment wr r err])"
proof -
  have nil: "log_ok d1 w1 (ps @ [''''])" if "log_ok d1 w1 ps" for d1 w1
    using that by (auto simp: log_ok_def holds_def)
  obtain er w1 d1 where M: "maybeRotateLocked e cfg fl t (length (with_newline r)) w d = (er, w1, d1)"
    using prod_cases3 by blast
  have ok1: "log_ok d1 w1 ps" by (rule maybeRotateLocked_inv [OF M ok q])
  have "er \<noteq> Some WriteFailed"
    using M by (auto simp: maybeRotateLocked_def split: if_splits dest!: rotateLocked_err)
  then show ?thesis
    using W nil [OF ok] nil [OF ok1] M
    by (auto simp: WriteRecord_def Let_def fragment_def split: if_splits option.splits intro!: append_ok [OF ok1])
qed

lemma Close_inv:
  assumes "Close e fl t w d = (err, w', d')" "log_ok d w ps" "in_range t w"
  shows "log_ok d' w' ps"
proof -
  have cl: "log_ok d1 (w1\<lparr>w_open := False\<rparr>) ps" if "log_ok d1 w1 ps" for d1 w1
    using that by (simp add: log_ok_def fresh_def)
  show ?thesis using assms cl rotateLocked_inv [OF _ assms(2,3)]
    by (auto simp: Close_def split: if_splits option.splits prod.splits)
qed

lemma highestSequence_ge:
  "(n, x) \<in> set d \<Longrightarrow> ParseSegmentSequence n = Some q \<Longrightarrow> q \<le> highestSequence d"
  "highestSequence d < 1000000"
proof -
  define f where "f = (\<lambda>mx (n :: string, x :: node). case ParseSegmentSequence n of
     Some q \<Rightarrow> if mx < q then q else mx | None \<Rightarrow> mx)"
  have up: "m \<le> foldl f m l" for m l
  proof (induction l arbitrary: m)
    case (Cons a l)
    have "m \<le> f m a" by (auto simp: f_def split: prod.splits option.splits)
    with Cons [of "f m a"] show ?case by simp
  qed simp
  have mem: "(n, x) \<in> set l \<Longrightarrow> ParseSegmentSequence n = Some q \<Longrightarrow> q \<le> foldl f m l" for m l n x q
  proof (induction l arbitrary: m)
    case (Cons a l)
    have "a = (n, x) \<Longrightarrow> q \<le> f m a" using Cons.prems by (simp add: f_def)
    with Cons up [of "f m a" l] show ?case by auto
  qed simp
  have bound: "foldl f m l < 1000000" if "m < 1000000" for m l
    using that
  proof (induction l arbitrary: m)
    case (Cons a l)
    then have "f m a < 1000000" by (auto simp: f_def split: prod.splits option.splits dest: ParseSegmentSequence_bound)
    with Cons show ?case by simp
  qed simp
  have h: "highestSequence d = foldl f 0 (ReadDir d)" by (simp add: highestSequence_def f_def)
  show "(n, x) \<in> set d \<Longrightarrow> ParseSegmentSequence n = Some q \<Longrightarrow> q \<le> highestSequence d"
    using mem [of n x "ReadDir d" q 0] by (simp add: h ReadDir_def)
  show "highestSequence d < 1000000" using bound by (simp add: h)
qed

lemma OpenWriter_dir:
  "OpenWriter e fl t d = (res, d') \<Longrightarrow> d' = d \<or> d' = snd (open_active fl t d)"
  by (auto simp: OpenWriter_def split: option.splits sum.splits prod.splits)

lemma OpenWriter_writer:
  "OpenWriter e fl t d = (Inr w, d') \<Longrightarrow> w_nextSeq w = highestSequence d + 1 \<and>
     latestSegmentHashByName e d = Inr (w_prevHash w)"
  using highestSequence_ge(2) [of d] by (auto simp: OpenWriter_def split: option.splits sum.splits prod.splits)

lemma OpenWriter_inv:
  assumes "OpenWriter e fl t d = (res, d')" "wf_dir d" "holds d ps"
  shows "wf_dir d'" "holds d' ps" "res = Inr w \<Longrightarrow> fresh d' w"
proof -
  have k: "keeps d d'" using OpenWriter_dir [OF assms(1)] by (auto simp: keeps_refl keeps_open)
  show "wf_dir d'" "holds d' ps" using k assms keeps_wf keeps_holds by blast+
  assume "res = Inr w"
  with assms(1) OpenWriter_writer have n: "w_nextSeq w = highestSequence d + 1" by blast
  have "fst (seg_of en) < w_nextSeq w" if "en \<in> set (segs d')" for en
  proof -
    have "en \<in> set (segs d)" using that k by (simp add: keeps_def)
    then obtain m x q where "en = (m, x)" "(m, x) \<in> set d" "ParseSegmentSequence m = Some q"
      by (cases en rule: prod.exhaust) (auto simp: segs_def IsClosedSegmentName_def)
    then show ?thesis using highestSequence_ge(1) [of m x d q] by (simp add: n seg_of_def)
  qed
  then show "fresh d' w" by (simp add: fresh_def)
qed

lemma log_step_inv:
  assumes "log_inv s" "log_step e cfg ok s s'"
  shows "log_inv s'"
  using assms(2)
proof cases
  case (opens fl t w d)
  with assms(1) OpenWriter_inv [OF opens(3)] show ?thesis by (auto simp: log_inv_def)
next
  case (opens_not fl t er d)
  with assms(1) OpenWriter_inv [OF opens_not(3)] show ?thesis by (auto simp: log_inv_def)
next
  case crashes
  with assms(1) show ?thesis by (auto simp: log_inv_def)
next
  case (writes fl w t wr r err w' d)
  with assms(1) have "log_ok (sy_dir s) w (sy_written s)" by (auto simp: log_inv_def log_ok_def)
  from WriteRecord_inv [OF writes(5) this writes(4)] writes(1) show ?thesis by (simp add: log_inv_def log_ok_def)
next
  case (rotates fl w t err w' d)
  with assms(1) have "log_ok (sy_dir s) w (sy_written s)" by (auto simp: log_inv_def log_ok_def)
  from rotateLocked_inv [OF rotates(5) [unfolded Rotate_def] this rotates(4)] rotates(1) show ?thesis
    by (simp add: log_inv_def log_ok_def)
next
  case (closes fl w t err w' d)
  with assms(1) have "log_ok (sy_dir s) w (sy_written s)" by (auto simp: log_inv_def log_ok_def)
  from Close_inv [OF closes(5) this closes(4)] closes(1) show ?thesis by (simp add: log_inv_def log_ok_def)
qed

interpretation log: machine new_log "log_step e cfg ok" log_inv for e cfg ok
proof
  show "log_inv s" if "new_log s" for s
    using that by (simp add: new_log_def log_inv_def wf_dir_def wf_names_def segs_def holds_def active_text_def read_file_def)
qed (rule log_step_inv)

text \<open>C37. Whatever system calls fail, wherever the process stops and however often the log is
  opened again, as long as one writer at a time has it open, there are fewer than a million
  segments and the clock is between 1970 and 9600: the numbers of the closed segments are
  strictly increasing, and the closed segments in that order followed by the active one hold all
  records written, and what failing writes have left, in their order, none lost and none split
  between segments.\<close>

theorem no_record_lost:
  assumes "reachable new_log (log_step e cfg ok) s"
  shows "sorted_wrt (<) (map fst (log_segments (sy_dir s))) \<and>
    (\<exists>pss cur. map snd (log_segments (sy_dir s)) = map concat pss \<and>
       active_text (sy_dir s) = concat cur \<and> concat pss @ cur = sy_written s)"
proof -
  have inv: "log_inv s" by (rule log.reachable_inv [OF assms])
  then have wf: "wf_dir (sy_dir s)" and h: "holds (sy_dir s) (sy_written s)" by (simp_all add: log_inv_def)
  from wf have "log_segments (sy_dir s) = map seg_of (segs (sy_dir s))" by (rule log_segments_wf)
  with wf h show ?thesis by (simp add: wf_dir_def holds_def)
qed

section \<open>An instance of the parameters\<close>

text \<open>A digest that repeats the text, and a codec that frames the fields: \<open>good_env\<close> can hold.\<close>

definition frame :: "string \<Rightarrow> string" where
  "frame s = concat (map (\<lambda>c. [CHR ''.'', c]) s) @ '';''"

fun unframe :: "string \<Rightarrow> string \<Rightarrow> string list" where
  "unframe acc (a # r) = (if a = CHR '';'' then rev acc # unframe [] r
     else (case r of [] \<Rightarrow> [] | c # r' \<Rightarrow> unframe (c # acc) r'))"
| "unframe acc [] = []"

definition read_int :: "string \<Rightarrow> int" where
  "read_int s = (case s of [] \<Rightarrow> 0 | c # r \<Rightarrow>
     if c = CHR ''-'' then - int (dec_value r) else int (dec_value s))"

definition demo_marshal :: "manifest \<Rightarrow> string" where
  "demo_marshal m = concat (map frame [sm_SchemaVersion m, sm_Segment m, fmt_nat (sm_Sequence m),
     fmt_int (sm_CreatedAt m), fmt_int (sm_ClosedAt m), fmt_int (sm_RecordCount m), fmt_int (sm_SizeBytes m),
     sm_SHA256 m, sm_PreviousSegmentHash m])"

definition demo_unmarshal :: "string \<Rightarrow> manifest option" where
  "demo_unmarshal s = (case unframe [] s of
     [a, b, c, d, f, g, h, i, j] \<Rightarrow> Some \<lparr>sm_SchemaVersion = a, sm_Segment = b, sm_Sequence = dec_value c,
       sm_CreatedAt = read_int d, sm_ClosedAt = read_int f, sm_RecordCount = read_int g, sm_SizeBytes = read_int h,
       sm_SHA256 = i, sm_PreviousSegmentHash = j\<rparr>
   | _ \<Rightarrow> None)"

definition demo_env :: env where
  "demo_env = \<lparr>sha256 = (\<lambda>s. take 32 (s @ replicate 32 (CHR 0x00))),
     marshal = (\<lambda>m. Some (demo_marshal m)), unmarshal = demo_unmarshal\<rparr>"

lemma unframe_frame: "unframe acc (frame s @ r) = (rev acc @ s) # unframe [] r"
  by (induction s arbitrary: acc) (simp_all add: frame_def)

lemma read_fmt_int: "read_int (fmt_int z) = z"
proof -
  obtain c r where f: "fmt_nat (nat z) = c # r"
    by (cases "fmt_nat (nat z)") (subst (asm) fmt_nat.simps, auto split: if_splits)
  then have "is_digit c" using fmt_nat_digits [of "nat z"] by simp
  then have "c \<noteq> CHR ''-''" by (auto simp: is_digit_def)
  then show ?thesis using dec_value_fmt_nat [of "nat z"] by (simp add: read_int_def fmt_int_def f dec_value_fmt_nat)
qed

lemma demo_env_good: "good_env demo_env"
  by (auto simp: good_env_def demo_env_def demo_marshal_def demo_unmarshal_def unframe_frame read_fmt_int
      dec_value_fmt_nat)

text \<open>Runs without faults: each record closes a segment of its own.\<close>

definition no_faults :: faults where
  "no_faults c = False"

definition files_only :: "dir \<Rightarrow> bool" where
  "files_only d \<longleftrightarrow> SubDir \<notin> snd ` set d"

lemma files_only_map_of: "files_only d \<Longrightarrow> map_of d n \<noteq> Some SubDir"
  by (auto simp: files_only_def dest!: map_of_SomeD) (force simp: image_iff)

lemma update_snd: "snd ` set (AList.update k v d) \<subseteq> insert v (snd ` set d)"
  by (induction d) auto

lemma files_only_put: "files_only d \<Longrightarrow> files_only (put_file n s t d)"
  using update_snd [of n "RegularFile s t" d] by (auto simp: files_only_def put_file_def)

lemma files_only_rename: "files_only d \<Longrightarrow> rename_file a b d = Some d' \<Longrightarrow> files_only d'"
proof -
  assume f: "files_only d" and "rename_file a b d = Some d'"
  then obtain x where x: "map_of d a = Some x" and d': "d' = AList.update b x (AList.delete a d)"
    by (auto simp: rename_file_def split: option.splits if_splits)
  from x have "x \<in> snd ` set d" by (force dest: map_of_SomeD)
  with update_snd [of b x "AList.delete a d"] f show ?thesis by (auto simp: files_only_def d' AList.delete_eq)
qed

lemma rotate_no_faults:
  assumes w: "w_open w" "0 < w_size w" and m: "\<And>m. marshal e m \<noteq> None" and f: "files_only d"
    and act: "read_file d ActiveSegmentName \<noteq> None" and q: "in_range t w"
  obtains w' d' where "rotateLocked e no_faults t w d = (None, w', d')" "w_open w'" "w_size w' = 0"
    "w_nextSeq w' = w_nextSeq w + 1" "read_file d' ActiveSegmentName = Some ''''" "files_only d'"
    "rotated e no_faults t w w' d d'"
proof -
  define seg where "seg = FormatSegmentName (w_nextSeq w) (at_close t)"
  define w1 where "w1 = w\<lparr>w_open := False\<rparr>"
  from act obtain c where c: "read_file d ActiveSegmentName = Some c" by auto
  then have H: "HashFile e d ActiveSegmentName = Some (HashBytes e c)" and ct: "c = active_text d"
    by (simp_all add: HashFile_def active_text_def)
  from m obtain data where data: "marshal e (manifest_of w1 t (HashBytes e c)) = Some data" by blast
  define d1 where "d1 = put_file (ManifestPathFor seg) (data @ [CHR 0x0A]) (at_close t) d"
  have W: "WriteManifestAtomic e no_faults (ManifestPathFor seg) (manifest_of w1 t (HashBytes e c)) (at_close t) d = (None, d1)"
    using files_only_map_of [OF f]
    by (simp add: WriteManifestAtomic_def data writeFileAtomic_def atomic_calls_def no_faults_def d1_def)
  have f1: "files_only d1" using f by (simp add: d1_def files_only_put)
  have "map_of d1 ActiveSegmentName \<noteq> None"
    using c by (auto simp: d1_def map_of_put read_file_def split: option.splits)
  then obtain x where x: "map_of d1 ActiveSegmentName = Some x" by auto
  define d2 where "d2 = AList.update seg x (AList.delete ActiveSegmentName d1)"
  have R: "rename_file ActiveSegmentName seg d1 = Some d2"
    using files_only_map_of [OF f1] by (simp add: rename_file_def x d2_def)
  have "ParseSegmentSequence seg = Some (w_nextSeq w)"
    using q ParseSegmentSequence_Format by (simp add: seg_def in_range_def)
  then have "seg \<noteq> ActiveSegmentName" by auto
  then have none: "map_of d2 ActiveSegmentName = None" by (simp add: d2_def update_conv' delete_conv')
  define w2 where "w2 = w1\<lparr>w_prevHash := HashBytes e c, w_nextSeq := (w_nextSeq w1 + 1) mod 2 ^ 64, w_size := 0,
      w_records := 0, w_openedAt := at_close t\<rparr>"
  define d3 where "d3 = put_file ActiveSegmentName '''' (at_open t) d2"
  have O: "open_active no_faults t d2 = (Inr '''', d3)"
    by (simp add: open_active_def no_faults_def none Let_def d3_def)
  define w3 where "w3 = w2\<lparr>w_open := True, w_size := 0, w_records := 0, w_openedAt := at_open t\<rparr>"
  have "rotateLocked e no_faults t w d = rotate_done no_faults t (HashBytes e c) w1 d2"
    using w H W R by (simp add: rotateLocked_def rotate_manifest_def no_faults_def Let_def seg_def w1_def)
  also have "\<dots> = (None, w3, d3)"
    by (simp add: rotate_done_def no_faults_def reopenActiveLocked_def O w2_def w3_def Let_def)
  finally have res: "rotateLocked e no_faults t w d = (None, w3, d3)" .
  have "moved e t w d d2"
    using data R by (auto simp: moved_def manifest_left_def d1_def seg_def ct manifest_of_def w1_def)
  then have "rotated e no_faults t w w3 d d3"
    using O by (auto simp: rotated_def w3_def w2_def w1_def ct)
  moreover have "files_only d3" using files_only_rename [OF f1 R] by (simp add: d3_def files_only_put)
  moreover have "w_nextSeq w3 = w_nextSeq w + 1" using q by (simp add: w3_def w2_def w1_def in_range_def)
  ultimately show thesis using res that by (simp add: w3_def d3_def)
qed

definition time_zero :: times where
  "time_zero = \<lparr>at_check = 0, at_close = 0, at_open = 0\<rparr>"

lemma time_zero_range: "w_nextSeq w < 1000000 \<Longrightarrow> in_range time_zero w"
  by (simp add: in_range_def time_zero_def clock_ok_def)

lemma open_empty:
  "\<exists>w. OpenWriter e no_faults time_zero [] = (Inr w, [(ActiveSegmentName, RegularFile '''' 0)]) \<and> w_open w \<and>
     w_size w = 0 \<and> w_nextSeq w = 1"
  by (simp add: OpenWriter_def no_faults_def latestSegmentHashByName_def ReadDir_def open_active_def Let_def
      put_file_def read_file_def time_zero_def highestSequence_def)

lemma run_segments:
  assumes m: "\<And>m. marshal e m \<noteq> None" and ok: "ok no_faults"
    and rs: "\<forall>r \<in> set rs. r \<noteq> ''''" "length rs < 999999"
  obtains s where "reachable new_log (log_step e cfg ok) s"
    "map snd (log_segments (sy_dir s)) = map with_newline rs" "active_text (sy_dir s) = ''''"
proof -
  have "\<exists>s w. reachable new_log (log_step e cfg ok) s \<and> sy_writer s = Some w \<and> w_open w \<and> w_size w = 0 \<and>
      w_nextSeq w = length rs + 1 \<and> files_only (sy_dir s) \<and> read_file (sy_dir s) ActiveSegmentName = Some '''' \<and>
      map (snd \<circ> seg_of) (segs (sy_dir s)) = map with_newline rs"
    using rs
  proof (induction rs rule: rev_induct)
    case Nil
    define s0 where "s0 = \<lparr>sy_dir = [], sy_writer = None, sy_written = []\<rparr>"
    obtain w where O: "OpenWriter e no_faults time_zero (sy_dir s0) = (Inr w, [(ActiveSegmentName, RegularFile '''' 0)])"
      and w: "w_open w" "w_size w = 0" "w_nextSeq w = 1" using open_empty by (auto simp: s0_def)
    have "reachable new_log (log_step e cfg ok) s0" by (rule reachable.start) (simp add: new_log_def s0_def)
    from reachable.step [OF this log_step.opens [where ok = ok and fl = no_faults, OF ok O]] w show ?case
      by (intro exI conjI) (auto simp: files_only_def read_file_def segs_def)
  next
    case (snoc r rs)
    then obtain s w where s: "reachable new_log (log_step e cfg ok) s" "sy_writer s = Some w" "w_open w" "w_size w = 0"
      "w_nextSeq w = length rs + 1" "files_only (sy_dir s)" "read_file (sy_dir s) ActiveSegmentName = Some ''''"
      "map (snd \<circ> seg_of) (segs (sy_dir s)) = map with_newline rs" by (auto simp: o_def)
    have q: "w_nextSeq w < 1000000" using snoc.prems s(5) by simp
    define d where "d = append_active (with_newline r) 0 (sy_dir s)"
    define w1 where "w1 = w\<lparr>w_size := length (with_newline r), w_records := w_records w + 1\<rparr>"
    define s1 where "s1 = \<lparr>sy_dir = d, sy_writer = Some w1, sy_written = sy_written s @ [fragment None r None]\<rparr>"
    have W: "WriteRecord e cfg no_faults None time_zero r w (sy_dir s) = (None, w1, d)"
      using s snoc.prems by (simp add: WriteRecord_def maybeRotateLocked_def d_def w1_def time_zero_def Let_def)
    have s1: "reachable new_log (log_step e cfg ok) s1" unfolding s1_def
      by (rule reachable.step [OF s(1) log_step.writes [where ok = ok and fl = no_faults, OF ok s(2) time_zero_range [OF q] W]])
    have d: "files_only d" "read_file d ActiveSegmentName = Some (with_newline r)" "segs d = segs (sy_dir s)"
      using s(6,7) by (simp_all add: d_def append_log(1)) (simp_all add: append_active_def files_only_put)
    have w1: "w_open w1" "0 < w_size w1" "w_nextSeq w1 = length rs + 1"
      using s(3,5) snoc.prems by (auto simp: w1_def with_newline_def)
    have q1: "in_range time_zero w1" using q s(5) w1(3) by (intro time_zero_range) simp
    from d(2) have act: "read_file d ActiveSegmentName \<noteq> None" by simp
    obtain w' d' where R: "rotateLocked e no_faults time_zero w1 d = (None, w', d')" and w': "w_open w'" "w_size w' = 0"
      "w_nextSeq w' = w_nextSeq w1 + 1" "read_file d' ActiveSegmentName = Some ''''" "files_only d'"
      and C: "rotated e no_faults time_zero w1 w' d d'"
      by (rule rotate_no_faults [OF w1(1,2) m d(1) act q1])
    have inv: "log_inv s1" by (rule log.reachable_inv [OF s1])
    then have "wf_dir d" "\<forall>en \<in> set (segs d). fst (seg_of en) < w_nextSeq w1"
      using w1(1) by (auto simp: log_inv_def s1_def fresh_def)
    then obtain tt where sg: "segs d' = segs d @ [(FormatSegmentName (w_nextSeq w1) (at_close time_zero),
        RegularFile (active_text d) tt)]"
      using rotated_log [OF C _ q1] by metis
    have "log_step e cfg ok s1 (s1\<lparr>sy_dir := d', sy_writer := Some w'\<rparr>)"
      by (rule log_step.rotates [where ok = ok and fl = no_faults and s = s1, OF ok _ q1]) (simp_all add: s1_def Rotate_def R)
    from reachable.step [OF s1 this] show ?case
      using w' w1(3) sg d s(8) by (intro exI conjI) (auto simp: snd_seg_of active_text_def o_def)
  qed
  then obtain s w where s: "reachable new_log (log_step e cfg ok) s" "read_file (sy_dir s) ActiveSegmentName = Some ''''"
      "map (snd \<circ> seg_of) (segs (sy_dir s)) = map with_newline rs" by blast
  have "log_inv s" by (rule log.reachable_inv [OF s(1)])
  then have "log_segments (sy_dir s) = map seg_of (segs (sy_dir s))" by (simp add: log_inv_def log_segments_wf)
  with s that show thesis by (simp add: active_text_def)
qed

lemma no_record_lost_witness:
  "\<exists>s :: system. map snd (log_segments (sy_dir s)) = [''aa\<newline>'', ''b\<newline>''] \<and> sorted_wrt (<) (map fst (log_segments (sy_dir s))) \<and>
    (\<exists>pss cur. map snd (log_segments (sy_dir s)) = map concat pss \<and>
       active_text (sy_dir s) = concat cur \<and> concat pss @ cur = sy_written s)"
proof -
  have m: "marshal demo_env m \<noteq> None" for m by (simp add: demo_env_def)
  obtain s where "reachable new_log (log_step demo_env \<lparr>MaxSizeBytes = 0, MaxAge = 0\<rparr> (\<lambda>_. True)) s"
    "map snd (log_segments (sy_dir s)) = map with_newline [''aa'', ''b'']"
    by (rule run_segments [where ok = "\<lambda>_. True" and rs = "[''aa'', ''b'']", OF m]) simp_all
  with no_record_lost [OF this(1)] show ?thesis by (intro exI [of _ s]) (simp add: with_newline_def)
qed

end
