(* ===== verification/AuditVerify.thy ===== *)
theory AuditVerify
  imports AuditLog
begin

text \<open>
  Verification of an audit log directory and its retention: \<open>ListSegments\<close> (\<open>internal/audit/segment.go\<close>),
  \<open>VerifyDirectory\<close> and \<open>VerifyDirectoryWithPolicy\<close> (\<open>verify.go\<close>), the policy levels
  (\<open>policy_level.go\<close>) and retention (\<open>retention.go\<close>), over the directories of AuditLog. An issue is a constructor
  with the values its text shows. The directory can be listed and its regular files can be read. \<open>ord\<close> is
  the order in which Go goes through the set of manifest names.
\<close>

section \<open>Segments on disk\<close>

record segment_info =
  si_Path :: string
  si_ManifestPath :: string
  si_Manifest :: manifest
  si_ModTime :: int
  si_SizeBytes :: nat

definition info_of :: "string \<Rightarrow> string \<Rightarrow> nat \<Rightarrow> manifest \<Rightarrow> segment_info" where
  "info_of n s t m = \<lparr>si_Path = n, si_ManifestPath = ManifestPathFor n, si_Manifest = m, si_ModTime = int t,
     si_SizeBytes = length s\<rparr>"

text \<open>The error is the name of the first manifest that cannot be read.\<close>

fun list_entries :: "env \<Rightarrow> dir \<Rightarrow> dir \<Rightarrow> string + segment_info list" where
  "list_entries e d [] = Inr []"
| "list_entries e d ((n, SubDir) # r) = list_entries e d r"
| "list_entries e d ((n, RegularFile s t) # r) =
     (if \<not> IsClosedSegmentName n then list_entries e d r
      else case ReadManifest e d (ManifestPathFor n) of
             None \<Rightarrow> Inl (ManifestPathFor n)
           | Some m \<Rightarrow> (case list_entries e d r of Inl err \<Rightarrow> Inl err | Inr l \<Rightarrow> Inr (info_of n s t m # l)))"

definition seg_key :: "segment_info \<Rightarrow> nat \<times> string" where
  "seg_key s = (sm_Sequence (si_Manifest s), si_Path s)"

definition ListSegments :: "env \<Rightarrow> dir \<Rightarrow> string + segment_info list" where
  "ListSegments e d = map_sum id (sort_key seg_key) (list_entries e d (ReadDir d))"

section \<open>VerifyDirectory\<close>

datatype audit_issue = NoManifest string | NoSegment string string | ListError string
  | UnknownSchema string string | Gap nat nat string | BadDigest string hash_error | Unreadable string
  | Mismatch string string string | GenesisLink string | BadLink string hash_error | BrokenLink string string string
  | SchemaNotExpected string string string | TooOld string int | NoSigner string | Duplicate string string string

definition equal_fold :: "string \<Rightarrow> string \<Rightarrow> bool" where
  "equal_fold a b \<longleftrightarrow> str_lower a = str_lower b"

text \<open>The bodies and the names of the manifests among the files, in the order of the directory.\<close>

definition file_names :: "dir \<Rightarrow> string list" where
  "file_names d = map fst (filter (\<lambda>(n, x). x \<noteq> SubDir) (ReadDir d))"

definition manifest_names :: "dir \<Rightarrow> string list" where
  "manifest_names d = filter (\<lambda>n. has_suffix n ManifestSuffix) (file_names d)"

definition body_names :: "dir \<Rightarrow> string list" where
  "body_names d = filter (\<lambda>n. \<not> has_suffix n ManifestSuffix \<and> ParseSegmentSequence n \<noteq> None) (file_names d)"

definition body_manifest :: "string \<Rightarrow> string" where
  "body_manifest n = trim_suffix n ''.jsonl'' @ ManifestSuffix"

definition manifest_body :: "string \<Rightarrow> string" where
  "manifest_body n = trim_suffix n ManifestSuffix @ ''.jsonl''"

definition no_manifest :: "dir \<Rightarrow> string list \<Rightarrow> audit_issue list" where
  "no_manifest d bs = map NoManifest (filter (\<lambda>b. body_manifest b \<notin> set (manifest_names d)) bs)"

definition no_segment :: "(string list \<Rightarrow> string list) \<Rightarrow> dir \<Rightarrow> audit_issue list" where
  "no_segment ord d = map (\<lambda>m. NoSegment m (manifest_body m))
     (filter (\<lambda>m. manifest_body m \<notin> set (body_names d)) (ord (manifest_names d)))"

definition active_present :: "dir \<Rightarrow> bool" where
  "active_present d \<longleftrightarrow> read_file d ActiveSegmentName \<noteq> None"

record verify_state =
  vs_Issues :: "audit_issue list"
  vs_Chain :: bool
  vs_prev :: string
  vs_expect :: nat
  vs_First :: string
  vs_Last :: string
  vs_Checked :: nat

definition breaks :: "audit_issue \<Rightarrow> verify_state \<Rightarrow> verify_state" where
  "breaks i st = st\<lparr>vs_Issues := vs_Issues st @ [i], vs_Chain := False\<rparr>"

definition check_schema :: "manifest \<Rightarrow> verify_state \<Rightarrow> verify_state" where
  "check_schema m st = (if sm_SchemaVersion m \<noteq> '''' \<and> sm_SchemaVersion m \<noteq> SchemaVersion
     then st\<lparr>vs_Issues := vs_Issues st @ [UnknownSchema (sm_Segment m) (sm_SchemaVersion m)]\<rparr> else st)"

definition check_sequence :: "manifest \<Rightarrow> verify_state \<Rightarrow> verify_state" where
  "check_sequence m st =
     (let st1 = (if sm_Sequence m \<noteq> vs_expect st
                 then (breaks (Gap (vs_expect st) (sm_Sequence m) (sm_Segment m)) st)\<lparr>vs_expect := sm_Sequence m\<rparr> else st)
      in st1\<lparr>vs_expect := (vs_expect st1 + 1) mod 2 ^ 64\<rparr>)"

definition check_link :: "nat \<Rightarrow> manifest \<Rightarrow> string \<Rightarrow> verify_state \<Rightarrow> verify_state" where
  "check_link i m actual st =
     (if i = 0 then (if sm_PreviousSegmentHash m \<noteq> '''' then breaks (GenesisLink (sm_Segment m)) st else st)\<lparr>vs_First := actual\<rparr>
      else case ValidateSHA256Hex (sm_PreviousSegmentHash m) of
        Some err \<Rightarrow> breaks (BadLink (sm_Segment m) err) st
      | None \<Rightarrow> if \<not> equal_fold (sm_PreviousSegmentHash m) (vs_prev st)
          then breaks (BrokenLink (sm_Segment m) (sm_PreviousSegmentHash m) (vs_prev st)) st else st)"

definition verify_turn :: "env \<Rightarrow> dir \<Rightarrow> nat \<Rightarrow> segment_info \<Rightarrow> verify_state \<Rightarrow> verify_state" where
  "verify_turn e d i s st =
     (let m = si_Manifest s;
          st1 = check_sequence m (check_schema m (st\<lparr>vs_Checked := vs_Checked st + 1\<rparr>)) in
      case ValidateSHA256Hex (sm_SHA256 m) of
        Some err \<Rightarrow> breaks (BadDigest (sm_Segment m) err) st1
      | None \<Rightarrow> (case HashFile e d (si_Path s) of
          None \<Rightarrow> breaks (Unreadable (si_Path s)) st1
        | Some actual \<Rightarrow>
            (let st2 = (if \<not> equal_fold actual (sm_SHA256 m)
                        then breaks (Mismatch (sm_Segment m) (sm_SHA256 m) actual) st1 else st1)
             in (check_link i m actual st2)\<lparr>vs_prev := actual, vs_Last := actual\<rparr>)))"

fun verify_loop :: "env \<Rightarrow> dir \<Rightarrow> nat \<Rightarrow> segment_info list \<Rightarrow> verify_state \<Rightarrow> verify_state" where
  "verify_loop e d i [] st = st"
| "verify_loop e d i (s # r) st = verify_loop e d (i + 1) r (verify_turn e d i s st)"

record dir_result =
  dr_Valid :: bool
  dr_SegmentsChecked :: nat
  dr_ChainValid :: bool
  dr_ActivePresent :: bool
  dr_Issues :: "audit_issue list"
  dr_FirstSegmentHash :: string
  dr_LastSegmentHash :: string

definition VerifyDirectory :: "env \<Rightarrow> (string list \<Rightarrow> string list) \<Rightarrow> dir \<Rightarrow> dir_result" where
  "VerifyDirectory e ord d =
     (let pre = no_manifest d (body_names d) @ no_segment ord d in
      case ListSegments e d of
        Inl n \<Rightarrow> \<lparr>dr_Valid = False, dr_SegmentsChecked = 0, dr_ChainValid = False, dr_ActivePresent = active_present d,
                 dr_Issues = pre @ [ListError n], dr_FirstSegmentHash = '''', dr_LastSegmentHash = ''''\<rparr>
      | Inr ss \<Rightarrow>
         (let st = verify_loop e d 0 ss \<lparr>vs_Issues = pre, vs_Chain = (pre = []), vs_prev = '''', vs_expect = 1,
                     vs_First = '''', vs_Last = '''', vs_Checked = 0\<rparr> in
          \<lparr>dr_Valid = (vs_Issues st = []), dr_SegmentsChecked = vs_Checked st,
           dr_ChainValid = (if vs_Issues st = [] then True else vs_Chain st), dr_ActivePresent = active_present d,
           dr_Issues = vs_Issues st, dr_FirstSegmentHash = vs_First st, dr_LastSegmentHash = vs_Last st\<rparr>))"

section \<open>VerifyDirectoryWithPolicy\<close>

record dir_policy =
  ExpectedSigners :: "string list"
  ExpectedSchemaVersion :: string
  MaxRetentionDays :: int
  RequireHashChain :: bool
  FailFast :: bool

definition no_policy :: dir_policy where
  "no_policy = \<lparr>ExpectedSigners = [], ExpectedSchemaVersion = '''', MaxRetentionDays = 0, RequireHashChain = False,
     FailFast = False\<rparr>"

record segment_result =
  sr_Segment :: string
  sr_Sequence :: nat
  sr_Valid :: bool
  sr_ChecksumValid :: bool
  sr_ChainLinkValid :: bool
  sr_SchemaVersionValid :: bool
  sr_RetentionValid :: bool
  sr_SignerValid :: bool
  sr_Issues :: "audit_issue list"

record policy_state =
  ps_Chain :: bool
  ps_Structural :: nat
  ps_Policy :: nat
  ps_Aggregate :: "audit_issue list"
  ps_Segments :: "segment_result list"
  ps_prev :: string
  ps_expect :: nat
  ps_First :: string
  ps_Last :: string
  ps_seen :: "(string \<times> string) list"
  ps_Checked :: nat

text \<open>A finding goes into the lists of the segment and of the directory and into one of the two counts.\<close>

definition structural :: "audit_issue \<Rightarrow> segment_result \<times> policy_state \<Rightarrow> segment_result \<times> policy_state" where
  "structural i x = ((fst x)\<lparr>sr_Valid := False, sr_Issues := sr_Issues (fst x) @ [i]\<rparr>,
     (snd x)\<lparr>ps_Aggregate := ps_Aggregate (snd x) @ [i], ps_Structural := ps_Structural (snd x) + 1\<rparr>)"

definition broken :: "audit_issue \<Rightarrow> segment_result \<times> policy_state \<Rightarrow> segment_result \<times> policy_state" where
  "broken i x = (let y = structural i x in (fst y, (snd y)\<lparr>ps_Chain := False\<rparr>))"

definition violation :: "audit_issue \<Rightarrow> segment_result \<times> policy_state \<Rightarrow> segment_result \<times> policy_state" where
  "violation i x = ((fst x)\<lparr>sr_Issues := sr_Issues (fst x) @ [i]\<rparr>,
     (snd x)\<lparr>ps_Aggregate := ps_Aggregate (snd x) @ [i], ps_Policy := ps_Policy (snd x) + 1\<rparr>)"

definition pol_schema :: "dir_policy \<Rightarrow> manifest \<Rightarrow> segment_result \<times> policy_state \<Rightarrow> segment_result \<times> policy_state" where
  "pol_schema p m x =
     (if ExpectedSchemaVersion p \<noteq> '''' then
        (if sm_SchemaVersion m \<noteq> ExpectedSchemaVersion p then
           (let y = violation (SchemaNotExpected (sm_Segment m) (sm_SchemaVersion m) (ExpectedSchemaVersion p)) x
            in ((fst y)\<lparr>sr_SchemaVersionValid := False, sr_Valid := False\<rparr>, snd y))
         else x)
      else if sm_SchemaVersion m \<noteq> '''' \<and> sm_SchemaVersion m \<noteq> SchemaVersion then
        (let y = structural (UnknownSchema (sm_Segment m) (sm_SchemaVersion m)) x
         in ((fst y)\<lparr>sr_SchemaVersionValid := False\<rparr>, snd y))
      else x)"

definition pol_sequence :: "manifest \<Rightarrow> segment_result \<times> policy_state \<Rightarrow> segment_result \<times> policy_state" where
  "pol_sequence m x =
     (let y = (if sm_Sequence m \<noteq> ps_expect (snd x) then
                 (let z = broken (Gap (ps_expect (snd x)) (sm_Sequence m) (sm_Segment m)) x
                  in ((fst z)\<lparr>sr_ChainLinkValid := False\<rparr>, (snd z)\<lparr>ps_expect := sm_Sequence m\<rparr>))
               else x)
      in (fst y, (snd y)\<lparr>ps_expect := (ps_expect (snd y) + 1) mod 2 ^ 64\<rparr>))"

definition pol_checksum :: "manifest \<Rightarrow> string \<Rightarrow> segment_result \<times> policy_state \<Rightarrow> segment_result \<times> policy_state" where
  "pol_checksum m actual x = (if \<not> equal_fold actual (sm_SHA256 m)
     then (let y = broken (Mismatch (sm_Segment m) (sm_SHA256 m) actual) x
           in ((fst y)\<lparr>sr_ChecksumValid := False\<rparr>, snd y)) else x)"

definition pol_link ::
    "nat \<Rightarrow> manifest \<Rightarrow> string \<Rightarrow> segment_result \<times> policy_state \<Rightarrow> segment_result \<times> policy_state" where
  "pol_link i m actual x =
     (if i = 0 then
        (let y = (if sm_PreviousSegmentHash m \<noteq> '''' then
                    (let z = broken (GenesisLink (sm_Segment m)) x in ((fst z)\<lparr>sr_ChainLinkValid := False\<rparr>, snd z)) else x)
         in (fst y, (snd y)\<lparr>ps_First := actual\<rparr>))
      else case ValidateSHA256Hex (sm_PreviousSegmentHash m) of
        Some err \<Rightarrow> (let z = broken (BadLink (sm_Segment m) err) x in ((fst z)\<lparr>sr_ChainLinkValid := False\<rparr>, snd z))
      | None \<Rightarrow> if \<not> equal_fold (sm_PreviousSegmentHash m) (ps_prev (snd x)) then
            (let z = broken (BrokenLink (sm_Segment m) (sm_PreviousSegmentHash m) (ps_prev (snd x))) x
             in ((fst z)\<lparr>sr_ChainLinkValid := False\<rparr>, snd z)) else x)"

text \<open>Durations are 64-bit: \<open>Sub\<close> saturates, the product of days and nanoseconds wraps around.\<close>

definition sat64 :: "int \<Rightarrow> int" where
  "sat64 z = max (- (2 ^ 63)) (min (2 ^ 63 - 1) z)"

definition max_age :: "int \<Rightarrow> int" where
  "max_age days = sint (word_of_int (days * 86400000000000) :: 64 word)"

definition pol_retention ::
    "dir_policy \<Rightarrow> int \<Rightarrow> manifest \<Rightarrow> segment_result \<times> policy_state \<Rightarrow> segment_result \<times> policy_state" where
  "pol_retention p now m x =
     (if MaxRetentionDays p > 0 \<and> sat64 (now - sm_ClosedAt m) > max_age (MaxRetentionDays p) then
        (let y = violation (TooOld (sm_Segment m) (sat64 (now - sm_ClosedAt m))) x
         in ((fst y)\<lparr>sr_RetentionValid := False, sr_Valid := False\<rparr>, snd y))
      else x)"

text \<open>\<open>segmentManifestHasSignerInfo\<close> is false on every manifest; the verdict on the segment is unchanged.\<close>

definition pol_signer :: "dir_policy \<Rightarrow> manifest \<Rightarrow> segment_result \<times> policy_state \<Rightarrow> segment_result \<times> policy_state" where
  "pol_signer p m x = (if ExpectedSigners p \<noteq> [] then violation (NoSigner (sm_Segment m)) x else x)"

definition pol_duplicate :: "manifest \<Rightarrow> string \<Rightarrow> segment_result \<times> policy_state \<Rightarrow> segment_result \<times> policy_state" where
  "pol_duplicate m actual x = (case map_of (ps_seen (snd x)) actual of
     Some prev \<Rightarrow> (let y = violation (Duplicate (sm_Segment m) actual prev) x in ((fst y)\<lparr>sr_Valid := False\<rparr>, snd y))
   | None \<Rightarrow> (fst x, (snd x)\<lparr>ps_seen := (actual, sm_Segment m) # ps_seen (snd x)\<rparr>))"

text \<open>One turn of the loop. The flag says that the loop stops here, for \<open>FailFast\<close>.\<close>

definition new_result :: "manifest \<Rightarrow> segment_result" where
  "new_result m = \<lparr>sr_Segment = sm_Segment m, sr_Sequence = sm_Sequence m, sr_Valid = True, sr_ChecksumValid = True,
     sr_ChainLinkValid = True, sr_SchemaVersionValid = True, sr_RetentionValid = True, sr_SignerValid = True, sr_Issues = []\<rparr>"

definition add_result :: "segment_result \<times> policy_state \<Rightarrow> policy_state" where
  "add_result x = (snd x)\<lparr>ps_Segments := ps_Segments (snd x) @ [fst x]\<rparr>"

definition policy_turn ::
    "env \<Rightarrow> dir \<Rightarrow> dir_policy \<Rightarrow> int \<Rightarrow> nat \<Rightarrow> segment_info \<Rightarrow> policy_state \<Rightarrow> policy_state \<times> bool" where
  "policy_turn e d p now i s st =
     (let m = si_Manifest s;
          x1 = pol_sequence m (pol_schema p m (new_result m, st\<lparr>ps_Checked := ps_Checked st + 1\<rparr>)) in
      case ValidateSHA256Hex (sm_SHA256 m) of
        Some err \<Rightarrow> (let y = broken (BadDigest (sm_Segment m) err) x1
                     in (add_result ((fst y)\<lparr>sr_ChecksumValid := False\<rparr>, snd y), FailFast p))
      | None \<Rightarrow> (case HashFile e d (si_Path s) of
          None \<Rightarrow> (let y = broken (Unreadable (si_Path s)) x1
                   in (add_result ((fst y)\<lparr>sr_ChecksumValid := False\<rparr>, snd y), FailFast p))
        | Some actual \<Rightarrow>
            (let x2 = pol_link i m actual (pol_checksum m actual x1);
                 x3 = pol_duplicate m actual (pol_signer p m (pol_retention p now m x2))
             in (add_result (fst x3, (snd x3)\<lparr>ps_prev := actual, ps_Last := actual\<rparr>),
                 FailFast p \<and> \<not> sr_Valid (fst x3)))))"

fun policy_loop ::
    "env \<Rightarrow> dir \<Rightarrow> dir_policy \<Rightarrow> int \<Rightarrow> nat \<Rightarrow> segment_info list \<Rightarrow> policy_state \<Rightarrow> policy_state \<times> bool" where
  "policy_loop e d p now i [] st = (st, False)"
| "policy_loop e d p now i (s # r) st = (let (st1, stop) = policy_turn e d p now i s st in
     if stop then (st1, True) else policy_loop e d p now (i + 1) r st1)"

record policy_result =
  pr_Valid :: bool
  pr_SegmentsChecked :: nat
  pr_ChainValid :: bool
  pr_ActivePresent :: bool
  pr_PolicyViolations :: nat
  pr_StructuralIssues :: nat
  pr_FirstSegmentHash :: string
  pr_LastSegmentHash :: string
  pr_Segments :: "segment_result list"
  pr_AggregateIssues :: "audit_issue list"
  pr_Truncated :: bool

definition pol_result :: "dir \<Rightarrow> bool \<Rightarrow> bool \<Rightarrow> policy_state \<Rightarrow> policy_result" where
  "pol_result d valid truncated st = \<lparr>pr_Valid = valid, pr_SegmentsChecked = ps_Checked st, pr_ChainValid = ps_Chain st,
     pr_ActivePresent = active_present d, pr_PolicyViolations = ps_Policy st, pr_StructuralIssues = ps_Structural st,
     pr_FirstSegmentHash = ps_First st, pr_LastSegmentHash = ps_Last st, pr_Segments = ps_Segments st,
     pr_AggregateIssues = ps_Aggregate st, pr_Truncated = truncated\<rparr>"

text \<open>The findings before the loop; with \<open>FailFast\<close> only the first.\<close>

definition pol_start :: "audit_issue list \<Rightarrow> policy_state" where
  "pol_start pre = \<lparr>ps_Chain = (pre = []), ps_Structural = length pre, ps_Policy = 0, ps_Aggregate = pre, ps_Segments = [],
     ps_prev = '''', ps_expect = 1, ps_First = '''', ps_Last = '''', ps_seen = [], ps_Checked = 0\<rparr>"

definition VerifyDirectoryWithPolicy ::
    "env \<Rightarrow> (string list \<Rightarrow> string list) \<Rightarrow> int \<Rightarrow> dir_policy \<Rightarrow> dir \<Rightarrow> policy_result" where
  "VerifyDirectoryWithPolicy e ord now p d =
     (let bodies = sort_key (\<lambda>n. (the (ParseSegmentSequence n), n)) (body_names d);
          pre = no_manifest d bodies @ no_segment ord d in
      if FailFast p \<and> pre \<noteq> [] then pol_result d False True (pol_start [hd pre])
      else case ListSegments e d of
        Inl n \<Rightarrow> pol_result d False False
                   ((pol_start (pre @ [ListError n]))\<lparr>ps_Chain := False\<rparr>)
      | Inr ss \<Rightarrow> (case policy_loop e d p now 0 ss (pol_start pre) of (st, stop) \<Rightarrow>
          if stop then pol_result d False True st
          else pol_result d (ps_Structural st = 0 \<and> ps_Policy st = 0 \<and> ps_Chain st) False st))"

section \<open>Policy levels\<close>

definition PolicyStrict :: string where "PolicyStrict = ''strict''"

definition PolicyWarn :: string where "PolicyWarn = ''warn''"

definition PolicyPermissive :: string where "PolicyPermissive = ''permissive''"

definition IsValidPolicyLevel :: "string \<Rightarrow> bool" where
  "IsValidPolicyLevel l \<longleftrightarrow> l = PolicyStrict \<or> l = PolicyWarn \<or> l = PolicyPermissive"

definition ParsePolicyLevel :: "string \<Rightarrow> string option" where
  "ParsePolicyLevel v = (let l = str_lower (trim_space v) in
     if l = '''' then Some PolicyStrict else if IsValidPolicyLevel l then Some l else None)"

datatype issue_kind = IssueSequenceGap | IssueBrokenChainLink | IssueUnsignedFile | IssueMissingManifest
  | IssueStructural | IssuePolicy | IssueSignature

record chain_issue =
  ci_Kind :: issue_kind
  ci_Segment :: string
  ci_Detail :: string

record policy_outcome =
  po_Level :: string
  po_Fatal :: bool
  po_Issues :: "chain_issue list"
  po_Reason :: string

text \<open>An enforcer is its level; \<open>None\<close> is a nil pointer.\<close>

definition NewPolicyEnforcer :: "string \<Rightarrow> string option" where
  "NewPolicyEnforcer l = Some (if IsValidPolicyLevel l then l else PolicyStrict)"

definition enforcer_Level :: "string option \<Rightarrow> string" where
  "enforcer_Level en = (case en of None \<Rightarrow> PolicyStrict | Some l \<Rightarrow> if l = '''' then PolicyStrict else l)"

definition isSignatureFailure :: "chain_issue \<Rightarrow> bool" where
  "isSignatureFailure i \<longleftrightarrow> ci_Kind i = IssueSignature"

definition Enforce :: "string option \<Rightarrow> chain_issue list \<Rightarrow> policy_outcome" where
  "Enforce en issues =
     (let l = enforcer_Level en; sigs = length (filter isSignatureFailure issues);
          outcome = (\<lambda>fatal reason. \<lparr>po_Level = l, po_Fatal = fatal, po_Issues = issues, po_Reason = reason\<rparr>) in
      if l = PolicyStrict then
        if issues = [] then outcome False ''no issues found''
        else outcome True ''strict policy: any chain irregularity is fatal''
      else if l = PolicyWarn then
        if sigs > 0 then outcome True ''signature failure is fatal at warn policy''
        else outcome False ''warn policy: chain issues reported without failing''
      else if l = PolicyPermissive then
        if sigs > 0 then outcome True ''signature failure is fatal at permissive policy''
        else outcome False ''permissive policy: only signature failures are fatal''
      else outcome (issues \<noteq> []) ''unknown policy level, treated as strict'')"

definition pluralIssues :: "nat \<Rightarrow> string \<Rightarrow> string" where
  "pluralIssues n noun = (if n = 1 then ''1 '' @ noun else fmt_nat n @ '' '' @ noun @ ''s'')"

definition IssuesFromDirPolicyResult :: "policy_result option \<Rightarrow> chain_issue list" where
  "IssuesFromDirPolicyResult res = (case res of None \<Rightarrow> []
   | Some r \<Rightarrow>
      (if \<not> pr_ChainValid r then [\<lparr>ci_Kind = IssueBrokenChainLink, ci_Segment = '''',
         ci_Detail = ''hash chain is not unbroken from the oldest to the newest segment''\<rparr>] else []) @
      (if pr_PolicyViolations r > 0 then [\<lparr>ci_Kind = IssuePolicy, ci_Segment = '''',
         ci_Detail = pluralIssues (pr_PolicyViolations r) ''policy violation''\<rparr>] else []) @
      (if pr_StructuralIssues r > 0 then [\<lparr>ci_Kind = IssueStructural, ci_Segment = '''',
         ci_Detail = pluralIssues (pr_StructuralIssues r) ''structural issue''\<rparr>] else []))"

definition EnforceResult :: "string option \<Rightarrow> policy_result option \<Rightarrow> policy_outcome" where
  "EnforceResult en res = Enforce en (IssuesFromDirPolicyResult res)"

section \<open>Retention\<close>

record retention_config =
  rc_MaxAge :: int
  rc_MaxSizeBytes :: int
  rc_MaxSegments :: int

record retention_plan =
  Keep :: "segment_info list"
  Remove :: "segment_info list"

definition TotalRemoveBytes :: "retention_plan \<Rightarrow> nat" where
  "TotalRemoveBytes p = sum_list (map si_SizeBytes (Remove p))"

text \<open>The zero \<open>time.Time\<close> is the first of January of the year 1.\<close>

definition zero_time :: int where
  "zero_time = - 62135596800000000000"

definition closed_time :: "segment_info \<Rightarrow> int" where
  "closed_time s = (if sm_ClosedAt (si_Manifest s) = zero_time then si_ModTime s else sm_ClosedAt (si_Manifest s))"

text \<open>The three passes over the segments, newest first, each adding to the paths to remove.\<close>

definition age_pass :: "int \<Rightarrow> segment_info list \<Rightarrow> string set" where
  "age_pass cutoff l = si_Path ` set (filter (\<lambda>s. closed_time s < cutoff) l)"

fun count_pass :: "int \<Rightarrow> int \<Rightarrow> segment_info list \<Rightarrow> string set \<Rightarrow> string set" where
  "count_pass mx kept [] rs = rs"
| "count_pass mx kept (s # l) rs =
     (if si_Path s \<in> rs then count_pass mx kept l rs
      else if kept + 1 > mx then count_pass mx (kept + 1) l (insert (si_Path s) rs)
      else count_pass mx (kept + 1) l rs)"

fun size_pass :: "int \<Rightarrow> int \<Rightarrow> segment_info list \<Rightarrow> string set \<Rightarrow> string set" where
  "size_pass mx used [] rs = rs"
| "size_pass mx used (s # l) rs =
     (if si_Path s \<in> rs then size_pass mx used l rs
      else if used + int (si_SizeBytes s) > mx then size_pass mx used l (insert (si_Path s) rs)
      else size_pass mx (used + int (si_SizeBytes s)) l rs)"

definition removeSet :: "retention_config \<Rightarrow> int \<Rightarrow> segment_info list \<Rightarrow> string set" where
  "removeSet cfg now segments =
     (let ordered = rev (sort_key seg_key segments);
          r1 = (if rc_MaxAge cfg > 0 then age_pass (now - rc_MaxAge cfg) ordered else {});
          r2 = (if rc_MaxSegments cfg > 0 then count_pass (rc_MaxSegments cfg) 0 ordered r1 else r1)
      in if rc_MaxSizeBytes cfg > 0 then size_pass (rc_MaxSizeBytes cfg) 0 ordered r2 else r2)"

definition planRetention :: "segment_info list \<Rightarrow> retention_config \<Rightarrow> int \<Rightarrow> retention_plan" where
  "planRetention segments cfg now =
     (let rs = removeSet cfg now segments; l = sort_key (\<lambda>s. sm_Sequence (si_Manifest s)) segments in
      \<lparr>Keep = filter (\<lambda>s. si_Path s \<notin> rs) l, Remove = filter (\<lambda>s. si_Path s \<in> rs) l\<rparr>)"

definition PlanRetention :: "env \<Rightarrow> dir \<Rightarrow> retention_config \<Rightarrow> int \<Rightarrow> string + retention_plan" where
  "PlanRetention e d cfg now = map_sum id (\<lambda>ss. planRetention ss cfg now) (ListSegments e d)"

text \<open>The files are removed in the order of the plan, until one cannot be.\<close>

fun remove_segments :: "(string \<Rightarrow> bool) \<Rightarrow> segment_info list \<Rightarrow> dir \<Rightarrow> string option \<times> dir" where
  "remove_segments fails [] d = (None, d)"
| "remove_segments fails (s # l) d =
     (if fails (si_Path s) then (Some (si_Path s), d)
      else if fails (si_ManifestPath s) then (Some (si_ManifestPath s), remove_file (si_Path s) d)
      else remove_segments fails l (remove_file (si_ManifestPath s) (remove_file (si_Path s) d)))"

definition ApplyRetention :: "env \<Rightarrow> (string \<Rightarrow> bool) \<Rightarrow> retention_config \<Rightarrow> bool \<Rightarrow> int \<Rightarrow> dir \<Rightarrow>
    (string + retention_plan \<times> string option) \<times> dir" where
  "ApplyRetention e fails cfg dryRun now d = (case PlanRetention e d cfg now of
     Inl err \<Rightarrow> (Inl err, d)
   | Inr plan \<Rightarrow> if dryRun then (Inr (plan, None), d)
       else (let (err, d') = remove_segments fails (Remove plan) d in (Inr (plan, err), d')))"

section \<open>What a valid directory is\<close>

text \<open>The conditions on one segment, given the digest of the one before and the number that is its turn.\<close>

definition schema_ok :: "manifest \<Rightarrow> bool" where
  "schema_ok m \<longleftrightarrow> sm_SchemaVersion m = '''' \<or> sm_SchemaVersion m = SchemaVersion"

definition link_ok :: "nat \<Rightarrow> manifest \<Rightarrow> string \<Rightarrow> bool" where
  "link_ok i m prev \<longleftrightarrow> (if i = 0 then sm_PreviousSegmentHash m = ''''
     else ValidateSHA256Hex (sm_PreviousSegmentHash m) = None \<and> equal_fold (sm_PreviousSegmentHash m) prev)"

definition seg_ok :: "env \<Rightarrow> dir \<Rightarrow> nat \<Rightarrow> nat \<Rightarrow> string \<Rightarrow> segment_info \<Rightarrow> string \<Rightarrow> bool" where
  "seg_ok e d i expect prev s h \<longleftrightarrow> (let m = si_Manifest s in
     schema_ok m \<and> sm_Sequence m = expect \<and> ValidateSHA256Hex (sm_SHA256 m) = None \<and>
     HashFile e d (si_Path s) = Some h \<and> equal_fold h (sm_SHA256 m) \<and> link_ok i m prev)"

fun chain_ok :: "env \<Rightarrow> dir \<Rightarrow> nat \<Rightarrow> nat \<Rightarrow> string \<Rightarrow> segment_info list \<Rightarrow> bool" where
  "chain_ok e d i expect prev [] = True"
| "chain_ok e d i expect prev (s # r) = (case HashFile e d (si_Path s) of None \<Rightarrow> False
     | Some h \<Rightarrow> seg_ok e d i expect prev s h \<and> chain_ok e d (i + 1) ((expect + 1) mod 2 ^ 64) h r)"

text \<open>The checks of \<open>VerifyDirectory\<close>: each adds an issue exactly when its condition fails.\<close>

lemma breaks_state [simp]:
  "vs_Issues (breaks i st) = vs_Issues st @ [i]" "vs_prev (breaks i st) = vs_prev st"
  "vs_expect (breaks i st) = vs_expect st" "vs_First (breaks i st) = vs_First st"
  "vs_Last (breaks i st) = vs_Last st" "vs_Checked (breaks i st) = vs_Checked st"
  by (simp_all add: breaks_def)

lemma check_schema_issues: "vs_Issues (check_schema m st) = [] \<longleftrightarrow> vs_Issues st = [] \<and> schema_ok m"
  by (simp add: check_schema_def schema_ok_def)

lemma check_schema_state:
  "vs_prev (check_schema m st) = vs_prev st" "vs_expect (check_schema m st) = vs_expect st"
  "vs_First (check_schema m st) = vs_First st" "vs_Last (check_schema m st) = vs_Last st"
  "vs_Checked (check_schema m st) = vs_Checked st"
  by (simp_all add: check_schema_def)

lemma check_sequence_issues:
  "vs_Issues (check_sequence m st) = [] \<longleftrightarrow> vs_Issues st = [] \<and> sm_Sequence m = vs_expect st"
  by (simp add: check_sequence_def Let_def)

lemma check_sequence_state:
  "vs_prev (check_sequence m st) = vs_prev st" "vs_First (check_sequence m st) = vs_First st"
  "vs_Last (check_sequence m st) = vs_Last st" "vs_Checked (check_sequence m st) = vs_Checked st"
  "vs_expect (check_sequence m st) = (sm_Sequence m + 1) mod 2 ^ 64"
  by (auto simp: check_sequence_def Let_def)

lemma check_link_issues:
  "vs_Issues (check_link i m h st) = [] \<longleftrightarrow> vs_Issues st = [] \<and> link_ok i m (vs_prev st)"
  by (auto simp: check_link_def link_ok_def split: option.splits)

lemma check_link_state:
  "vs_expect (check_link i m h st) = vs_expect st" "vs_Checked (check_link i m h st) = vs_Checked st"
  "vs_First (check_link i m h st) = (if i = 0 then h else vs_First st)"
  by (simp_all add: check_link_def split: option.split)

lemma if_breaks_issues: "vs_Issues (if b then breaks i st else st) = [] \<longleftrightarrow> vs_Issues st = [] \<and> \<not> b"
  by simp

lemma if_breaks_state:
  "vs_prev (if b then breaks i st else st) = vs_prev st" "vs_expect (if b then breaks i st else st) = vs_expect st"
  "vs_First (if b then breaks i st else st) = vs_First st" "vs_Checked (if b then breaks i st else st) = vs_Checked st"
  by simp_all

lemmas check_issues = check_schema_issues check_sequence_issues check_link_issues if_breaks_issues
lemmas check_state = check_schema_state check_sequence_state check_link_state if_breaks_state

lemma verify_turn_issues:
  "vs_Issues (verify_turn e d i s st) = [] \<longleftrightarrow>
     vs_Issues st = [] \<and> (\<exists>h. seg_ok e d i (vs_expect st) (vs_prev st) s h)"
  by (auto simp: verify_turn_def Let_def check_issues check_state seg_ok_def split: option.splits simp del: if_split_asm)

lemma verify_turn_state:
  assumes "seg_ok e d i (vs_expect st) (vs_prev st) s h"
  shows "vs_prev (verify_turn e d i s st) = h" "vs_Last (verify_turn e d i s st) = h"
    "vs_expect (verify_turn e d i s st) = (vs_expect st + 1) mod 2 ^ 64"
    "vs_First (verify_turn e d i s st) = (if i = 0 then h else vs_First st)"
    "vs_Checked (verify_turn e d i s st) = vs_Checked st + 1"
  using assms by (simp_all add: verify_turn_def Let_def check_state seg_ok_def)

lemma verify_loop_issues:
  "vs_Issues (verify_loop e d i ss st) = [] \<longleftrightarrow> vs_Issues st = [] \<and> chain_ok e d i (vs_expect st) (vs_prev st) ss"
proof (induction ss arbitrary: i st)
  case (Cons s ss)
  show ?case
  proof (cases "\<exists>h. seg_ok e d i (vs_expect st) (vs_prev st) s h")
    case True
    then obtain h where h: "seg_ok e d i (vs_expect st) (vs_prev st) s h" by blast
    then have "HashFile e d (si_Path s) = Some h" by (simp add: seg_ok_def Let_def)
    with h show ?thesis by (auto simp: Cons verify_turn_issues verify_turn_state [OF h])
  next
    case False
    then show ?thesis by (auto simp: Cons verify_turn_issues split: option.splits)
  qed
qed simp

lemma VerifyDirectory_valid_iff:
  "dr_Valid (VerifyDirectory e ord d) \<longleftrightarrow> no_manifest d (body_names d) = [] \<and> no_segment ord d = [] \<and>
     (\<exists>ss. ListSegments e d = Inr ss \<and> chain_ok e d 0 1 '''' ss)"
  by (auto simp: VerifyDirectory_def Let_def verify_loop_issues split: sum.splits)

text \<open>The same for \<open>VerifyDirectoryWithPolicy\<close>, without a policy.\<close>

definition clean :: "policy_state \<Rightarrow> bool" where
  "clean st \<longleftrightarrow> ps_Structural st = 0 \<and> ps_Policy st = 0 \<and> ps_Chain st"

definition seen_in :: "policy_state \<Rightarrow> string set" where
  "seen_in st = fst ` set (ps_seen st)"

lemma not_clean [simp]: "\<not> clean (snd (structural i x))" "\<not> clean (snd (broken i x))" "\<not> clean (snd (violation i x))"
  by (simp_all add: clean_def structural_def broken_def violation_def Let_def)

lemma finding_state [simp]:
  "ps_prev (snd (structural i x)) = ps_prev (snd x)" "ps_prev (snd (broken i x)) = ps_prev (snd x)"
  "ps_prev (snd (violation i x)) = ps_prev (snd x)"
  "ps_expect (snd (structural i x)) = ps_expect (snd x)" "ps_expect (snd (broken i x)) = ps_expect (snd x)"
  "ps_expect (snd (violation i x)) = ps_expect (snd x)"
  "seen_in (snd (structural i x)) = seen_in (snd x)" "seen_in (snd (broken i x)) = seen_in (snd x)"
  "seen_in (snd (violation i x)) = seen_in (snd x)"
  by (simp_all add: structural_def broken_def violation_def Let_def seen_in_def)

lemma clean_update [simp]:
  "clean (st\<lparr>ps_expect := k\<rparr>) = clean st" "clean (st\<lparr>ps_First := h\<rparr>) = clean st" "clean (st\<lparr>ps_prev := h\<rparr>) = clean st"
  "clean (st\<lparr>ps_Last := h\<rparr>) = clean st" "clean (st\<lparr>ps_seen := l\<rparr>) = clean st" "clean (st\<lparr>ps_Checked := k\<rparr>) = clean st"
  "clean (st\<lparr>ps_Segments := rs\<rparr>) = clean st"
  by (simp_all add: clean_def)

lemma seen_update [simp]:
  "seen_in (st\<lparr>ps_expect := k\<rparr>) = seen_in st" "seen_in (st\<lparr>ps_First := h\<rparr>) = seen_in st"
  "seen_in (st\<lparr>ps_prev := h\<rparr>) = seen_in st" "seen_in (st\<lparr>ps_Last := h\<rparr>) = seen_in st"
  "seen_in (st\<lparr>ps_Checked := k\<rparr>) = seen_in st" "seen_in (st\<lparr>ps_Segments := rs\<rparr>) = seen_in st"
  by (simp_all add: seen_in_def)

lemma pol_schema_clean: "clean (snd (pol_schema no_policy m x)) \<longleftrightarrow> clean (snd x) \<and> schema_ok m"
  by (auto simp: pol_schema_def no_policy_def schema_ok_def Let_def)

lemma pol_sequence_clean:
  "clean (snd (pol_sequence m x)) \<longleftrightarrow> clean (snd x) \<and> sm_Sequence m = ps_expect (snd x)"
  by (simp add: pol_sequence_def Let_def)

lemma pol_checksum_clean: "clean (snd (pol_checksum m h x)) \<longleftrightarrow> clean (snd x) \<and> equal_fold h (sm_SHA256 m)"
  by (simp add: pol_checksum_def Let_def)

lemma pol_link_clean: "clean (snd (pol_link i m h x)) \<longleftrightarrow> clean (snd x) \<and> link_ok i m (ps_prev (snd x))"
  by (auto simp: pol_link_def link_ok_def Let_def split: option.splits)

lemma pol_rest_clean:
  "pol_retention no_policy now m x = x" "pol_signer no_policy m x = x"
  by (simp_all add: pol_retention_def pol_signer_def no_policy_def)

lemma pol_duplicate_clean:
  "clean (snd (pol_duplicate m h x)) \<longleftrightarrow> clean (snd x) \<and> h \<notin> seen_in (snd x)"
  by (simp add: seen_in_def pol_duplicate_def Let_def map_of_eq_None_iff [symmetric] split: option.split)

lemma pol_duplicate_seen:
  "h \<notin> seen_in (snd x) \<Longrightarrow> seen_in (snd (pol_duplicate m h x)) = insert h (seen_in (snd x))"
  by (simp add: seen_in_def pol_duplicate_def map_of_eq_None_iff [symmetric])

lemma pol_state:
  "ps_prev (snd (pol_schema p m x)) = ps_prev (snd x)" "ps_expect (snd (pol_schema p m x)) = ps_expect (snd x)"
  "seen_in (snd (pol_schema p m x)) = seen_in (snd x)"
  "ps_prev (snd (pol_sequence m x)) = ps_prev (snd x)" "seen_in (snd (pol_sequence m x)) = seen_in (snd x)"
  "ps_expect (snd (pol_sequence m x)) = (sm_Sequence m + 1) mod 2 ^ 64"
  "ps_prev (snd (pol_checksum m h x)) = ps_prev (snd x)" "ps_expect (snd (pol_checksum m h x)) = ps_expect (snd x)"
  "seen_in (snd (pol_checksum m h x)) = seen_in (snd x)"
  "ps_expect (snd (pol_link i m h x)) = ps_expect (snd x)" "seen_in (snd (pol_link i m h x)) = seen_in (snd x)"
  "ps_expect (snd (pol_duplicate m h x)) = ps_expect (snd x)"
  by (auto simp: pol_schema_def pol_sequence_def pol_checksum_def pol_link_def pol_duplicate_def Let_def split: option.splits)

lemmas pol_clean = pol_schema_clean pol_sequence_clean pol_checksum_clean pol_link_clean pol_rest_clean pol_duplicate_clean

lemma policy_turn_clean:
  assumes "policy_turn e d no_policy now i s st = (st', stop)"
  shows "\<not> stop"
    and "clean st' \<longleftrightarrow> clean st \<and>
      (\<exists>h. seg_ok e d i (ps_expect st) (ps_prev st) s h \<and> h \<notin> seen_in st)"
    and "seg_ok e d i (ps_expect st) (ps_prev st) s h \<Longrightarrow> ps_prev st' = h \<and> ps_expect st' = (ps_expect st + 1) mod 2 ^ 64"
    and "seg_ok e d i (ps_expect st) (ps_prev st) s h \<Longrightarrow> h \<notin> seen_in st \<Longrightarrow>
      seen_in st' = insert h (seen_in st)"
proof -
  show "\<not> stop" using assms
    by (auto simp: policy_turn_def Let_def no_policy_def split: option.splits)
  show "clean st' \<longleftrightarrow> clean st \<and>
      (\<exists>h. seg_ok e d i (ps_expect st) (ps_prev st) s h \<and> h \<notin> seen_in st)"
    using assms
    by (auto simp: policy_turn_def Let_def add_result_def pol_clean pol_state seg_ok_def split: option.splits)
  show "ps_prev st' = h \<and> ps_expect st' = (ps_expect st + 1) mod 2 ^ 64"
    if "seg_ok e d i (ps_expect st) (ps_prev st) s h"
    using assms that by (auto simp: policy_turn_def Let_def add_result_def pol_clean pol_state seg_ok_def)
  show "seen_in st' = insert h (seen_in st)"
    if "seg_ok e d i (ps_expect st) (ps_prev st) s h" "h \<notin> seen_in st"
    using assms that
    by (auto simp: policy_turn_def Let_def add_result_def pol_clean pol_state seg_ok_def pol_duplicate_seen)
qed

definition digests :: "env \<Rightarrow> dir \<Rightarrow> segment_info list \<Rightarrow> string option list" where
  "digests e d ss = map (\<lambda>s. HashFile e d (si_Path s)) ss"

lemma policy_loop_clean:
  assumes "policy_loop e d no_policy now i ss st = (st', stop)"
  shows "\<not> stop \<and> (clean st' \<longleftrightarrow> clean st \<and> chain_ok e d i (ps_expect st) (ps_prev st) ss \<and>
    distinct (digests e d ss) \<and> Some ` seen_in st \<inter> set (digests e d ss) = {})"
  using assms
proof (induction ss arbitrary: i st)
  case Nil
  then show ?case by (auto simp: digests_def)
next
  case (Cons s ss)
  obtain st1 stop1 where T: "policy_turn e d no_policy now i s st = (st1, stop1)" by fastforce
  note turn = policy_turn_clean [OF T]
  from Cons.prems T turn(1) have "policy_loop e d no_policy now (i + 1) ss st1 = (st', stop)" by simp
  note IH = Cons.IH [OF this]
  show ?case
  proof (cases "\<exists>h. seg_ok e d i (ps_expect st) (ps_prev st) s h \<and> h \<notin> seen_in st")
    case True
    then obtain h where h: "seg_ok e d i (ps_expect st) (ps_prev st) s h" "h \<notin> seen_in st" by blast
    then have H: "HashFile e d (si_Path s) = Some h" by (simp add: seg_ok_def Let_def)
    have D: "digests e d (s # ss) = Some h # digests e d ss" by (simp add: digests_def H)
    have sn: "seen_in st1 = insert h (seen_in st)" by (rule turn(4) [OF h])
    from True turn(2) have "clean st1 \<longleftrightarrow> clean st" by blast
    with IH turn(3) [OF h(1)] H h sn D show ?thesis by auto
  next
    case False
    then have nc: "\<not> clean st1" using turn(2) by blast
    have "\<not> (chain_ok e d i (ps_expect st) (ps_prev st) (s # ss) \<and>
        Some ` seen_in st \<inter> set (digests e d (s # ss)) = {})"
      using False by (auto simp: digests_def split: option.splits)
    with IH nc show ?thesis by blast
  qed
qed

lemma no_manifest_order: "set bs = set bs' \<Longrightarrow> no_manifest d bs = [] \<longleftrightarrow> no_manifest d bs' = []"
  by (auto simp: no_manifest_def filter_empty_conv)

lemma pol_start_state:
  "clean (pol_start pre) \<longleftrightarrow> pre = []" "ps_expect (pol_start pre) = 1" "ps_prev (pol_start pre) = ''''"
  "seen_in (pol_start pre) = {}"
  by (auto simp: pol_start_def clean_def seen_in_def)

lemma no_segment_order:
  assumes "mset (ord (manifest_names d)) = mset (manifest_names d)" "mset (ord' (manifest_names d)) = mset (manifest_names d)"
  shows "no_segment ord d = [] \<longleftrightarrow> no_segment ord' d = []"
  using assms [THEN mset_eq_setD] by (simp add: no_segment_def filter_empty_conv)

text \<open>C39. Without a policy, VerifyDirectoryWithPolicy accepts a directory exactly when
  VerifyDirectory accepts it and no two segments have the same digest, whatever the orders in
  which the two go through their sets of manifests.\<close>

theorem policy_equivalence:
  assumes "\<And>xs. mset (ord xs) = mset xs" "\<And>xs. mset (ord' xs) = mset xs"
  shows "pr_Valid (VerifyDirectoryWithPolicy e ord now no_policy d) \<longleftrightarrow> dr_Valid (VerifyDirectory e ord' d) \<and>
    (\<exists>ss. ListSegments e d = Inr ss \<and> distinct (digests e d ss))"
proof -
  define bodies where "bodies = sort_key (\<lambda>n. (the (ParseSegmentSequence n), n)) (body_names d)"
  define pre where "pre = no_manifest d bodies @ no_segment ord d"
  have pre: "pre = [] \<longleftrightarrow> no_manifest d (body_names d) = [] \<and> no_segment ord' d = []"
    using no_manifest_order [of bodies "body_names d" d] no_segment_order [of ord d ord'] assms
    by (simp add: pre_def bodies_def)
  have ff: "\<not> FailFast no_policy" by (simp add: no_policy_def)
  show ?thesis
  proof (cases "ListSegments e d")
    case (Inl n)
    then show ?thesis by (simp add: VerifyDirectoryWithPolicy_def Let_def ff pol_result_def)
  next
    case (Inr ss)
    obtain st stop where L: "policy_loop e d no_policy now 0 ss (pol_start pre) = (st, stop)" by fastforce
    from policy_loop_clean [OF L] have "\<not> stop" "clean st \<longleftrightarrow> pre = [] \<and> chain_ok e d 0 1 '''' ss \<and> distinct (digests e d ss)"
      by (auto simp: pol_start_state)
    moreover from this(1) L have "pr_Valid (VerifyDirectoryWithPolicy e ord now no_policy d) \<longleftrightarrow> clean st"
      by (simp add: VerifyDirectoryWithPolicy_def Let_def ff Inr pol_result_def clean_def flip: bodies_def pre_def)
    ultimately show ?thesis by (auto simp: VerifyDirectory_valid_iff Inr pre)
  qed
qed

section \<open>The levels\<close>

text \<open>Every finding counts, and the verdict on a segment is bad only with a finding.\<close>

definition counted :: "segment_result \<times> policy_state \<Rightarrow> bool" where
  "counted x \<longleftrightarrow> (sr_Valid (fst x) \<or> 0 < ps_Structural (snd x) + ps_Policy (snd x)) \<and>
     (ps_Chain (snd x) \<or> 0 < ps_Structural (snd x))"

definition counted_state :: "policy_state \<Rightarrow> bool" where
  "counted_state st \<longleftrightarrow> ps_Chain st \<or> 0 < ps_Structural st"

lemma counted_steps:
  "counted x \<Longrightarrow> counted (pol_schema p m x)" "counted x \<Longrightarrow> counted (pol_sequence m x)"
  "counted x \<Longrightarrow> counted (pol_checksum m h x)" "counted x \<Longrightarrow> counted (pol_link i m h x)"
  "counted x \<Longrightarrow> counted (pol_retention p now m x)" "counted x \<Longrightarrow> counted (pol_signer p m x)"
  "counted x \<Longrightarrow> counted (pol_duplicate m h x)"
  by (auto simp: counted_def pol_schema_def pol_sequence_def pol_checksum_def pol_link_def pol_retention_def
      pol_signer_def pol_duplicate_def structural_def broken_def violation_def Let_def split: option.splits)

lemma policy_turn_counted:
  assumes "policy_turn e d p now i s st = (st', stop)" "counted_state st"
  shows "counted_state st' \<and> (stop \<longrightarrow> 0 < ps_Structural st' + ps_Policy st')"
proof -
  define m where "m = si_Manifest s"
  define x where "x = pol_sequence m (pol_schema p m (new_result m, st\<lparr>ps_Checked := ps_Checked st + 1\<rparr>))"
  have x: "counted x" unfolding x_def using assms(2)
    by (intro counted_steps) (simp add: counted_def counted_state_def new_result_def)
  define y where "y h = pol_duplicate m h (pol_signer p m (pol_retention p now m (pol_link i m h (pol_checksum m h x))))" for h
  have y: "counted (y h)" for h unfolding y_def by (intro counted_steps x)
  have "policy_turn e d p now i s st = (case ValidateSHA256Hex (sm_SHA256 m) of
      Some err \<Rightarrow> (add_result ((fst (broken (BadDigest (sm_Segment m) err) x))\<lparr>sr_ChecksumValid := False\<rparr>,
        snd (broken (BadDigest (sm_Segment m) err) x)), FailFast p)
    | None \<Rightarrow> (case HashFile e d (si_Path s) of
        None \<Rightarrow> (add_result ((fst (broken (Unreadable (si_Path s)) x))\<lparr>sr_ChecksumValid := False\<rparr>,
          snd (broken (Unreadable (si_Path s)) x)), FailFast p)
      | Some h \<Rightarrow> (add_result (fst (y h), (snd (y h))\<lparr>ps_prev := h, ps_Last := h\<rparr>), FailFast p \<and> \<not> sr_Valid (fst (y h)))))"
    by (simp only: policy_turn_def Let_def m_def x_def y_def)
  with assms(1) y [of "the (HashFile e d (si_Path s))"] show ?thesis
    by (auto simp: add_result_def counted_def counted_state_def broken_def structural_def Let_def split: option.splits)
qed

lemma policy_loop_counted:
  "policy_loop e d p now i ss st = (st', stop) \<Longrightarrow> counted_state st \<Longrightarrow>
     counted_state st' \<and> (stop \<longrightarrow> 0 < ps_Structural st' + ps_Policy st')"
proof (induction ss arbitrary: i st)
  case (Cons s ss)
  obtain st1 stop1 where T: "policy_turn e d p now i s st = (st1, stop1)" by fastforce
  with Cons policy_turn_counted [OF T] show ?case by (auto split: if_splits)
qed simp

lemma valid_no_issues:
  "pr_Valid (VerifyDirectoryWithPolicy e ord now p d) \<longleftrightarrow>
     IssuesFromDirPolicyResult (Some (VerifyDirectoryWithPolicy e ord now p d)) = []"
proof -
  define pre where "pre = no_manifest d (sort_key (\<lambda>n. (the (ParseSegmentSequence n), n)) (body_names d)) @ no_segment ord d"
  have V: "VerifyDirectoryWithPolicy e ord now p d =
      (if FailFast p \<and> pre \<noteq> [] then pol_result d False True (pol_start [hd pre])
       else case ListSegments e d of
         Inl n \<Rightarrow> pol_result d False False ((pol_start (pre @ [ListError n]))\<lparr>ps_Chain := False\<rparr>)
       | Inr ss \<Rightarrow> (case policy_loop e d p now 0 ss (pol_start pre) of (st, stop) \<Rightarrow>
           if stop then pol_result d False True st
           else pol_result d (ps_Structural st = 0 \<and> ps_Policy st = 0 \<and> ps_Chain st) False st))"
    by (simp only: VerifyDirectoryWithPolicy_def Let_def pre_def)
  show ?thesis
  proof (cases "FailFast p \<and> pre \<noteq> []")
    case True
    then show ?thesis
      by (simp add: V pol_result_def pol_start_def IssuesFromDirPolicyResult_def)
  next
    case nf: False
    show ?thesis
    proof (cases "ListSegments e d")
      case (Inl n)
      with nf show ?thesis
        by (simp add: V pol_result_def pol_start_def IssuesFromDirPolicyResult_def)
    next
      case (Inr ss)
      obtain st stop where L: "policy_loop e d p now 0 ss (pol_start pre) = (st, stop)" by fastforce
      have "counted_state (pol_start pre)" by (simp add: counted_state_def pol_start_def)
      from policy_loop_counted [OF L this] L nf Inr show ?thesis
        by (auto simp: V pol_result_def IssuesFromDirPolicyResult_def counted_state_def)
    qed
  qed
qed

text \<open>
  Applied to the verification of a directory, the level strict, and every level that is not
  recognised, fail exactly when the directory is not valid; warn and permissive never fail, because no
  finding is reported as a failure of a signature.
\<close>

theorem levels_on_directories:
  "po_Fatal (EnforceResult (NewPolicyEnforcer l) (Some (VerifyDirectoryWithPolicy e ord now p d))) \<longleftrightarrow>
    l \<noteq> PolicyWarn \<and> l \<noteq> PolicyPermissive \<and> \<not> pr_Valid (VerifyDirectoryWithPolicy e ord now p d)"
proof -
  have "filter isSignatureFailure (IssuesFromDirPolicyResult r) = []" for r
    by (auto simp: IssuesFromDirPolicyResult_def isSignatureFailure_def split: option.splits)
  then show ?thesis unfolding valid_no_issues
    by (auto simp: EnforceResult_def Enforce_def NewPolicyEnforcer_def enforcer_Level_def IsValidPolicyLevel_def
        PolicyStrict_def PolicyWarn_def PolicyPermissive_def Let_def)
qed

end
