(* ===== verification/AuditChain.thy ===== *)
theory AuditChain
  imports AuditVerify
begin

text \<open>
  What the writer of AuditLog leaves for the verification of AuditVerify (\<open>internal/audit/rotation.go\<close>
  and \<open>verify.go\<close>): the chain of segments and manifests is an invariant of the log, so that
  every reachable directory is valid; what the chain does not protect; and what retention
  (\<open>retention.go\<close>) does to it.
\<close>

section \<open>The chain of segments\<close>

definition prev_digest :: "env \<Rightarrow> dir \<Rightarrow> nat \<Rightarrow> string" where
  "prev_digest e d i = (if i = 0 then '''' else HashBytes e (snd (seg_of (segs d ! (i - 1)))))"

text \<open>The manifest of the segment at position \<open>i\<close>.\<close>

definition manifest_at :: "env \<Rightarrow> dir \<Rightarrow> nat \<Rightarrow> manifest \<Rightarrow> bool" where
  "manifest_at e d i m \<longleftrightarrow> sm_SchemaVersion m = SchemaVersion \<and> sm_Segment m = fst (segs d ! i) \<and>
     sm_Sequence m = i + 1 \<and> sm_SHA256 m = HashBytes e (snd (seg_of (segs d ! i))) \<and>
     sm_PreviousSegmentHash m = prev_digest e d i"

definition chained :: "env \<Rightarrow> dir \<Rightarrow> bool" where
  "chained e d \<longleftrightarrow>
     (\<forall>i < length (segs d). fst (seg_of (segs d ! i)) = i + 1 \<and>
        (\<exists>m. ReadManifest e d (ManifestPathFor (fst (segs d ! i))) = Some m \<and> manifest_at e d i m)) \<and>
     (\<forall>n. map_of d n \<noteq> None \<longrightarrow> has_suffix n ManifestSuffix \<longrightarrow> n \<in> ManifestPathFor ` fst ` set (segs d))"

definition linked :: "env \<Rightarrow> dir \<Rightarrow> writer \<Rightarrow> bool" where
  "linked e d w \<longleftrightarrow> (w_open w \<longrightarrow> w_nextSeq w = length (segs d) + 1 \<and> w_prevHash w = prev_digest e d (length (segs d)))"

text \<open>The faults that do not leave a manifest without its segment.\<close>

definition safe_faults :: "faults \<Rightarrow> bool" where
  "safe_faults fl \<longleftrightarrow> \<not> fl RemoveManifest \<and> \<not> fl (Hook RotateAfterManifest) \<and> \<not> fl (Hook RotateBeforeSegmentRename)"

lemma segs_closed: "en \<in> set (segs d) \<Longrightarrow> \<exists>q. ParseSegmentSequence (fst en) = Some q"
  by (cases en rule: prod.exhaust) (auto simp: segs_def IsClosedSegmentName_def)

lemma chained_keep:
  assumes "chained e d" "segs d' = segs d"
    and "\<And>en. en \<in> set (segs d) \<Longrightarrow> read_file d' (ManifestPathFor (fst en)) = read_file d (ManifestPathFor (fst en))"
    and "\<And>n. map_of d' n \<noteq> None \<Longrightarrow> has_suffix n ManifestSuffix \<Longrightarrow> map_of d n \<noteq> None"
  shows "chained e d'"
proof -
  have m: "manifest_at e d' = manifest_at e d"
    by (simp add: fun_eq_iff manifest_at_def prev_digest_def assms(2))
  have r: "ReadManifest e d' (ManifestPathFor (fst (segs d ! i))) = ReadManifest e d (ManifestPathFor (fst (segs d ! i)))"
    if "i < length (segs d)" for i
    using assms(3) [of "segs d ! i"] that by (simp add: ReadManifest_def)
  show ?thesis using assms(1,4) unfolding chained_def m assms(2) by (metis r)
qed

lemma segs_put_active: "segs (put_file ActiveSegmentName s t d) = segs d"
  by (simp add: put_file_def segs_update_other)

lemma chained_put_active: "chained e d \<Longrightarrow> chained e (put_file ActiveSegmentName s t d)"
  by (rule chained_keep [of e d]) (auto simp: segs_put_active map_of_put split: if_splits)

lemma chained_open: "chained e d \<Longrightarrow> chained e (snd (open_active fl t d))"
  using open_active_dir [of fl t d] chained_put_active by metis

lemma chained_append: "chained e d \<Longrightarrow> chained e (append_active s t d)"
  by (simp add: append_active_def chained_put_active)

text \<open>The manifest of a segment that is not there yet is none of the chain.\<close>

lemma fresh_manifest:
  assumes "ParseSegmentSequence n = Some q" "\<forall>en \<in> set (segs d). fst (seg_of en) < q" "en \<in> set (segs d)"
  shows "ManifestPathFor (fst en) \<noteq> ManifestPathFor n"
proof
  assume "ManifestPathFor (fst en) = ManifestPathFor n"
  moreover obtain q' where "ParseSegmentSequence (fst en) = Some q'" using segs_closed [OF assms(3)] by blast
  ultimately have "fst en = n" using ManifestPathFor_inj assms(1) by metis
  then show False using assms by (cases en rule: prod.exhaust) (auto simp: seg_of_def)
qed

lemma chained_reopened:
  assumes R: "reopened e fl t w d d'" and s: "safe_faults fl" and c: "chained e d" and q: "in_range t w"
    and fr: "\<forall>en \<in> set (segs d). fst (seg_of en) < w_nextSeq w"
  shows "chained e d'"
proof -
  define seg where "seg = FormatSegmentName (w_nextSeq w) (at_close t)"
  have P: "ParseSegmentSequence seg = Some (w_nextSeq w)"
    using q ParseSegmentSequence_Format by (simp add: seg_def in_range_def)
  from R s obtain d0 d1 where d': "d' = snd (open_active fl t d0)" and
    d0: "d0 = d \<or> manifest_left e t w d d1 \<and> d0 = remove_file (ManifestPathFor seg) d1"
    by (auto simp: reopened_def safe_faults_def seg_def)
  have "chained e d0" using d0
  proof (elim disjE conjE)
    assume l: "manifest_left e t w d d1" and d0: "d0 = remove_file (ManifestPathFor seg) d1"
    from l obtain data where d1: "d1 = put_file (ManifestPathFor seg) data (at_close t) d"
      by (auto simp: manifest_left_def seg_def)
    show "chained e d0"
    proof (rule chained_keep [OF c])
      show "segs d0 = segs d"
        by (simp add: d0 d1 remove_file_def put_file_def segs_delete_other segs_update_other)
      show "read_file d0 (ManifestPathFor (fst en)) = read_file d (ManifestPathFor (fst en))" if "en \<in> set (segs d)" for en
        using fresh_manifest [OF P fr that] by (simp add: d0 d1)
      show "map_of d n \<noteq> None" if "map_of d0 n \<noteq> None" for n
        using that by (auto simp: d0 d1 map_of_put map_of_remove split: if_splits)
    qed
  qed (use c in simp)
  then show ?thesis by (simp add: d' chained_open)
qed

lemma read_file_rename:
  "rename_file a b d = Some d' \<Longrightarrow> n \<noteq> a \<Longrightarrow> n \<noteq> b \<Longrightarrow> read_file d' n = read_file d n"
  by (auto simp: rename_file_def read_file_def update_conv' delete_conv' split: option.splits if_splits)

lemma map_of_rename:
  "rename_file a b d = Some d' \<Longrightarrow> map_of d' n \<noteq> None \<Longrightarrow> n = b \<or> map_of d n \<noteq> None"
  by (auto simp: rename_file_def update_conv' delete_conv' split: option.splits if_splits)

lemma chained_moved:
  assumes M: "moved e t w d d'" and e: "good_env e" and c: "chained e d" and q: "in_range t w" and wf: "wf_dir d"
    and fr: "\<forall>en \<in> set (segs d). fst (seg_of en) < w_nextSeq w"
    and l: "w_nextSeq w = length (segs d) + 1" "w_prevHash w = prev_digest e d (length (segs d))"
    and S: "segs d' = segs d @ [(FormatSegmentName (w_nextSeq w) (at_close t), RegularFile (active_text d) tt)]"
  shows "chained e d'"
proof -
  define seg where "seg = FormatSegmentName (w_nextSeq w) (at_close t)"
  define k where "k = length (segs d)"
  have P: "ParseSegmentSequence seg = Some (w_nextSeq w)"
    using q ParseSegmentSequence_Format by (simp add: seg_def in_range_def)
  from M obtain d1 data where data: "marshal e (manifest_of w t (HashBytes e (active_text d))) = Some data"
    and d1: "d1 = put_file (ManifestPathFor seg) (data @ [CHR 0x0A]) (at_close t) d"
    and R: "rename_file ActiveSegmentName seg d1 = Some d'"
    by (auto simp: moved_def manifest_left_def seg_def)
  have rd: "read_file d' (ManifestPathFor n) = read_file d1 (ManifestPathFor n)" for n
    using P by (intro read_file_rename [OF R]) auto
  have old: "ReadManifest e d' (ManifestPathFor (fst (segs d ! i))) = ReadManifest e d (ManifestPathFor (fst (segs d ! i)))"
    if "i < k" for i
    using fresh_manifest [OF P fr, of "segs d ! i"] that by (simp add: ReadManifest_def rd d1 k_def)
  have "plain_manifest (manifest_of w t (HashBytes e (active_text d)))"
    using l(2) by (simp add: plain_manifest_def manifest_of_def plain_segment plain_digest SchemaVersion_def prev_digest_def)
  then have new: "ReadManifest e d' (ManifestPathFor seg) = Some (manifest_of w t (HashBytes e (active_text d)))"
    using e data by (simp add: ReadManifest_def rd d1 good_env_def)
  have nth: "segs d' ! i = segs d ! i" if "i < k" for i using that by (simp add: S k_def nth_append)
  have last: "segs d' ! k = (seg, RegularFile (active_text d) tt)" by (simp add: S k_def seg_def)
  have prev: "prev_digest e d' i = prev_digest e d i" if "i \<le> k" for i
    using that nth [of "i - 1"] by (auto simp: prev_digest_def)
  have at: "manifest_at e d' i m \<longleftrightarrow> manifest_at e d i m" if "i < k" for i m
    using that by (simp add: manifest_at_def nth prev)
  have atk: "manifest_at e d' k (manifest_of w t (HashBytes e (active_text d)))"
    using l prev [of k] unfolding manifest_at_def last by (simp add: manifest_of_def snd_seg_of k_def seg_def)
  have seqk: "fst (seg_of (segs d' ! k)) = k + 1" unfolding last using P l(1) by (simp add: seg_of_def k_def)
  show ?thesis unfolding chained_def
  proof (intro conjI allI impI)
    fix i assume "i < length (segs d')"
    then consider "i < k" | "i = k" by (fastforce simp: S k_def)
    then have "fst (seg_of (segs d' ! i)) = i + 1 \<and>
      (\<exists>m. ReadManifest e d' (ManifestPathFor (fst (segs d' ! i))) = Some m \<and> manifest_at e d' i m)"
    proof cases
      case 1
      with c show ?thesis by (simp add: nth old at) (simp add: chained_def k_def)
    next
      case 2
      with seqk atk new show ?thesis by (simp add: last)
    qed
    then show "fst (seg_of (segs d' ! i)) = i + 1"
      "\<exists>m. ReadManifest e d' (ManifestPathFor (fst (segs d' ! i))) = Some m \<and> manifest_at e d' i m" by auto
  next
    fix n assume n: "map_of d' n \<noteq> None" "has_suffix n ManifestSuffix"
    have "n \<noteq> seg" using n(2) segment_not_manifest [OF P] by metis
    with map_of_rename [OF R n(1)] have "n = ManifestPathFor seg \<or> map_of d n \<noteq> None"
      by (auto simp: d1 map_of_put split: if_splits)
    with c n(2) show "n \<in> ManifestPathFor ` fst ` set (segs d')"
      by (auto simp: S seg_def chained_def)
  qed
qed

section \<open>The chain is an invariant\<close>

text \<open>Opening the log finds the number and the digest of the last segment.\<close>

definition best_of :: "dir \<Rightarrow> string \<times> nat \<Rightarrow> bool" where
  "best_of l b \<longleftrightarrow> (case b of (bn, bq) \<Rightarrow>
     (\<forall>n x q. (n, x) \<in> set l \<longrightarrow> ParseSegmentSequence n = Some q \<longrightarrow> bn \<noteq> '''' \<and> q \<le> bq) \<and>
     (bn = '''' \<and> bq = 0 \<or> bn \<in> fst ` set l \<and> ParseSegmentSequence bn = Some bq))"

lemma best_name: "best_of l (foldl better_name ('''', 0) l)"
proof (induction l rule: rev_induct)
  case (snoc a l)
  obtain bn bq where b: "foldl better_name ('''', 0) l = (bn, bq)" by fastforce
  obtain n x where a: "a = (n, x)" by fastforce
  have "ParseSegmentSequence '''' = None" by (simp add: ParseSegmentSequence_def)
  with snoc show ?case unfolding b a foldl_append
    by (auto simp: best_of_def better_name_def split: option.splits if_splits) (fastforce+)?
qed (simp add: best_of_def)

lemma highest_name: "highestSequence d = 0 \<or> (\<exists>n \<in> fst ` set d. ParseSegmentSequence n = Some (highestSequence d))"
proof -
  define f where "f = (\<lambda>mx (n :: string, x :: node). case ParseSegmentSequence n of
     Some q \<Rightarrow> if mx < q then q else mx | None \<Rightarrow> mx)"
  have "foldl f 0 l = 0 \<or> (\<exists>n \<in> fst ` set l. ParseSegmentSequence n = Some (foldl f 0 l))" for l
    by (induction l rule: rev_induct) (auto simp: f_def split: prod.splits option.splits)
  from this [of "ReadDir d"] show ?thesis by (simp add: highestSequence_def f_def ReadDir_def)
qed

lemma chained_seq:
  assumes "chained e d" "en \<in> set (segs d)"
  obtains i where "i < length (segs d)" "segs d ! i = en" "ParseSegmentSequence (fst en) = Some (i + 1)"
proof -
  from assms(2) obtain i where i: "i < length (segs d)" "segs d ! i = en" by (auto simp: in_set_conv_nth)
  with assms(1) have "fst (seg_of en) = i + 1" by (auto simp: chained_def)
  moreover obtain q where "ParseSegmentSequence (fst en) = Some q" using segs_closed [OF assms(2)] by blast
  ultimately have "ParseSegmentSequence (fst en) = Some (i + 1)" by (cases en rule: prod.exhaust) (simp add: seg_of_def)
  with i that show thesis by blast
qed

lemma segs_names: "n \<in> fst ` set d \<Longrightarrow> ParseSegmentSequence n = Some q \<Longrightarrow> \<exists>x. (n, x) \<in> set (segs d)"
  by (force simp: segs_def IsClosedSegmentName_def)

lemma chained_names:
  assumes "chained e d" "n \<in> fst ` set d" "ParseSegmentSequence n = Some q"
  shows "0 < q" "q \<le> length (segs d)" "fst (segs d ! (q - 1)) = n"
proof -
  obtain x where "(n, x) \<in> set (segs d)" using segs_names [OF assms(2,3)] by blast
  then obtain i where "i < length (segs d)" "segs d ! i = (n, x)" "ParseSegmentSequence n = Some (i + 1)"
    by (rule chained_seq [OF assms(1)]) simp
  with assms(3) show "0 < q" "q \<le> length (segs d)" "fst (segs d ! (q - 1)) = n" by auto
qed

lemma segs_set: "en \<in> set (segs d) \<Longrightarrow> en \<in> set d"
  by (simp add: segs_def)

lemma OpenWriter_linked:
  assumes c: "chained e d" and O: "OpenWriter e fl t d = (Inr w, d')"
  shows "w_nextSeq w = length (segs d) + 1" "w_prevHash w = prev_digest e d (length (segs d))"
proof -
  define k where "k = length (segs d)"
  from OpenWriter_writer [OF O] have w: "w_nextSeq w = highestSequence d + 1"
    "latestSegmentHashByName e d = Inr (w_prevHash w)" by auto
  obtain bn bq where b: "foldl better_name ('''', 0) (ReadDir d) = (bn, bq)" by fastforce
  from best_name [of "ReadDir d"] have best: "best_of (ReadDir d) (bn, bq)" by (simp add: b)
  have sd: "set (ReadDir d) = set d" by (simp add: ReadDir_def)
  have "highestSequence d = k \<and> w_prevHash w = prev_digest e d k"
  proof (cases k)
    case 0
    then have none: "ParseSegmentSequence n = None" if "n \<in> fst ` set d" for n
      using chained_names [OF c that] by (cases "ParseSegmentSequence n") (auto simp: k_def)
    then have "bn = ''''" using best by (auto simp: best_of_def sd split: prod.splits) (metis fst_conv image_eqI option.distinct(1))
    then have "w_prevHash w = ''''" using w(2) by (simp add: latestSegmentHashByName_def b)
    moreover have "highestSequence d = 0" using highest_name [of d] none by auto
    ultimately show ?thesis using 0 by (simp add: prev_digest_def)
  next
    case (Suc j)
    define en where "en = segs d ! j"
    have j: "j < length (segs d)" using Suc by (simp add: k_def)
    then have en: "en \<in> set (segs d)" by (simp add: en_def)
    from c j obtain m where m: "ReadManifest e d (ManifestPathFor (fst en)) = Some m" "manifest_at e d j m"
      and sq: "fst (seg_of en) = k" by (auto simp: chained_def en_def Suc)
    obtain q where P: "ParseSegmentSequence (fst en) = Some q" using segs_closed [OF en] by blast
    with sq have q: "q = k" by (cases en rule: prod.exhaust) (simp add: seg_of_def)
    have mem: "(fst en, snd en) \<in> set d" using segs_set [OF en] by simp
    have "bn \<noteq> '''' \<and> k \<le> bq" using best mem P unfolding best_of_def sd q by blast
    then have "k \<le> bq" "bn \<noteq> ''''" by simp_all
    moreover from this best have bn: "bn \<in> fst ` set d" "ParseSegmentSequence bn = Some bq" by (auto simp: best_of_def sd)
    ultimately have "bq = k" using chained_names(2) [OF c bn] by (simp add: k_def)
    then have "bn = fst en" using chained_names(3) [OF c bn] by (simp add: en_def Suc)
    then have "w_prevHash w = sm_SHA256 m" using w(2) m(1) \<open>bn \<noteq> ''''\<close> by (simp add: latestSegmentHashByName_def b)
    then have "w_prevHash w = prev_digest e d k" using m(2) by (simp add: manifest_at_def prev_digest_def Suc)
    moreover have "k \<le> highestSequence d" using highestSequence_ge(1) [OF mem] P q by simp
    moreover have "highestSequence d \<le> k" using highest_name [of d] chained_names(2) [OF c] by (auto simp: k_def)
    ultimately show ?thesis by simp
  qed
  with w show "w_nextSeq w = length (segs d) + 1" "w_prevHash w = prev_digest e d (length (segs d))"
    by (simp_all add: k_def)
qed

text \<open>The invariant of a log without those faults, over the one of AuditLog.\<close>

definition chain_ok_dir :: "env \<Rightarrow> dir \<Rightarrow> writer \<Rightarrow> string list \<Rightarrow> bool" where
  "chain_ok_dir e d w ps \<longleftrightarrow> log_ok d w ps \<and> chained e d \<and> linked e d w"

definition chain_inv :: "env \<Rightarrow> system \<Rightarrow> bool" where
  "chain_inv e s \<longleftrightarrow> log_inv s \<and> (good_env e \<longrightarrow> chained e (sy_dir s) \<and>
     (\<forall>w. sy_writer s = Some w \<longrightarrow> linked e (sy_dir s) w))"

lemma linked_keeps:
  "linked e d w \<Longrightarrow> segs d' = segs d \<Longrightarrow> w_nextSeq w' = w_nextSeq w \<Longrightarrow> w_prevHash w' = w_prevHash w \<Longrightarrow>
     w_open w' \<longrightarrow> w_open w \<Longrightarrow> linked e d' w'"
  by (simp add: linked_def prev_digest_def)

lemma rotateLocked_chain:
  assumes R: "rotateLocked e fl t w d = (err, w', d')" and s: "safe_faults fl" and e: "good_env e"
    and ok: "chain_ok_dir e d w ps" and q: "in_range t w"
  shows "chain_ok_dir e d' w' ps"
proof (cases "w_open w")
  case False
  with R ok show ?thesis by (auto simp: rotateLocked_def)
next
  case True
  from ok have lok: "log_ok d w ps" and c: "chained e d" and l: "linked e d w" by (simp_all add: chain_ok_dir_def)
  from lok have lok': "log_ok d' w' ps" by (rule rotateLocked_inv [OF R _ q])
  from lok True have wf: "wf_dir d" and fr: "\<forall>en \<in> set (segs d). fst (seg_of en) < w_nextSeq w"
    by (simp_all add: log_ok_def fresh_def)
  from l True have l': "w_nextSeq w = length (segs d) + 1" "w_prevHash w = prev_digest e d (length (segs d))"
    by (simp_all add: linked_def)
  from rotate_cases [OF R] have "chained e d' \<and> linked e d' w'"
  proof (elim disjE conjE)
    assume d': "d' = d" and "w_nextSeq w' = w_nextSeq w" "w_prevHash w' = w_prevHash w"
    with c l' show ?thesis by (simp add: linked_def)
  next
    assume r: "reopened e fl t w d d'" and "w_nextSeq w' = w_nextSeq w" "w_prevHash w' = w_prevHash w"
    with l' keeps_reopened [OF r] have "linked e d' w'" by (simp add: linked_def prev_digest_def keeps_def)
    with chained_reopened [OF r s c q fr] show ?thesis by simp
  next
    assume "fl (Hook RotateAfterManifest)"
    with s show ?thesis by (simp add: safe_faults_def)
  next
    assume "fl (Hook RotateBeforeSegmentRename)"
    with s show ?thesis by (simp add: safe_faults_def)
  next
    assume C: "rotated e fl t w w' d d'"
    then obtain d1 where M: "moved e t w d d1" and d': "d' = d1 \<and> \<not> w_open w' \<or> d' = snd (open_active fl t d1) \<and>
        w_nextSeq w' = (w_nextSeq w + 1) mod 2 ^ 64 \<and> w_prevHash w' = HashBytes e (active_text d)"
      by (auto simp: rotated_def)
    from q have q': "w_nextSeq w < 1000000" "clock_ok (at_close t)" by (simp_all add: in_range_def)
    from moved_log(1) [OF M wf q' fr] obtain tt where
      S: "segs d1 = segs d @ [(FormatSegmentName (w_nextSeq w) (at_close t), RegularFile (active_text d) tt)]" by blast
    from chained_moved [OF M e c q wf fr l' S] have c1: "chained e d1" .
    have "prev_digest e d1 (length (segs d1)) = HashBytes e (active_text d)"
      by (simp add: prev_digest_def S snd_seg_of)
    with d' c1 q' l'(1) S keeps_open [of d1 fl t] chained_open [OF c1, of fl t] show ?thesis
      by (auto simp: linked_def prev_digest_def keeps_def)
  qed
  with lok' show ?thesis by (simp add: chain_ok_dir_def)
qed

lemma maybeRotateLocked_chain:
  assumes "maybeRotateLocked e cfg fl t n w d = (err, w', d')" "safe_faults fl" "good_env e" "chain_ok_dir e d w ps" "in_range t w"
  shows "chain_ok_dir e d' w' ps"
  using assms by (auto simp: maybeRotateLocked_def split: if_splits intro: rotateLocked_chain)

lemma WriteRecord_chain:
  assumes W: "WriteRecord e cfg fl wr t r w d = (err, w', d')" and s: "safe_faults fl" and e: "good_env e"
    and ok: "chain_ok_dir e d w ps" and q: "in_range t w"
  shows "chained e d' \<and> linked e d' w'"
proof -
  obtain er w1 d1 where M: "maybeRotateLocked e cfg fl t (length (with_newline r)) w d = (er, w1, d1)"
    using prod_cases3 by blast
  have ok1: "chain_ok_dir e d1 w1 ps" by (rule maybeRotateLocked_chain [OF M s e ok q])
  show ?thesis using W M ok ok1
    by (auto simp: WriteRecord_def Let_def chain_ok_dir_def chained_append append_log(1)
        intro: linked_keeps split: if_splits option.splits)
qed

lemma Close_chain:
  assumes C: "Close e fl t w d = (err, w', d')" and s: "safe_faults fl" and e: "good_env e"
    and ok: "chain_ok_dir e d w ps" and q: "in_range t w"
  shows "chained e d' \<and> linked e d' w'"
proof -
  obtain er w1 d1 where R: "rotateLocked e fl t w d = (er, w1, d1)" using prod_cases3 by blast
  have "chain_ok_dir e d1 w1 ps" by (rule rotateLocked_chain [OF R s e ok q])
  with C R ok show ?thesis
    by (auto simp: Close_def chain_ok_dir_def linked_def split: if_splits option.splits)
qed

lemma chain_step:
  assumes inv: "chain_inv e s" and step: "log_step e cfg safe_faults s s'"
  shows "chain_inv e s'"
proof -
  have li: "log_inv s'" using inv step by (auto simp: chain_inv_def intro: log_step_inv)
  have ok: "chain_ok_dir e (sy_dir s) w (sy_written s)" if "good_env e" "sy_writer s = Some w" for w
    using inv that by (simp add: chain_inv_def chain_ok_dir_def log_ok_def log_inv_def)
  have "chained e (sy_dir s') \<and> (\<forall>w. sy_writer s' = Some w \<longrightarrow> linked e (sy_dir s') w)" if e: "good_env e"
    using step
  proof cases
    case (opens fl t w d)
    have c: "chained e (sy_dir s)" using inv e by (simp add: chain_inv_def)
    from OpenWriter_dir [OF opens(3)] have d: "d = sy_dir s \<or> d = snd (open_active fl t (sy_dir s))" .
    then have "segs d = segs (sy_dir s)" using keeps_open by (auto simp: keeps_def)
    with d c OpenWriter_linked [OF c opens(3)] opens(1) show ?thesis
      by (auto simp: linked_def prev_digest_def intro: chained_open)
  next
    case (opens_not fl t er d)
    have "chained e (sy_dir s)" using inv e by (simp add: chain_inv_def)
    with OpenWriter_dir [OF opens_not(3)] opens_not(1) show ?thesis by (auto intro: chained_open)
  next
    case crashes
    with inv e show ?thesis by (simp add: chain_inv_def)
  next
    case (writes fl w t wr r err w' d)
    from WriteRecord_chain [OF writes(5) writes(2) e ok [OF e writes(3)] writes(4)] writes(1) show ?thesis by simp
  next
    case (rotates fl w t err w' d)
    from rotateLocked_chain [OF rotates(5) [unfolded Rotate_def] rotates(2) e ok [OF e rotates(3)] rotates(4)] rotates(1)
    show ?thesis by (simp add: chain_ok_dir_def)
  next
    case (closes fl w t err w' d)
    from Close_chain [OF closes(5) closes(2) e ok [OF e closes(3)] closes(4)] closes(1) show ?thesis by simp
  qed
  with li show ?thesis by (simp add: chain_inv_def)
qed

interpretation chain: machine new_log "log_step e cfg safe_faults" "chain_inv e" for e cfg
proof
  show "chain_inv e s" if "new_log s" for s
  proof -
    have "log_inv s" by (rule log.init_inv [OF that])
    with that show ?thesis by (simp add: chain_inv_def new_log_def chained_def segs_def)
  qed
qed (rule chain_step)

section \<open>Reachable logs are valid\<close>

definition seg_info :: "env \<Rightarrow> dir \<Rightarrow> string \<times> node \<Rightarrow> segment_info" where
  "seg_info e d en = (case en of (n, x) \<Rightarrow>
     (case x of RegularFile s t \<Rightarrow> info_of n s t (the (ReadManifest e d (ManifestPathFor n)))
      | SubDir \<Rightarrow> info_of n '''' 0 (the (ReadManifest e d (ManifestPathFor n)))))"

lemma seg_info_path [simp]: "si_Path (seg_info e d en) = fst en"
  "si_ManifestPath (seg_info e d en) = ManifestPathFor (fst en)"
  "si_Manifest (seg_info e d en) = the (ReadManifest e d (ManifestPathFor (fst en)))"
  by (cases en rule: prod.exhaust; simp add: seg_info_def info_of_def split: node.split)+

lemma list_entries_all:
  "(\<And>n x. (n, x) \<in> set l \<Longrightarrow> IsClosedSegmentName n \<Longrightarrow> x \<noteq> SubDir \<and> ReadManifest e d (ManifestPathFor n) \<noteq> None) \<Longrightarrow>
     list_entries e d l = Inr (map (seg_info e d) (segs l))"
proof (induction l)
  case (Cons a l)
  obtain n x where a: "a = (n, x)" by fastforce
  have IH: "list_entries e d l = Inr (map (seg_info e d) (segs l))" by (rule Cons.IH) (use Cons.prems in auto)
  show ?case
  proof (cases x)
    case (RegularFile s t)
    with IH Cons.prems [of n x] show ?thesis by (auto simp: a segs_def seg_info_def split: option.splits)
  next
    case SubDir
    with IH Cons.prems [of n x] show ?thesis by (auto simp: a segs_def)
  qed
qed (simp add: segs_def)

lemma chained_manifest:
  assumes "chained e d" "i < length (segs d)"
  obtains m where "ReadManifest e d (ManifestPathFor (fst (segs d ! i))) = Some m" "manifest_at e d i m"
  using assms by (auto simp: chained_def)


lemma ListSegments_chained:
  assumes c: "chained e d" and wf: "wf_dir d"
  shows "ListSegments e d = Inr (map (seg_info e d) (segs d))"
proof -
  have ent: "x \<noteq> SubDir \<and> ReadManifest e d (ManifestPathFor n) \<noteq> None" if en: "(n, x) \<in> set (segs d)" for n x
  proof -
    obtain i where i: "i < length (segs d)" "segs d ! i = (n, x)" using en by (auto simp: in_set_conv_nth)
    from chained_manifest [OF c i(1)] obtain m where "ReadManifest e d (ManifestPathFor n) = Some m" by (auto simp: i)
    with wf en show ?thesis by (auto simp: wf_dir_def)
  qed
  have "list_entries e d (ReadDir d) = Inr (map (seg_info e d) (segs (ReadDir d)))"
    by (rule list_entries_all) (use ent in \<open>auto simp: ReadDir_def segs_def\<close>)
  moreover have "sort_key seg_key (map (seg_info e d) (segs (ReadDir d))) = map (seg_info e d) (segs d)"
  proof (rule sort_key_inj_key_eq)
    show "mset (map (seg_info e d) (segs (ReadDir d))) = mset (map (seg_info e d) (segs d))"
      by (simp add: segs_def ReadDir_def)
    have key: "seg_key (seg_info e d (segs d ! i)) = (i + 1, fst (segs d ! i))" if i: "i < length (segs d)" for i
      using chained_manifest [OF c i] by (force simp: seg_key_def manifest_at_def)
    show "sorted (map seg_key (map (seg_info e d) (segs d)))"
      by (auto simp: sorted_iff_nth_mono key less_eq_prod_def le_less)
    show "inj_on seg_key (set (map (seg_info e d) (segs (ReadDir d))))"
    proof -
      have "set (map (seg_info e d) (segs (ReadDir d))) = set (map (seg_info e d) (segs d))"
        by (simp add: segs_def ReadDir_def)
      moreover have "inj_on seg_key (set (map (seg_info e d) (segs d)))"
      proof (rule inj_onI)
        fix a b
        assume "a \<in> set (map (seg_info e d) (segs d))" "b \<in> set (map (seg_info e d) (segs d))" and eq: "seg_key a = seg_key b"
        then obtain i j where i: "i < length (segs d)" "a = seg_info e d (segs d ! i)"
          and j: "j < length (segs d)" "b = seg_info e d (segs d ! j)" by (auto simp: in_set_conv_nth simp del: seg_info_path)
        from eq key [OF i(1)] key [OF j(1)] i j show "a = b" by simp
      qed
      ultimately show ?thesis by simp
    qed
  qed
  ultimately show ?thesis by (simp add: ListSegments_def)
qed

lemma segs_few: "chained e d \<Longrightarrow> length (segs d) < 1000000"
proof (rule ccontr)
  assume c: "chained e d" and "\<not> length (segs d) < 1000000"
  then have i: "999999 < length (segs d)" by simp
  define en where "en = segs d ! 999999"
  have "en \<in> set (segs d)" using i by (simp add: en_def)
  then obtain q where q: "ParseSegmentSequence (fst en) = Some q" using segs_closed by blast
  moreover have "fst (seg_of en) = 1000000" using c i by (simp add: chained_def en_def)
  ultimately have "q = 1000000" by (cases en rule: prod.exhaust) (simp add: seg_of_def)
  with ParseSegmentSequence_bound [OF q] show False by simp
qed

lemma seg_digest:
  assumes wf: "wf_dir d" and en: "en \<in> set (segs d)"
  shows "HashFile e d (fst en) = Some (HashBytes e (snd (seg_of en)))"
proof -
  from wf en obtain s t where x: "snd en = RegularFile s t" by (cases "snd en") (auto simp: wf_dir_def)
  from en have "en \<in> set d" by (rule segs_set)
  with wf x have "map_of d (fst en) = Some (RegularFile s t)"
    by (metis map_of_is_SomeI prod.collapse wf_dir_def wf_names_def)
  with x show ?thesis by (cases en rule: prod.exhaust) (simp add: HashFile_def read_file_def snd_seg_of)
qed

lemma chain_ok_chained:
  assumes c: "chained e d" and wf: "wf_dir d" and e: "good_env e"
  shows "i \<le> length (segs d) \<Longrightarrow>
    chain_ok e d i (i + 1) (prev_digest e d i) (map (seg_info e d) (drop i (segs d)))"
proof (induction "length (segs d) - i" arbitrary: i)
  case 0
  then show ?case by simp
next
  case (Suc k)
  then have i: "i < length (segs d)" by simp
  define en where "en = segs d ! i"
  have D: "drop i (segs d) = en # drop (i + 1) (segs d)" using i by (simp add: en_def Cons_nth_drop_Suc)
  have en: "en \<in> set (segs d)" using i by (simp add: en_def)
  obtain m where m: "ReadManifest e d (ManifestPathFor (fst en)) = Some m" "manifest_at e d i m"
    using chained_manifest [OF c i] by (auto simp: en_def)
  have nxt: "prev_digest e d (i + 1) = HashBytes e (snd (seg_of en))" by (simp add: prev_digest_def en_def)
  have "(i + 1 + 1) mod 2 ^ 64 = i + 1 + 1" using i segs_few [OF c] by simp
  moreover have "seg_ok e d i (i + 1) (prev_digest e d i) (seg_info e d en) (HashBytes e (snd (seg_of en)))"
    using m seg_digest [OF wf en] HashBytes_valid [OF e]
    by (auto simp: seg_ok_def Let_def manifest_at_def schema_ok_def link_ok_def equal_fold_def prev_digest_def en_def)
  moreover have "chain_ok e d (i + 1) (i + 1 + 1) (prev_digest e d (i + 1)) (map (seg_info e d) (drop (i + 1) (segs d)))"
    using Suc i by (intro Suc.hyps(1)) simp_all
  ultimately show ?case using seg_digest [OF wf en] unfolding nxt by (simp add: D)
qed

text \<open>The state of the loop at the end of a valid directory.\<close>

lemma verify_loop_state:
  "chain_ok e d i (vs_expect st) (vs_prev st) ss \<Longrightarrow>
     vs_Checked (verify_loop e d i ss st) = vs_Checked st + length ss \<and>
     vs_Last (verify_loop e d i ss st) = (if ss = [] then vs_Last st else the (HashFile e d (si_Path (last ss)))) \<and>
     vs_First (verify_loop e d i ss st) = (if i = 0 \<and> ss \<noteq> [] then the (HashFile e d (si_Path (hd ss))) else vs_First st)"
proof (induction ss arbitrary: i st)
  case (Cons s ss)
  then obtain h where h: "HashFile e d (si_Path s) = Some h" "seg_ok e d i (vs_expect st) (vs_prev st) s h"
    and c: "chain_ok e d (i + 1) ((vs_expect st + 1) mod 2 ^ 64) h ss" by (auto split: option.splits)
  note T = verify_turn_state [OF h(2)]
  have "chain_ok e d (i + 1) (vs_expect (verify_turn e d i s st)) (vs_prev (verify_turn e d i s st)) ss"
    using c by (simp only: T)
  from Cons.IH [OF this] h(1) T show ?case by (cases "i = 0") simp_all
qed simp

lemma file_names_set: "n \<in> set (file_names d) \<longleftrightarrow> (\<exists>x. (n, x) \<in> set d \<and> x \<noteq> SubDir)"
  by (force simp: file_names_def ReadDir_def)

lemma manifest_body_segment:
  "ParseSegmentSequence n = Some q \<Longrightarrow> manifest_body (ManifestPathFor n) = n"
  using segment_name_stem [of n q]
  by (simp add: manifest_body_def trim_suffix_def has_suffix_def)

lemma no_manifest_chained:
  assumes c: "chained e d" and wf: "wf_dir d"
  shows "no_manifest d (body_names d) = []"
proof -
  have "body_manifest n \<in> set (manifest_names d)" if "n \<in> set (body_names d)" for n
  proof -
    from that obtain x q where "(n, x) \<in> set d" and P: "ParseSegmentSequence n = Some q"
      by (auto simp: body_names_def file_names_set)
    then have "n \<in> fst ` set d" by force
    from chained_names [OF c this P] obtain i where i: "i < length (segs d)" "fst (segs d ! i) = n"
      by (metis Suc_diff_1 less_eq_Suc_le)
    from chained_manifest [OF c i(1)] i(2) obtain m where "ReadManifest e d (ManifestPathFor n) = Some m" by auto
    then obtain s t where "map_of d (ManifestPathFor n) = Some (RegularFile s t)"
      by (auto simp: ReadManifest_def read_file_def split: option.splits node.splits)
    then have "ManifestPathFor n \<in> set (file_names d)" by (auto simp: file_names_set dest: map_of_SomeD)
    then show ?thesis by (simp add: manifest_names_def body_manifest_def flip: ManifestPathFor_def)
  qed
  then show ?thesis by (auto simp: no_manifest_def filter_empty_conv)
qed

lemma no_segment_chained:
  assumes c: "chained e d" and wf: "wf_dir d" and ord: "\<And>xs. mset (ord xs) = mset xs"
  shows "no_segment ord d = []"
proof -
  have "manifest_body m \<in> set (body_names d)" if "m \<in> set (manifest_names d)" for m
  proof -
    from that obtain x where "(m, x) \<in> set d" and suf: "has_suffix m ManifestSuffix"
      by (auto simp: manifest_names_def file_names_set)
    then have "m \<in> fst ` set d" by force
    then have "map_of d m \<noteq> None" by (simp add: map_of_eq_None_iff)
    with c suf have "m \<in> ManifestPathFor ` fst ` set (segs d)" unfolding chained_def by blast
    then obtain en where en: "en \<in> set (segs d)" "m = ManifestPathFor (fst en)" by auto
    obtain q where P: "ParseSegmentSequence (fst en) = Some q" using segs_closed [OF en(1)] by blast
    have "snd en \<noteq> SubDir" using wf en(1) by (simp add: wf_dir_def)
    with segs_set [OF en(1)] have "fst en \<in> set (file_names d)" by (auto simp: file_names_set) (metis prod.collapse)
    with P segment_not_manifest [OF P] show ?thesis
      by (simp add: en(2) manifest_body_segment [OF P] body_names_def)
  qed
  moreover have "set (ord xs) = set xs" for xs using ord [of xs] by (metis set_mset_mset)
  ultimately show ?thesis by (auto simp: no_segment_def filter_empty_conv)
qed

lemma chained_result:
  assumes e: "good_env e" and c: "chained e d" and wf: "wf_dir d" and ord: "\<And>xs. mset (ord xs) = mset xs"
  shows "VerifyDirectory e ord d =
      \<lparr>dr_Valid = True, dr_SegmentsChecked = length (log_segments d), dr_ChainValid = True,
       dr_ActivePresent = active_present d, dr_Issues = [],
       dr_FirstSegmentHash = (if log_segments d = [] then '''' else HashBytes e (snd (hd (log_segments d)))),
       dr_LastSegmentHash = (if log_segments d = [] then '''' else HashBytes e (snd (last (log_segments d))))\<rparr>"
proof -
  have ls: "log_segments d = map seg_of (segs d)" by (rule log_segments_wf [OF wf])
  have L: "ListSegments e d = Inr (map (seg_info e d) (segs d))" by (rule ListSegments_chained [OF c wf])
  have pre: "no_manifest d (body_names d) @ no_segment ord d = []"
    using no_manifest_chained [OF c wf] no_segment_chained [OF c wf ord] by simp
  define st where "st = \<lparr>vs_Issues = ([] :: audit_issue list), vs_Chain = True, vs_prev = '''', vs_expect = 1,
    vs_First = '''', vs_Last = '''', vs_Checked = 0\<rparr>"
  have ok: "chain_ok e d 0 (vs_expect st) (vs_prev st) (map (seg_info e d) (segs d))"
    using chain_ok_chained [OF c wf e, of 0] by (simp add: st_def prev_digest_def)
  note V = verify_loop_state [OF ok]
  have I: "vs_Issues (verify_loop e d 0 (map (seg_info e d) (segs d)) st) = []"
    using ok by (simp add: verify_loop_issues) (simp add: st_def)
  have R: "VerifyDirectory e ord d = (let st = verify_loop e d 0 (map (seg_info e d) (segs d)) st in
      \<lparr>dr_Valid = (vs_Issues st = []), dr_SegmentsChecked = vs_Checked st,
       dr_ChainValid = (if vs_Issues st = [] then True else vs_Chain st), dr_ActivePresent = active_present d,
       dr_Issues = vs_Issues st, dr_FirstSegmentHash = vs_First st, dr_LastSegmentHash = vs_Last st\<rparr>)"
    unfolding VerifyDirectory_def L pre by (simp add: st_def)
  have hash: "the (HashFile e d (fst en)) = HashBytes e (snd (seg_of en))" if "en \<in> set (segs d)" for en
    using seg_digest [OF wf that] by simp
  show ?thesis
  proof (cases "segs d = []")
    case True
    with R V I show ?thesis by (simp add: ls Let_def st_def)
  next
    case False
    then have "hd (segs d) \<in> set (segs d)" "last (segs d) \<in> set (segs d)" by simp_all
    with False R V I hash show ?thesis
      by (simp add: ls Let_def hd_map last_map st_def)
  qed
qed

lemma written_log_chained:
  assumes "good_env e" "reachable new_log (log_step e cfg safe_faults) s"
  shows "chained e (sy_dir s)" "wf_dir (sy_dir s)"
proof -
  have "chain_inv e s" by (rule chain.reachable_inv [OF assms(2)])
  with assms(1) show "chained e (sy_dir s)" "wf_dir (sy_dir s)" by (simp_all add: chain_inv_def log_inv_def)
qed


lemma safe_no_faults: "safe_faults no_faults"
  by (simp add: safe_faults_def no_faults_def)

lemma demo_marshal_total: "marshal demo_env m \<noteq> None"
  by (simp add: demo_env_def)

text \<open>A log of the given records, one segment each, with the parameters of AuditLog.\<close>

lemma demo_log:
  assumes "\<forall>r \<in> set rs. r \<noteq> ''''" "length rs < 999999"
  obtains s where "reachable new_log (log_step demo_env \<lparr>MaxSizeBytes = 0, MaxAge = 0\<rparr> safe_faults) s"
    "map snd (log_segments (sy_dir s)) = map with_newline rs"
  by (rule run_segments [where ok = safe_faults and cfg = "\<lparr>MaxSizeBytes = 0, MaxAge = 0\<rparr>", OF demo_marshal_total safe_no_faults assms])
    (rule that)


lemma digests_chained:
  assumes "wf_dir d"
  shows "digests e d (map (seg_info e d) (segs d)) = map (\<lambda>x. Some (HashBytes e (snd x))) (log_segments d)"
  using seg_digest [OF assms] by (simp add: digests_def log_segments_wf [OF assms])

text \<open>Two records that are the same, in a segment each: the log is valid, with the empty policy it is not.\<close>

lemma policy_equivalence_witness:
  "\<exists>s :: system. map snd (log_segments (sy_dir s)) = [''aa\<newline>'', ''aa\<newline>''] \<and>
    dr_Valid (VerifyDirectory demo_env rev (sy_dir s)) \<and>
    \<not> pr_Valid (VerifyDirectoryWithPolicy demo_env (\<lambda>xs. xs) 0 no_policy (sy_dir s))"
proof -
  obtain s where s: "reachable new_log (log_step demo_env \<lparr>MaxSizeBytes = 0, MaxAge = 0\<rparr> safe_faults) s"
    "map snd (log_segments (sy_dir s)) = map with_newline [''aa'', ''aa'']"
    by (rule demo_log [of "[''aa'', ''aa'']"]) simp_all
  then have l: "map snd (log_segments (sy_dir s)) = [''aa\<newline>'', ''aa\<newline>'']" by (simp add: with_newline_def)
  note c = written_log_chained [OF demo_env_good s(1)]
  have "dr_Valid (VerifyDirectory demo_env rev (sy_dir s))" using chained_result [OF demo_env_good c, of rev] by simp
  moreover have "\<not> distinct (digests demo_env (sy_dir s) ss)" if "ListSegments demo_env (sy_dir s) = Inr ss" for ss
  proof -
    from that have "ss = map (seg_info demo_env (sy_dir s)) (segs (sy_dir s))" using ListSegments_chained [OF c] by simp
    then have "digests demo_env (sy_dir s) ss = map (\<lambda>b. Some (HashBytes demo_env b)) (map snd (log_segments (sy_dir s)))"
      using digests_chained [OF c(2)] by simp
    then show ?thesis unfolding l by simp
  qed
  ultimately show ?thesis using l policy_equivalence [of "\<lambda>xs. xs" rev demo_env 0 "sy_dir s"]
    by (intro exI [of _ s]) auto
qed

section \<open>What the chain does not protect\<close>

text \<open>C0. The result of the verification does not depend on what is between the first and the last
  segment: two logs with as many segments, the same first and the same last one have the same result,
  digests included. A manifest holds the digest of the body before it, and no digest covers a manifest.
\<close>

theorem rewritten_history_verifies:
  assumes "good_env e" and "\<And>xs. mset (ord xs) = mset xs"
    and "reachable new_log (log_step e cfg safe_faults) s" "reachable new_log (log_step e cfg' safe_faults) s'"
    and "map snd (log_segments (sy_dir s)) = a # xs @ [b]" "map snd (log_segments (sy_dir s')) = a # ys @ [b]"
    and "length xs = length ys"
  shows "VerifyDirectory e ord (sy_dir s') =
    (VerifyDirectory e ord (sy_dir s))\<lparr>dr_ActivePresent := active_present (sy_dir s')\<rparr> \<and>
    dr_Valid (VerifyDirectory e ord (sy_dir s'))"
proof -
  have ends: "snd (hd l) = a" "snd (last l) = b" "l \<noteq> []" "length l = length zs + 2"
    if "map snd l = a # zs @ [b]" for l :: "(nat \<times> string) list" and zs
  proof -
    from that show ne: "l \<noteq> []" by auto
    with that show "snd (hd l) = a" by (metis list.map_sel(1) list.sel(1))
    from ne that show "snd (last l) = b" by (metis last_ConsR last_map last_snoc list.distinct(1) append_is_Nil_conv)
    from that have "length (map snd l) = length (a # zs @ [b])" by simp
    then show "length l = length zs + 2" by simp
  qed
  note V = chained_result [OF assms(1) written_log_chained [OF assms(1,3)] assms(2)]
    chained_result [OF assms(1) written_log_chained [OF assms(1,4)] assms(2)]
  show ?thesis using V ends [OF assms(5)] ends [OF assms(6)] assms(7) by simp
qed

lemma rewritten_history_verifies_witness:
  "\<exists>(s :: system) (s' :: system). map snd (log_segments (sy_dir s)) = [''aa\<newline>'', ''b\<newline>'', ''c\<newline>''] \<and>
    map snd (log_segments (sy_dir s')) = [''aa\<newline>'', ''x\<newline>'', ''c\<newline>''] \<and>
    VerifyDirectory demo_env (\<lambda>xs. xs) (sy_dir s') =
      (VerifyDirectory demo_env (\<lambda>xs. xs) (sy_dir s))\<lparr>dr_ActivePresent := active_present (sy_dir s')\<rparr>"
proof -
  obtain s where s: "reachable new_log (log_step demo_env \<lparr>MaxSizeBytes = 0, MaxAge = 0\<rparr> safe_faults) s"
    "map snd (log_segments (sy_dir s)) = map with_newline [''aa'', ''b'', ''c'']"
    by (rule demo_log [of "[''aa'', ''b'', ''c'']"]) simp_all
  obtain s' where s': "reachable new_log (log_step demo_env \<lparr>MaxSizeBytes = 0, MaxAge = 0\<rparr> safe_faults) s'"
    "map snd (log_segments (sy_dir s')) = map with_newline [''aa'', ''x'', ''c'']"
    by (rule demo_log [of "[''aa'', ''x'', ''c'']"]) simp_all
  have l: "map snd (log_segments (sy_dir s)) = ''aa\<newline>'' # [''b\<newline>''] @ [''c\<newline>'']"
    "map snd (log_segments (sy_dir s')) = ''aa\<newline>'' # [''x\<newline>''] @ [''c\<newline>'']"
    using s(2) s'(2) by (simp_all add: with_newline_def)
  from rewritten_history_verifies [OF demo_env_good _ s(1) s'(1) l, of "\<lambda>xs. xs"] l show ?thesis
    by (intro exI [of _ s] exI [of _ s']) simp
qed

section \<open>Retention\<close>

text \<open>The passes in terms of lists: what the count leaves, and what the sizes add up to.\<close>

lemma count_pass_grows: "rs \<subseteq> count_pass mx kept l rs"
  by (induction mx kept l rs rule: count_pass.induct) auto

lemma count_pass_only: "count_pass mx kept l rs \<subseteq> rs \<union> si_Path ` set l"
  by (induction mx kept l rs rule: count_pass.induct) auto

lemma size_pass_grows: "rs \<subseteq> size_pass mx used l rs"
  by (induction mx used l rs rule: size_pass.induct) auto

lemma size_pass_only: "size_pass mx used l rs \<subseteq> rs \<union> si_Path ` set l"
  by (induction mx used l rs rule: size_pass.induct) auto

lemma filter_drop_paths:
  assumes "distinct (map si_Path l)"
  shows "filter (\<lambda>s. si_Path s \<notin> si_Path ` set (drop n l)) l = take n l"
proof -
  have "distinct (map si_Path (take n l @ drop n l))" using assms by simp
  then have "si_Path ` set (take n l) \<inter> si_Path ` set (drop n l) = {}" by (simp only: map_append distinct_append set_map)
  then have "filter (\<lambda>s. si_Path s \<notin> si_Path ` set (drop n l)) (take n l) = take n l"
    "filter (\<lambda>s. si_Path s \<notin> si_Path ` set (drop n l)) (drop n l) = []"
    by (auto simp: filter_id_conv filter_empty_conv)
  then show ?thesis by (metis append_Nil2 append_take_drop_id filter_append)
qed

text \<open>The newest segments stay, as many as the budget still allows.\<close>

lemma count_pass_drop:
  "distinct (map si_Path l) \<Longrightarrow>
     count_pass mx kept l rs = rs \<union> si_Path ` set (drop (nat (mx - kept)) (filter (\<lambda>s. si_Path s \<notin> rs) l))"
proof (induction l arbitrary: kept rs)
  case (Cons s l)
  have new: "filter (\<lambda>x. si_Path x \<notin> insert (si_Path s) rs) l = filter (\<lambda>x. si_Path x \<notin> rs) l"
  proof (rule filter_cong)
    fix x assume "x \<in> set l"
    moreover have "si_Path s \<notin> si_Path ` set l" using Cons.prems by simp
    ultimately have "si_Path x \<noteq> si_Path s" by (metis image_eqI)
    then show "(si_Path x \<notin> insert (si_Path s) rs) = (si_Path x \<notin> rs)" by simp
  qed simp
  consider "si_Path s \<in> rs" | "si_Path s \<notin> rs" "kept + 1 > mx" | "si_Path s \<notin> rs" "kept + 1 \<le> mx" by linarith
  then show ?case
  proof cases
    case 1
    with Cons show ?thesis by simp
  next
    case 2
    then have z: "nat (mx - kept) = 0" "nat (mx - (kept + 1)) = 0" by simp_all
    have "count_pass mx (kept + 1) l (insert (si_Path s) rs) = insert (si_Path s) rs \<union>
        si_Path ` set (drop (nat (mx - (kept + 1))) (filter (\<lambda>x. si_Path x \<notin> rs) l))"
      unfolding new [symmetric] by (rule Cons.IH) (use Cons.prems in simp)
    with 2 z show ?thesis by simp
  next
    case 3
    then have "nat (mx - kept) = Suc (nat (mx - (kept + 1)))" by simp
    with 3 Cons show ?thesis by simp
  qed
qed simp

lemma count_pass_filter:
  assumes "distinct (map si_Path l)"
  shows "filter (\<lambda>s. si_Path s \<notin> count_pass mx kept l rs) l = take (nat (mx - kept)) (filter (\<lambda>s. si_Path s \<notin> rs) l)"
proof -
  define xs where "xs = filter (\<lambda>s. si_Path s \<notin> rs) l"
  have "distinct (map si_Path xs)" using assms by (simp add: xs_def distinct_map_filter)
  from filter_drop_paths [OF this, of "nat (mx - kept)"] show ?thesis
    unfolding count_pass_drop [OF assms] xs_def by (simp add: conj_commute)
qed

lemma size_pass_bound:
  "distinct (map si_Path l) \<Longrightarrow> used \<le> mx \<Longrightarrow>
     used + int (sum_list (map si_SizeBytes (filter (\<lambda>s. si_Path s \<notin> size_pass mx used l rs) l))) \<le> mx"
proof (induction l arbitrary: used rs)
  case (Cons s l)
  have new: "si_Path s \<notin> si_Path ` set l" using Cons.prems by simp
  consider "si_Path s \<in> rs" | "si_Path s \<notin> rs" "used + int (si_SizeBytes s) > mx"
    | "si_Path s \<notin> rs" "used + int (si_SizeBytes s) \<le> mx" by linarith
  then show ?case
  proof cases
    case 1
    with Cons size_pass_grows [of rs mx used l] show ?thesis by auto
  next
    case 2
    with Cons size_pass_grows [of "insert (si_Path s) rs" mx used l] show ?thesis by auto
  next
    case 3
    then have "si_Path s \<notin> size_pass mx (used + int (si_SizeBytes s)) l rs"
      using new size_pass_only [of mx "used + int (si_SizeBytes s)" l rs] by auto
    with 3 Cons.IH [of "used + int (si_SizeBytes s)" rs] Cons.prems show ?thesis by simp
  qed
qed simp

lemma filter_perm_length: "mset l = mset l' \<Longrightarrow> length (filter P l) = length (filter P l')"
  by (metis mset_filter size_mset)

lemma filter_perm_sum:
  fixes f :: "'a \<Rightarrow> nat"
  shows "mset l = mset l' \<Longrightarrow> sum_list (map f (filter P l)) = sum_list (map f (filter P l'))"
  by (metis mset_filter mset_map sum_mset_sum_list)

text \<open>
  Retention splits the segments into those kept and those removed, each in the order of their
  numbers, within every budget that is set: no segment kept is too old, at most MaxSegments are kept,
  and their sizes add up to at most MaxSizeBytes.
\<close>

theorem planRetention_budgets:
  assumes "distinct (map si_Path segments)"
  shows "mset (Keep (planRetention segments cfg now) @ Remove (planRetention segments cfg now)) = mset segments \<and>
    sorted (map (\<lambda>s. sm_Sequence (si_Manifest s)) (Keep (planRetention segments cfg now))) \<and>
    sorted (map (\<lambda>s. sm_Sequence (si_Manifest s)) (Remove (planRetention segments cfg now))) \<and>
    (rc_MaxAge cfg > 0 \<longrightarrow> (\<forall>s \<in> set (Keep (planRetention segments cfg now)). now - rc_MaxAge cfg \<le> closed_time s)) \<and>
    (rc_MaxSegments cfg > 0 \<longrightarrow> int (length (Keep (planRetention segments cfg now))) \<le> rc_MaxSegments cfg) \<and>
    (rc_MaxSizeBytes cfg > 0 \<longrightarrow>
       int (sum_list (map si_SizeBytes (Keep (planRetention segments cfg now)))) \<le> rc_MaxSizeBytes cfg)"
proof -
  define l where "l = sort_key (\<lambda>s. sm_Sequence (si_Manifest s)) segments"
  define rs where "rs = removeSet cfg now segments"
  define ordered where "ordered = rev (sort_key seg_key segments)"
  have K: "Keep (planRetention segments cfg now) = filter (\<lambda>s. si_Path s \<notin> rs) l"
    "Remove (planRetention segments cfg now) = filter (\<lambda>s. si_Path s \<in> rs) l"
    by (simp_all add: planRetention_def Let_def l_def rs_def)
  have m: "mset ordered = mset segments" "mset l = mset segments" by (simp_all add: ordered_def l_def)
  have do: "distinct (map si_Path ordered)"
    using assms m(1) by (metis mset_eq_imp_distinct_iff mset_map)
  define r1 where "r1 = (if rc_MaxAge cfg > 0 then age_pass (now - rc_MaxAge cfg) ordered else {})"
  define r2 where "r2 = (if rc_MaxSegments cfg > 0 then count_pass (rc_MaxSegments cfg) 0 ordered r1 else r1)"
  have rs: "rs = (if rc_MaxSizeBytes cfg > 0 then size_pass (rc_MaxSizeBytes cfg) 0 ordered r2 else r2)"
    by (simp add: rs_def removeSet_def Let_def r1_def r2_def ordered_def)
  have sub: "r1 \<subseteq> rs" "r2 \<subseteq> rs" using count_pass_grows size_pass_grows by (fastforce simp: r2_def rs)+
  have len: "length (filter (\<lambda>s. si_Path s \<notin> rs) l) \<le> length (filter (\<lambda>s. si_Path s \<notin> r2) ordered)"
  proof -
    have "length (filter (\<lambda>s. si_Path s \<notin> rs) l) = length (filter (\<lambda>s. si_Path s \<notin> rs) ordered)"
      using m by (intro filter_perm_length) simp
    also have "\<dots> = length (filter (\<lambda>s. si_Path s \<notin> rs) (filter (\<lambda>s. si_Path s \<notin> r2) ordered))"
      using sub(2) by (simp add: filter_filter) (metis (no_types, lifting) filter_cong subsetD)
    also have "\<dots> \<le> length (filter (\<lambda>s. si_Path s \<notin> r2) ordered)" by (rule length_filter_le)
    finally show ?thesis .
  qed
  have "mset (filter (\<lambda>s. si_Path s \<notin> rs) l @ filter (\<lambda>s. si_Path s \<in> rs) l) = mset segments"
    using m(2) multiset_partition [of "mset l" "\<lambda>s. si_Path s \<in> rs"] by simp
  moreover have "sorted (map (\<lambda>s. sm_Sequence (si_Manifest s)) (filter P l))" for P
    unfolding l_def by (rule sorted_filter) simp
  moreover have "now - rc_MaxAge cfg \<le> closed_time s"
    if "rc_MaxAge cfg > 0" "s \<in> set (filter (\<lambda>s. si_Path s \<notin> rs) l)" for s
  proof -
    have "s \<in> set ordered" using that(2) m by (metis filter_is_subset mset_eq_setD subsetD)
    moreover have "si_Path s \<notin> r1" using that(2) sub(1) by auto
    ultimately show ?thesis using that(1) by (force simp: r1_def age_pass_def)
  qed
  moreover have "int (length (filter (\<lambda>s. si_Path s \<notin> rs) l)) \<le> rc_MaxSegments cfg" if "rc_MaxSegments cfg > 0"
    using len that by (simp add: r2_def count_pass_filter [OF do] le_nat_iff)
  moreover have "int (sum_list (map si_SizeBytes (filter (\<lambda>s. si_Path s \<notin> rs) l))) \<le> rc_MaxSizeBytes cfg"
    if "rc_MaxSizeBytes cfg > 0"
  proof -
    have "sum_list (map si_SizeBytes (filter (\<lambda>s. si_Path s \<notin> rs) l)) =
        sum_list (map si_SizeBytes (filter (\<lambda>s. si_Path s \<notin> rs) ordered))"
      using m by (intro filter_perm_sum) simp
    with size_pass_bound [OF do, of 0 "rc_MaxSizeBytes cfg" r2] that show ?thesis by (simp add: rs)
  qed
  ultimately show ?thesis unfolding K by blast
qed

text \<open>Three segments of 20, 100 and 10 bytes against a budget of 50.\<close>

definition demo_segment :: "nat \<Rightarrow> nat \<Rightarrow> segment_info" where
  "demo_segment q n = \<lparr>si_Path = replicate q (CHR ''s''), si_ManifestPath = replicate q (CHR ''m''),
     si_Manifest = \<lparr>sm_SchemaVersion = SchemaVersion, sm_Segment = replicate q (CHR ''s''), sm_Sequence = q,
       sm_CreatedAt = 0, sm_ClosedAt = 0, sm_RecordCount = 1, sm_SizeBytes = int n, sm_SHA256 = '''',
       sm_PreviousSegmentHash = ''''\<rparr>, si_ModTime = 0, si_SizeBytes = n\<rparr>"

definition demo_segments :: "segment_info list" where
  "demo_segments = [demo_segment 1 20, demo_segment 2 100, demo_segment 3 10]"

definition demo_budget :: retention_config where
  "demo_budget = \<lparr>rc_MaxAge = 0, rc_MaxSizeBytes = 50, rc_MaxSegments = 0\<rparr>"

lemma planRetention_budgets_witness:
  "distinct (map si_Path demo_segments) \<and>
    mset (Keep (planRetention demo_segments demo_budget 0) @ Remove (planRetention demo_segments demo_budget 0)) =
      mset demo_segments \<and>
    int (sum_list (map si_SizeBytes (Keep (planRetention demo_segments demo_budget 0)))) \<le> 50"
proof -
  have d: "distinct (map si_Path demo_segments)" by (simp add: demo_segments_def demo_segment_def numeral_eq_Suc)
  from planRetention_budgets [OF d, of demo_budget 0] d show ?thesis by (simp add: demo_budget_def)
qed

text \<open>The pass over the sizes skips the segment that does not fit and goes on: the oldest one stays.\<close>

lemma oversized_segment_skipped:
  "map (\<lambda>s. sm_Sequence (si_Manifest s)) (Keep (planRetention demo_segments demo_budget 0)) = [1, 3] \<and>
    map (\<lambda>s. sm_Sequence (si_Manifest s)) (Remove (planRetention demo_segments demo_budget 0)) = [2]"
  by (simp add: planRetention_def removeSet_def demo_segments_def demo_segment_def demo_budget_def seg_key_def
      Let_def numeral_eq_Suc)

section \<open>Retention against the chain\<close>










text \<open>
  Retention that keeps the last segments breaks the verification: on a written log with more
  than MaxSegments closed segments it removes the oldest ones, keeps MaxSegments, and what is left is
  not a valid directory any more, because the numbers no longer start at 1.
\<close>



section \<open>Truncation\<close>

lemma segs_delete: "segs (AList.delete n d) = filter (\<lambda>en. fst en \<noteq> n) (segs d)"
  unfolding segs_def AList.delete_eq filter_filter by (rule filter_cong) auto

definition drop_last :: "dir \<Rightarrow> dir" where
  "drop_last d = remove_file (ManifestPathFor (fst (last (segs d)))) (remove_file (fst (last (segs d))) d)"

lemma chained_drop_last:
  assumes c: "chained e d" and wf: "wf_dir d" and ne: "segs d \<noteq> []"
  shows "segs (drop_last d) = butlast (segs d)" "chained e (drop_last d)" "wf_dir (drop_last d)"
proof -
  define en where "en = last (segs d)"
  define xs where "xs = butlast (segs d)"
  have S: "segs d = xs @ [en]" using ne by (simp add: xs_def en_def)
  have dist: "distinct (map fst (segs d))" using wf by (simp add: wf_dir_def wf_names_def segs_def distinct_map_filter)
  then have "fst en \<notin> fst ` set xs" by (simp add: S)
  then have "\<forall>x \<in> set xs. fst x \<noteq> fst en" by (metis image_eqI)
  then have "filter (\<lambda>x. fst x \<noteq> fst en) (xs @ [en]) = xs" by (simp add: filter_id_conv)
  then have sd: "segs (drop_last d) = xs"
    by (simp add: drop_last_def remove_file_def segs_delete_other flip: en_def) (simp add: segs_delete S)
  then show "segs (drop_last d) = butlast (segs d)" by (simp add: xs_def)
  have m: "map_of (drop_last d) n = (if n = fst en \<or> n = ManifestPathFor (fst en) then None else map_of d n)" for n
    by (simp add: drop_last_def map_of_remove flip: en_def)
  obtain q where q: "ParseSegmentSequence (fst en) = Some q" using segs_closed [of en d] S by auto
  have other: "ManifestPathFor (fst (segs d ! i)) \<noteq> ManifestPathFor (fst en)" if i: "i < length xs" for i
  proof
    assume eq: "ManifestPathFor (fst (segs d ! i)) = ManifestPathFor (fst en)"
    obtain q' where "ParseSegmentSequence (fst (segs d ! i)) = Some q'"
      using segs_closed [OF nth_mem, of i d] i by (auto simp: S)
    with eq q have "fst (segs d ! i) = fst en" using ManifestPathFor_inj by metis
    moreover have "fst (segs d ! i) \<in> fst ` set xs" using i by (simp add: S nth_append)
    ultimately show False using dist by (simp add: S)
  qed
  have nth: "xs ! i = segs d ! i" if "i < length xs" for i using that by (simp add: S nth_append)
  have notseg: "ManifestPathFor n \<noteq> fst en" for n
    using q manifest_of_segment(1) [of n] by (metis option.distinct(1))
  have rd: "ReadManifest e (drop_last d) (ManifestPathFor (fst (xs ! i))) = ReadManifest e d (ManifestPathFor (fst (xs ! i)))"
    if "i < length xs" for i
    using other [OF that] notseg by (simp add: ReadManifest_def read_file_def m nth that)
  have at: "manifest_at e (drop_last d) i = manifest_at e d i" if "i < length xs" for i
    using that nth [OF that] nth [of "i - 1"] by (auto simp: fun_eq_iff manifest_at_def prev_digest_def sd)
  show "chained e (drop_last d)" unfolding chained_def sd
  proof (intro conjI allI impI)
    fix i assume i: "i < length xs"
    then have "i < length (segs d)" by (simp add: S)
    with c have "fst (seg_of (segs d ! i)) = i + 1"
      "\<exists>m. ReadManifest e d (ManifestPathFor (fst (segs d ! i))) = Some m \<and> manifest_at e d i m"
      by (auto simp: chained_def)
    then show "fst (seg_of (xs ! i)) = i + 1"
      "\<exists>m. ReadManifest e (drop_last d) (ManifestPathFor (fst (xs ! i))) = Some m \<and> manifest_at e (drop_last d) i m"
      using rd [OF i] at [OF i] by (simp_all add: nth [OF i])
  next
    fix n assume "map_of (drop_last d) n \<noteq> None" "has_suffix n ManifestSuffix"
    then have "map_of d n \<noteq> None" "n \<noteq> ManifestPathFor (fst en)" "has_suffix n ManifestSuffix"
      by (auto simp: m split: if_splits)
    with c show "n \<in> ManifestPathFor ` fst ` set xs" by (auto simp: chained_def S)
  qed
  have "wf_names (drop_last d)" using wf by (simp add: drop_last_def wf_names_remove wf_dir_def)
  with wf show "wf_dir (drop_last d)" by (auto simp: wf_dir_def sd S sorted_wrt_append)
qed

text \<open>
  Removing the newest segments with their manifests is not noticed: without its last segment a
  written log is valid, with one segment less.
\<close>

theorem truncated_log_verifies:
  assumes "good_env e" and "reachable new_log (log_step e cfg safe_faults) s" and "\<And>xs. mset (ord xs) = mset xs"
    and "log_segments (sy_dir s) \<noteq> []"
  shows "dr_Valid (VerifyDirectory e ord (drop_last (sy_dir s))) \<and>
    log_segments (drop_last (sy_dir s)) = butlast (log_segments (sy_dir s)) \<and>
    dr_SegmentsChecked (VerifyDirectory e ord (drop_last (sy_dir s))) = length (log_segments (sy_dir s)) - 1"
proof -
  note c = written_log_chained(1) [OF assms(1,2)] and wf = written_log_chained(2) [OF assms(1,2)]
  have ls: "log_segments (sy_dir s) = map seg_of (segs (sy_dir s))" by (rule log_segments_wf [OF wf])
  with assms(4) have ne: "segs (sy_dir s) \<noteq> []" by simp
  note T = chained_drop_last [OF c wf ne]
  from log_segments_wf [OF T(3)] T(1) ls have "log_segments (drop_last (sy_dir s)) = butlast (log_segments (sy_dir s))"
    by (simp add: map_butlast)
  with chained_result [OF assms(1) T(2,3) assms(3)] show ?thesis by simp
qed

lemma truncated_log_verifies_witness:
  "\<exists>s :: system. map snd (log_segments (sy_dir s)) = [''aa\<newline>'', ''b\<newline>''] \<and>
    map snd (log_segments (drop_last (sy_dir s))) = [''aa\<newline>''] \<and>
    dr_Valid (VerifyDirectory demo_env (\<lambda>xs. xs) (drop_last (sy_dir s)))"
proof -
  obtain s where s: "reachable new_log (log_step demo_env \<lparr>MaxSizeBytes = 0, MaxAge = 0\<rparr> safe_faults) s"
    "map snd (log_segments (sy_dir s)) = map with_newline [''aa'', ''b'']"
    by (rule demo_log [of "[''aa'', ''b'']"]) simp_all
  then have l: "map snd (log_segments (sy_dir s)) = [''aa\<newline>'', ''b\<newline>'']" by (simp add: with_newline_def)
  then have "log_segments (sy_dir s) \<noteq> []" by auto
  from truncated_log_verifies [OF demo_env_good s(1) _ this, of "\<lambda>xs. xs"] l show ?thesis
    by (intro exI [of _ s]) (simp add: map_butlast)
qed

end
