(* ===== verification/Spec2Isabelle.thy ===== *)
theory Spec2Isabelle
  imports GoPrelude Leb128 WasmValidate OptRewrite OptModule Worklist OptDce OptCorrect
    DceLeb DceBody DceModule DceRoundtrip DceCorrect
    GoText Navigation ProviderPool FailureReport
    StderrBuffer Lifecycle Disassembler
    MemoryDiff Snapshots AuthTracker TraceDiff Failover
    AuditLog AuditVerify AuditChain
begin

text \<open>
  A verification development for Glassbox, a debugger for Soroban smart contracts on the Stellar
  network (Go, under internal/).

  The program. A contract is a WebAssembly module. Before anything reads it, internal/wasmvalidate
  walks over it within limits and reports what is wrong. internal/wasmopt and internal/dce remove
  the functions that nothing reaches: two implementations of one idea. internal/wat shows the
  instructions around a failing offset when there is no debug information; it asks wasmvalidate
  whether the module can be walked. The ledger state of a transaction comes from RPC endpoints, which
  internal/rpc chooses from a pool with retries and failover. internal/simulator runs the simulator
  as a process and keeps its standard error. internal/trace holds the execution trace that comes out,
  moves a cursor over it and compares two traces. internal/snapshot stores the ledger state and the
  linear memory of a run, compares two of them and decides whether a stored state may be replayed.
  internal/authtrace follows the authorisation of a call: signatures against weights and thresholds,
  and the rules of custom contracts. internal/audit keeps the audit log: records go to an active
  segment that is closed by rotation, each closed segment has a manifest with its digest and the
  digest of the segment before it, a directory of segments is verified, and retention removes old ones.

  Conventions (GoPrelude, GoText). A Go function is a HOL function into \<open>outcome\<close>: \<open>Ok\<close>, \<open>Err\<close>, \<open>Panic\<close>
  and \<open>Diverge\<close> for a call that does not return; every early return and every index or slice
  expression is a branch. Machine words have their width and wrap. Positions are natural numbers
  where the code cannot make them negative, integers with explicit panics where it can, and 64-bit
  wrapped sums in Disassembler, where a length read from the file can be negative. Structs are
  records with the source's field names (prefixed where two structs share one), strings and byte
  slices are lists. Go maps are functions or sets and the order of a loop over one is a parameter;
  so are the clock, the network, the operating system and what sort.Slice does with equal keys. System
  calls that can fail are named, and an argument says which of them do (AuditLog, Snapshots).
  The collections \<open>nopanic\<close>, \<open>window\<close> and \<open>skipper_intros\<close> carry the facts that readers do not panic and
  only look at the bytes they consume.

  Theories and sources.
  - Leb128, OptRewrite, OptModule, OptDce, OptCorrect: internal/wasmopt/dce.go, all of it. Integers
    (\<open>readU32\<close>, \<open>readSLEB\<close>, \<open>encodeU32\<close>); instructions (\<open>rewriteExpr\<close>, \<open>rewriteCodeBody\<close>); sections
    (\<open>parseSections\<close>, \<open>rebuildModule\<close>, the parsers and rewriters of the sections); the pass
    (\<open>EliminateDeadCode\<close>, from the roots and call edges to the rewritten module). Shown: what the
    output is, entry by entry; the functions kept are those reachable from the roots; a second pass
    removes nothing; the output is not longer; success and absence of panics; round trips of every
    section. Locale \<open>u32_codec\<close> is the contract of writer and reader of an index; it is interpreted on
    the codecs of both packages.
  - DceLeb, DceBody, DceModule, DceRoundtrip, DceCorrect: internal/dce/dce.go, all of it: its own
    codecs, \<open>scanCalls\<close> and \<open>rewriteBody\<close>, \<open>parseModule\<close>, \<open>markReachable\<close>, \<open>rewrite\<close>, \<open>assemble\<close>, \<open>Eliminate\<close>. Shown:
    the output and idempotence, that the calls of a rewritten body are the images of the calls, that
    \<open>parseModule\<close> reads back what \<open>assemble\<close> writes (locale \<open>vector_section\<close>, interpreted on the four vectors),
    that codecs and index map agree with those of wasmopt; and the inputs on which it does not return.
  - Worklist: the locale of marking by a work list, interpreted in OptDce and DceModule on the marking
    loops of both packages, which gives both their characterisation by reachability.
  - WasmValidate: internal/wasmvalidate/validate.go, all of it. Shown: validation never panics, the
    sections it finds tile the module, the locals it adds up, and a sum that wraps around its limit.
  - Disassembler: internal/wat/disassembler.go. Shown: decoding a body does not panic and tiles the
    body; parallel decoding is sequential decoding; the snippet is the window around its target; two
    modules that are valid for wasmvalidate and make the fallback panic.
  - Navigation: internal/trace/navigation.go, event_sequencer.go, event_type.go. The trace, its cursor,
    the snapshots it builds on demand, filters. Locale \<open>checkpointed\<close> is replay from a checkpoint,
    interpreted on the replay of the trace. Shown: reconstruction from snapshots is reconstruction from
    the start, in every reachable trace; the cursor and every index stay in range.
  - ProviderPool, FailureReport: internal/rpc/provider_pool.go and failure_cause.go. The pool, the
    health of its providers, one request with retries and waits, pinned mode, the summary of the
    attempts. Shown: health is a function of the failures in a row, in every pool that concurrent
    requests can reach (each step is one critical section); bounds on attempts and waits; the summary
    says what happened.
  - StderrBuffer, Lifecycle: internal/simulator/lifecycle.go and the use of it in runner.go. Shown: the
    buffer holds the first bytes of the redacted writes, and a redacted write has no sensitive word;
    operations that do not overlap move the state forward; the runner's sequence of operations is
    refused by the manager at every run.
  - Failover: the loops of internal/rpc/client.go over the endpoints, with failover.go and
    network_health.go: the circuit breaker of an endpoint, the health score, the choice of the next
    endpoint. Shown: where a rotation may go, that a transaction served by one endpoint is found, and
    that the loop for a ledger header can pass over an endpoint.
  - MemoryDiff: internal/snapshot/memory_diff.go. Shown: the regions of a difference are the maximal runs
    of changed bytes, and writing them over the old memory gives the new one; when the comparison of
    two snapshots fails.
  - Snapshots: internal/snapshot, the rest: entries, fingerprints, differences, schema versions and
    their migration, stored states and the checks before a replay. Shown: the fingerprint determines
    the state up to collisions of SHA-256; a difference is exactly the entries added, removed and
    changed; what is saved is loaded again when the codec gives it back, and a save that fails keeps
    the old file; which versions are migrated.
  - AuthTracker: internal/authtrace/types.go, tracker.go, validate.go, custom_auth.go. Shown: the
    invariant of the tracker in every reachable state, that a nonce is accepted once, the answers on
    every error; and that weights wrap and one signer can be counted twice.
  - TraceDiff: internal/trace/diff.go. Shown: the matching of the diagnostic events of two traces, the
    comparison of a trace with itself, and two traces in another order that count as equivalent.
  - AuditLog: internal/audit/segment.go, atomic.go, rotation.go. Time stamps and names of segments,
    manifests, the directory as a list of files, the writer (\<open>OpenWriter\<close>, \<open>WriteRecord\<close>, \<open>Rotate\<close>, \<open>Close\<close>) with
    every system call and injected fault that can stop it. Shown: no record is lost, split or moved,
    whatever fails. The relation \<open>log_step\<close> keeps the numbers below 1000000 and the clock between 1970
    and 9600, where names have the length the code expects.
  - AuditVerify: ListSegments of segment.go, verify.go, policy_level.go, retention.go. Shown: when a
    directory is valid, that the two verifications agree but for segments of equal content, and what
    the levels make of their results.
  - AuditChain: the writer against the verification. The chain of manifests is a second invariant of
    \<open>log_step\<close>, for the faults that do not leave a manifest without its segment. Shown: what the writer
    leaves verifies; what the chain does not protect (the segments between first and last, the newest
    ones); retention keeps its budgets, and breaks the verification.
  - GoText: strings, and the locale \<open>machine\<close> (an invariant of the reachable states of a step relation),
    interpreted on the trace, the pool, the lifecycle, the tracker and, with two invariants, the audit log.

  Loops. Recursion is structural or ends by a measure. A loop that may not end is a partial function
  (\<open>brTable_loop\<close>), whose value is then \<open>Diverge\<close>, or has the one divergent count as an explicit branch
  (\<open>decodeOpcode\<close>). The walks over sections in Disassembler (\<open>find_section\<close>, \<open>custom_walk\<close>, \<open>name_walk\<close>) take
  one more turn than the data has bytes: every turn starts at a position within the data, or panics,
  and whether there is a next one depends on the position alone, so a walk with more turns has come
  back to a position and goes round forever (\<open>run_turns\<close> in GoText, \<open>find_section_turns\<close>).
  The loops of a request (\<open>do_loop\<close>, \<open>fetch_loop\<close>) have the number of attempts left
  as their argument, as in the code; those over memories and lists of events follow the list.

  Not modelled. In the modelled files: JSON (navigation.go and the tracker; a codec that is a
  parameter in Snapshots and AuditLog), Save and the file of Load in snapshot.go, temporary files of
  atomic writes in the audit log, SHA-256 (a parameter), the texts of audit issues, the texts of custom
  sections and of whole modules (disassembler.go), texts with ages of events (failure_cause.go),
  renderers of differences, process groups (process_cleanup.go), logging, mutexes where a method is
  one critical section. The health score of an endpoint is computed on the rationals, not in floating point. Beyond
  them: the command line, viewers and exports, which print; the session store, which is SQL; RPC
  requests and replies, signers, source maps and caches, which are calls of libraries that are not in
  the repository (XDR, SQLite, PKCS#11, DWARF) or of the operating system.
\<close>

end
